(* ===== verification/Mcl_Prelude.thy ===== *)
theory Mcl_Prelude
  imports Main "HOL-Library.Word" "HOL-Library.Monad_Syntax"
begin

text \<open>
  Shared vocabulary of the development.

  \<^item> Machine integers: \<open>byte\<close>, \<open>u16\<close>, \<open>u32\<close> are the C types \<open>uint8_t\<close>, \<open>uint16_t\<close>,
    \<open>uint32_t\<close>; \<open>size_t\<close> is \<open>nat\<close> (no sum of sizes in the library exceeds a few thousand, and
    the one subtraction of sizes, in the frame decoder, is modelled by \<open>size_sub\<close>, which
    faults where the C value would wrap).
  \<^item> Memory: an array object is a byte list. Reading or writing outside it is undefined
    behaviour and is the value \<open>None\<close> (a fault) of \<open>'a option\<close>; the functions that touch
    buffers return such an option, and the theories prove that they do not fault.
  \<^item> Pointers: a nullable pointer argument is an option, \<open>None\<close> being \<open>NULL\<close>. A pointer
    \<open>in + pos\<close> used for reading is the tail \<open>drop pos in\<close>; writing needs the object and the offset.
  \<^item> Status codes: the enum of \<open>include/mcl/link.h\<close> as a datatype.

  The locale \<open>be_port\<close> is the contract of a big-endian integer writer and reader: every
  source file of the library has its own static pair, and each is an interpretation.
\<close>

unbundle bit_operations_syntax

type_synonym byte = "8 word"
type_synonym u16 = "16 word"
type_synonym u32 = "32 word"

section \<open>Status codes\<close>

datatype mcl_link_status =
    MCL_LINK_OK
  | MCL_LINK_ERR_INVALID_ARGUMENT
  | MCL_LINK_ERR_RANGE
  | MCL_LINK_ERR_INCOMPATIBLE_VERSION
  | MCL_LINK_ERR_CONTEXT_MISMATCH
  | MCL_LINK_ERR_NO_ACTIVE_CONTEXT
  | MCL_LINK_ERR_INVALID_STATE
  | MCL_LINK_ERR_FRAME_CHECK
  | MCL_LINK_ERR_TRUNCATED

section \<open>Reserved values of \<open>include/mcl/contact.h\<close>, used by several components\<close>

abbreviation (input) MCL_CONTACT_SESSION_NONE :: u32 where "MCL_CONTACT_SESSION_NONE \<equiv> 0"
abbreviation (input) MCL_CONTACT_MIGRATION_NONE :: u32 where "MCL_CONTACT_MIGRATION_NONE \<equiv> 0"
abbreviation (input) MCL_CONTACT_TRANSPORT_RESERVED :: byte where "MCL_CONTACT_TRANSPORT_RESERVED \<equiv> 0"
abbreviation (input) MCL_CONTACT_PROFILE_RESERVED :: byte where "MCL_CONTACT_PROFILE_RESERVED \<equiv> 0"
abbreviation (input) MCL_CONTACT_CHALLENGE_SIZE :: nat where "MCL_CONTACT_CHALLENGE_SIZE \<equiv> 8"

section \<open>Memory\<close>

definition rd :: "byte list \<Rightarrow> nat \<Rightarrow> byte option" where
  "rd p i = (if i < length p then Some (p ! i) else None)"

definition wr :: "byte list \<Rightarrow> nat \<Rightarrow> byte \<Rightarrow> byte list option" where
  "wr buf i b = (if i < length buf then Some (buf[i := b]) else None)"

definition size_sub :: "nat \<Rightarrow> nat \<Rightarrow> nat option" where
  "size_sub a b = (if b \<le> a then Some (a - b) else None)"

text \<open>A buffer \<open>out\<close> whose beginning has been overwritten by \<open>xs\<close>.\<close>

definition over :: "byte list \<Rightarrow> byte list \<Rightarrow> byte list" where
  "over xs out = xs @ drop (length xs) out"

named_theorems mem_simps \<open>symbolic execution of reads and writes\<close>

lemma rd_Cons_0 [simp]: "rd (b # bs) 0 = Some b"
  and rd_Cons_Suc [simp]: "rd (b # bs) (Suc i) = rd bs i"
  and rd_Nil [simp]: "rd [] i = None"
  by (simp_all add: rd_def)

lemma rd_Cons_numeral [simp]: "rd (b # bs) (numeral k) = rd bs (pred_numeral k)"
  by (simp add: numeral_eq_Suc)

lemma rd_Cons_1 [simp]: "rd (b # bs) 1 = rd bs 0"
  by (simp add: rd_def)

lemma rd_in [mem_simps]: "i < length p \<Longrightarrow> rd p i = Some (p ! i)"
  by (simp add: rd_def)

lemma rd_append1: "i < length xs \<Longrightarrow> rd (xs @ ys) i = rd xs i"
  by (simp add: rd_def nth_append)

lemma rd_take: "i < n \<Longrightarrow> rd (take n xs) i = rd xs i"
  by (simp add: rd_def)

lemma size_sub_le [mem_simps]: "b \<le> a \<Longrightarrow> size_sub a b = Some (a - b)"
  by (simp add: size_sub_def)

lemma over_Nil [simp]: "over [] out = out"
  by (simp add: over_def)

lemma length_over [simp]: "length xs \<le> length out \<Longrightarrow> length (over xs out) = length out"
  by (simp add: over_def)

lemma take_over [simp]: "take (length xs) (over xs out) = xs"
  by (simp add: over_def)

lemma wr_over:
  assumes "i = length xs" "length xs < length out"
  shows "wr (over xs out) i b = Some (over (xs @ [b]) out)"
proof -
  have "drop (length xs) out = out ! length xs # drop (Suc (length xs)) out"
    using assms(2) by (simp add: Cons_nth_drop_Suc)
  with assms show ?thesis
    by (simp add: wr_def over_def)
qed

lemma wr_first: "out \<noteq> [] \<Longrightarrow> wr out 0 b = Some (over [b] out)"
  using wr_over [of 0 "[]" out b] by simp

lemma over_full: "length xs = length out \<Longrightarrow> over xs out = xs"
  by (simp add: over_def)

lemma rd_drop: "rd (drop k p) i = rd p (k + i)"
  by (auto simp: rd_def)

text \<open>
  The byte loops \<open>for (i = 0; i < count; ++i) dst[off + i] = src[i]\<close> and
  \<open>dst[off + i] = 0\<close>, which every source file spells out with a volatile destination.
\<close>

fun copy_loop :: "byte list \<Rightarrow> nat \<Rightarrow> byte list \<Rightarrow> nat \<Rightarrow> nat \<Rightarrow> byte list option" where
  "copy_loop dst off src i 0 = Some dst"
| "copy_loop dst off src i (Suc n) = do {
     b \<leftarrow> rd src i;
     dst' \<leftarrow> wr dst (off + i) b;
     copy_loop dst' off src (Suc i) n
   }"

fun zero_loop :: "byte list \<Rightarrow> nat \<Rightarrow> nat \<Rightarrow> nat \<Rightarrow> byte list option" where
  "zero_loop dst off i 0 = Some dst"
| "zero_loop dst off i (Suc n) = do {
     dst' \<leftarrow> wr dst (off + i) 0;
     zero_loop dst' off (Suc i) n
   }"

lemma copy_loop_over:
  assumes "off + i = length xs" "length xs + n \<le> length out" "i + n \<le> length src"
  shows "copy_loop (over xs out) off src i n = Some (over (xs @ take n (drop i src)) out)"
  using assms
proof (induction n arbitrary: i xs)
  case 0
  then show ?case by simp
next
  case (Suc n)
  have "take (Suc n) (drop i src) = src ! i # take n (drop (Suc i) src)"
    using Suc.prems(3) by (simp add: take_Suc_conv_app_nth Cons_nth_drop_Suc [symmetric])
  moreover have "copy_loop (over (xs @ [src ! i]) out) off src (Suc i) n
      = Some (over ((xs @ [src ! i]) @ take n (drop (Suc i) src)) out)"
    by (rule Suc.IH) (use Suc.prems in auto)
  ultimately show ?case
    using Suc.prems by (simp add: mem_simps wr_over)
qed

lemma zero_loop_over:
  assumes "off + i = length xs" "length xs + n \<le> length out"
  shows "zero_loop (over xs out) off i n = Some (over (xs @ replicate n 0) out)"
  using assms
proof (induction n arbitrary: i xs)
  case 0
  then show ?case by simp
next
  case (Suc n)
  have "zero_loop (over (xs @ [0]) out) off (Suc i) n
      = Some (over ((xs @ [0]) @ replicate n 0) out)"
    by (rule Suc.IH) (use Suc.prems in auto)
  then show ?case
    using Suc.prems by (simp add: wr_over)
qed

text \<open>Copying a whole array over an array of the same size, and clearing one.\<close>

lemma copy_loop_all:
  assumes "length dst = n" "n \<le> length src"
  shows "copy_loop dst 0 src 0 n = Some (take n src)"
  using copy_loop_over [of 0 0 "[]" n dst src] assms by (simp add: over_def)

lemma zero_loop_all:
  assumes "length dst = n"
  shows "zero_loop dst 0 0 n = Some (replicate n 0)"
  using zero_loop_over [of 0 0 "[]" n dst] assms by (simp add: over_def)

lemma copy_loop_fault:
  "i \<le> length src \<Longrightarrow> length src < i + n \<Longrightarrow> copy_loop dst off src i n = None"
proof (induction n arbitrary: i dst)
  case 0
  then show ?case by simp
next
  case (Suc n)
  then show ?case
    by (cases "i < length src") (auto simp: rd_def wr_def split: Option.bind_splits)
qed

section \<open>Big-endian integers\<close>

definition be16 :: "u16 \<Rightarrow> byte list" where
  "be16 v = [ucast (drop_bit 8 v), ucast v]"

definition be32 :: "u32 \<Rightarrow> byte list" where
  "be32 v = [ucast (drop_bit 24 v), ucast (drop_bit 16 v), ucast (drop_bit 8 v), ucast v]"

definition of_be16 :: "byte \<Rightarrow> byte \<Rightarrow> u16" where
  "of_be16 a b = push_bit 8 (ucast a) OR ucast b"

definition of_be32 :: "byte \<Rightarrow> byte \<Rightarrow> byte \<Rightarrow> byte \<Rightarrow> u32" where
  "of_be32 a b c d =
     push_bit 24 (ucast a) OR push_bit 16 (ucast b) OR push_bit 8 (ucast c) OR ucast d"

lemma length_be16 [simp]: "length (be16 v) = 2"
  and length_be32 [simp]: "length (be32 w) = 4"
  by (simp_all add: be16_def be32_def)

lemma low_byte_mask: "(255 :: 'a::len word) = mask 8"
  by (simp add: mask_eq_exp_minus_1)

lemma ucast_low_byte16 [simp]: "(ucast (w AND 255) :: byte) = ucast (w :: u16)"
  by (rule bit_word_eqI) (auto simp: low_byte_mask bit_simps)

lemma ucast_low_byte32 [simp]: "(ucast (w AND 255) :: byte) = ucast (w :: u32)"
  by (rule bit_word_eqI) (auto simp: low_byte_mask bit_simps)

lemma bit_byte_ge_8 [simp]: "8 \<le> n \<Longrightarrow> \<not> bit (a :: byte) n"
  using bit_imp_le_length [of a n] by auto

lemma of_be16_split: "of_be16 (ucast (drop_bit 8 v)) (ucast v) = v"
proof (rule bit_word_eqI)
  fix n assume "n < LENGTH(16)"
  then have "n < 8 \<or> 8 \<le> n \<and> n < 16" by auto
  then show "bit (of_be16 (ucast (drop_bit 8 v)) (ucast v)) n = bit v n"
    by (auto simp: of_be16_def bit_simps)
qed

lemma of_be32_split:
  "of_be32 (ucast (drop_bit 24 v)) (ucast (drop_bit 16 v)) (ucast (drop_bit 8 v)) (ucast v) = v"
proof (rule bit_word_eqI)
  fix n assume "n < LENGTH(32)"
  then have "n < 8 \<or> 8 \<le> n \<and> n < 16 \<or> 16 \<le> n \<and> n < 24 \<or> 24 \<le> n \<and> n < 32" by auto
  then show "bit (of_be32 (ucast (drop_bit 24 v)) (ucast (drop_bit 16 v))
      (ucast (drop_bit 8 v)) (ucast v)) n = bit v n"
    by (elim disjE) (auto simp: of_be32_def bit_simps)
qed

lemma be16_of_be16 [simp]: "be16 (of_be16 a b) = [a, b]"
proof -
  have "(ucast (drop_bit 8 (of_be16 a b)) :: byte) = a"
    by (rule bit_word_eqI) (simp add: of_be16_def bit_simps)
  moreover have "(ucast (of_be16 a b) :: byte) = b"
    by (rule bit_word_eqI) (simp add: of_be16_def bit_simps)
  ultimately show ?thesis by (simp add: be16_def)
qed

lemma be32_of_be32 [simp]: "be32 (of_be32 a b c d) = [a, b, c, d]"
proof -
  have "(ucast (drop_bit 24 (of_be32 a b c d)) :: byte) = a"
    by (rule bit_word_eqI) (simp add: of_be32_def bit_simps)
  moreover have "(ucast (drop_bit 16 (of_be32 a b c d)) :: byte) = b"
    by (rule bit_word_eqI) (simp add: of_be32_def bit_simps)
  moreover have "(ucast (drop_bit 8 (of_be32 a b c d)) :: byte) = c"
    by (rule bit_word_eqI) (simp add: of_be32_def bit_simps)
  moreover have "(ucast (of_be32 a b c d) :: byte) = d"
    by (rule bit_word_eqI) (simp add: of_be32_def bit_simps)
  ultimately show ?thesis by (simp add: be32_def)
qed

lemma of_be16_be16: "be16 v = [a, b] \<Longrightarrow> of_be16 a b = v"
  using of_be16_split [of v] by (simp add: be16_def)

lemma of_be32_be32: "be32 v = [a, b, c, d] \<Longrightarrow> of_be32 a b c d = v"
  using of_be32_split [of v] by (simp add: be32_def)

text \<open>The integer at offset \<open>p\<close> of a buffer, for specifications that have no cursor.\<close>

definition word16_at :: "byte list \<Rightarrow> nat \<Rightarrow> u16" where
  "word16_at B p = of_be16 (B ! p) (B ! (p + 1))"

definition word32_at :: "byte list \<Rightarrow> nat \<Rightarrow> u32" where
  "word32_at B p = of_be32 (B ! p) (B ! (p + 1)) (B ! (p + 2)) (B ! (p + 3))"

lemma be16_word16_at: "p + 2 \<le> length B \<Longrightarrow> be16 (word16_at B p) = take 2 (drop p B)"
  by (simp add: word16_at_def numeral_2_eq_2 Cons_nth_drop_Suc [symmetric])

lemma be32_word32_at: "p + 4 \<le> length B \<Longrightarrow> be32 (word32_at B p) = take 4 (drop p B)"
  by (simp add: word32_at_def numeral_eq_Suc Cons_nth_drop_Suc [symmetric])

lemma take_word16: "p + 2 \<le> length B \<Longrightarrow> take (p + 2) B = take p B @ be16 (word16_at B p)"
  by (simp only: be16_word16_at take_add)

lemma take_word32: "p + 4 \<le> length B \<Longrightarrow> take (p + 4) B = take p B @ be32 (word32_at B p)"
  by (simp only: be32_word32_at take_add)

lemma take_word16_if: "p + (if c then 2 else 0) \<le> length B \<Longrightarrow>
    take (p + (if c then 2 else 0)) B = take p B @ (if c then be16 (word16_at B p) else [])"
  by (cases c) (simp_all only: take_word16 if_True if_False add_0_right append_Nil2)

lemma take_word32_if: "p + (if c then 4 else 0) \<le> length B \<Longrightarrow>
    take (p + (if c then 4 else 0)) B = take p B @ (if c then be32 (word32_at B p) else [])"
  by (cases c) (simp_all only: take_word32 if_True if_False add_0_right append_Nil2)

lemma word16_at_take: "p + 2 \<le> n \<Longrightarrow> word16_at (take n B) p = word16_at B p"
  by (simp add: word16_at_def)

lemma word32_at_take: "p + 4 \<le> n \<Longrightarrow> word32_at (take n B) p = word32_at B p"
  by (simp add: word32_at_def)

lemma word16_at_append: "p = length xs \<Longrightarrow> word16_at (xs @ be16 v @ ys) p = v"
  by (simp add: word16_at_def be16_def nth_append of_be16_split)

lemma word32_at_append: "p = length xs \<Longrightarrow> word32_at (xs @ be32 v @ ys) p = v"
  by (simp add: word32_at_def be32_def nth_append of_be32_split)

text \<open>
  The contract of a pair of static functions \<open>put\<close> and \<open>get\<close>: \<open>put buf off v\<close> writes the
  \<open>width\<close> bytes \<open>enc v\<close> at \<open>off\<close>, \<open>get p\<close> reads them back through the pointer \<open>p\<close>.
\<close>

locale be_port =
  fixes put :: "byte list \<Rightarrow> nat \<Rightarrow> 'v \<Rightarrow> byte list option"
    and get :: "byte list \<Rightarrow> 'v option"
    and enc :: "'v \<Rightarrow> byte list"
    and width :: nat
  assumes length_enc: "length (enc v) = width"
    and put_over: "\<And>xs out off v. off = length xs \<Longrightarrow> length xs + width \<le> length out
        \<Longrightarrow> put (over xs out) off v = Some (over (xs @ enc v) out)"
    and get_enc: "\<And>v ys. get (enc v @ ys) = Some v"
    and get_in: "\<And>p. width \<le> length p \<Longrightarrow> \<exists>v. get p = Some v \<and> enc v = take width p"
    and get_out: "\<And>p. length p < width \<Longrightarrow> get p = None"
begin

lemma enc_inj: "enc v = enc w \<Longrightarrow> v = w"
  using get_enc [of v "[]"] get_enc [of w "[]"] by simp

lemma get_Some_iff: "get p = Some v \<longleftrightarrow> (\<exists>ys. p = enc v @ ys)"
proof
  assume got: "get p = Some v"
  then have "width \<le> length p" using get_out [of p] by (cases "width \<le> length p") auto
  with get_in [of p] got have "enc v = take width p" by auto
  then show "\<exists>ys. p = enc v @ ys" by (metis append_take_drop_id)
qed (auto simp: get_enc)

lemma get_total: "get p \<noteq> None \<longleftrightarrow> width \<le> length p"
  using get_in [of p] get_out [of p] by (cases "width \<le> length p") auto

lemma get_at:
  assumes "enc v = take width (drop pos buf)"
  shows "get (drop pos buf) = Some v"
  unfolding get_Some_iff by (metis assms append_take_drop_id)

text \<open>A read at offset \<open>pos\<close> extends the part of the buffer already accounted for.\<close>

lemma get_drop_take:
  assumes "get (drop pos buf) = Some v"
  shows "take (pos + width) buf = take pos buf @ enc v" and "pos \<le> length buf \<Longrightarrow> pos + width \<le> length buf"
proof -
  from assms obtain ys where ys: "drop pos buf = enc v @ ys" by (auto simp: get_Some_iff)
  then have "take width (drop pos buf) = enc v" by (simp add: length_enc)
  then show "take (pos + width) buf = take pos buf @ enc v" by (simp add: take_add)
  show "pos + width \<le> length buf" if "pos \<le> length buf"
    using arg_cong [OF ys, of length] that by (simp add: length_enc)
qed

text \<open>The optional fields: \<open>if (flag) { put; pos += width }\<close> and its reader.\<close>

lemma put_if_over:
  assumes "off = length xs" "length xs + (if c then width else 0) \<le> length out"
  shows "(if c then put (over xs out) off v \<bind> (\<lambda>out'. Some (out', off + width))
          else Some (over xs out, off))
      = Some (over (xs @ (if c then enc v else [])) out,
              length (xs @ (if c then enc v else [])))"
  using assms by (auto simp: put_over length_enc)

lemma get_if_take:
  assumes "(if c then get (drop pos buf) \<bind> (\<lambda>v. Some (v, pos + width)) else Some (z, pos))
      = Some (v, pos')" and "pos \<le> length buf"
  shows "take pos' buf = take pos buf @ (if c then enc v else [])
      \<and> pos' = pos + (if c then width else 0) \<and> pos' \<le> length buf \<and> (c \<or> v = z)"
  using assms get_drop_take [of pos buf] by (auto split: if_splits Option.bind_splits)

lemma get_if_enc:
  assumes "drop pos buf = (if c then enc v else []) @ ys"
  shows "(if c then get (drop pos buf) \<bind> (\<lambda>v. Some (v, pos + width)) else Some (z, pos))
      = Some (if c then v else z, pos + (if c then width else 0))"
  using assms by (auto simp: get_enc)

lemma get_if_total:
  assumes "pos + (if c then width else 0) \<le> length buf"
  obtains v where "(if c then get (drop pos buf) \<bind> (\<lambda>v. Some (v, pos + width)) else Some (z, pos))
      = Some (v, pos + (if c then width else 0))"
  using assms get_total [of "drop pos buf"] by (cases c) (auto simp: algebra_simps le_diff_conv2)

end

text \<open>
  The two byte-level shapes the source writes (with and without the redundant \<open>& 0xFF\<close>) and the
  shapes it reads; every pair of static functions is proved to be one of them.
\<close>

lemma be_port_16:
  assumes put: "\<And>buf off v. put buf off v = do {
        b1 \<leftarrow> wr buf off (ucast (drop_bit 8 v));
        wr b1 (off + 1) (ucast (v :: u16)) }"
    and get: "\<And>p. get p = do { a \<leftarrow> rd p 0; b \<leftarrow> rd p 1; Some (of_be16 a b) }"
  shows "be_port put get be16 2"
proof
  show "put (over xs out) off v = Some (over (xs @ be16 v) out)"
    if "off = length xs" "length xs + 2 \<le> length out" for xs out off v
    using that by (simp add: put wr_over be16_def)
  show "get (be16 v @ ys) = Some v" for v ys
    by (simp add: get be16_def of_be16_split)
  show "\<exists>v. get p = Some v \<and> be16 v = take 2 p" if "2 \<le> length p" for p
  proof -
    from that obtain a b ys where "p = a # b # ys"
      by (metis One_nat_def Suc_1 Suc_le_length_iff)
    then show ?thesis by (simp add: get)
  qed
  show "get p = None" if "length p < 2" for p
    using that by (auto simp: get rd_def)
qed simp

lemma be_port_32:
  assumes put: "\<And>buf off v. put buf off v = do {
        b1 \<leftarrow> wr buf off (ucast (drop_bit 24 v));
        b2 \<leftarrow> wr b1 (off + 1) (ucast (drop_bit 16 v));
        b3 \<leftarrow> wr b2 (off + 2) (ucast (drop_bit 8 v));
        wr b3 (off + 3) (ucast (v :: u32)) }"
    and get: "\<And>p. get p = do {
        a \<leftarrow> rd p 0; b \<leftarrow> rd p 1; c \<leftarrow> rd p 2; d \<leftarrow> rd p 3; Some (of_be32 a b c d) }"
  shows "be_port put get be32 4"
proof
  show "put (over xs out) off v = Some (over (xs @ be32 v) out)"
    if "off = length xs" "length xs + 4 \<le> length out" for xs out off v
    using that by (simp add: put wr_over be32_def)
  show "get (be32 v @ ys) = Some v" for v ys
    by (simp add: get be32_def of_be32_split)
  show "\<exists>v. get p = Some v \<and> be32 v = take 4 p" if "4 \<le> length p" for p
  proof -
    from that obtain a b c d ys where "p = a # b # c # d # ys"
      by (auto simp: numeral_eq_Suc Suc_le_length_iff)
    then show ?thesis by (simp add: get)
  qed
  show "get p = None" if "length p < 4" for p
    using that by (auto simp: get rd_def)
qed simp

end
