(* ===== verification/Mcl_Calls.thy ===== *)
theory Mcl_Calls
  imports Mcl_Prelude "HOL-Library.Sublist"
begin

text \<open>
  Sequences of API calls on one caller-owned object. A component that keeps state (the Link
  lifecycle, the contact) is a function \<open>exec\<close> from a call and a state to a status and the next
  state. \<open>run_calls\<close> makes the calls in order, whatever they return; \<open>accepted_calls\<close> lists the
  ones that returned \<open>MCL_LINK_OK\<close>.

  The locale \<open>call_machine\<close> states the contract such a component keeps: no call faults, every
  call keeps the invariant, and a refused call changes nothing. What follows for whole runs is
  proved here once: runs do not fault, keep the invariant, may drop their refused calls, and
  admit induction over the accepted history.
\<close>

type_synonym ('c, 's) call_exec = "'c \<Rightarrow> 's \<Rightarrow> (mcl_link_status \<times> 's) option"

primrec run_calls :: "('c, 's) call_exec \<Rightarrow> 'c list \<Rightarrow> 's \<Rightarrow> 's option" where
  "run_calls exec [] s = Some s"
| "run_calls exec (c # cs) s = (case exec c s of
     None \<Rightarrow> None
   | Some (st, s') \<Rightarrow> run_calls exec cs s')"

primrec accepted_calls :: "('c, 's) call_exec \<Rightarrow> 'c list \<Rightarrow> 's \<Rightarrow> 'c list" where
  "accepted_calls exec [] s = []"
| "accepted_calls exec (c # cs) s = (case exec c s of
     None \<Rightarrow> []
   | Some (st, s') \<Rightarrow> (if st = MCL_LINK_OK then [c] else []) @ accepted_calls exec cs s')"

text \<open>Calls on a non-null object: the object is still there afterwards.\<close>

definition on_object :: "(mcl_link_status \<times> 's option) option \<Rightarrow> (mcl_link_status \<times> 's) option" where
  "on_object r = (case r of Some (st, Some s) \<Rightarrow> Some (st, s) | _ \<Rightarrow> None)"

lemma on_object_simps [simp]:
  "on_object (Some (st, Some s)) = Some (st, s)"
  "on_object None = None"
  "on_object (Some (st, None)) = None"
  by (simp_all add: on_object_def)

lemma run_calls_append:
  "run_calls exec (cs @ ds) s = run_calls exec cs s \<bind> run_calls exec ds"
  by (induction cs arbitrary: s) (auto split: option.splits)

lemma subseq_grow: "subseq xs h \<Longrightarrow> subseq xs (h @ [c])"
  by (rule subseq_rev_drop_many)

lemma subseq_take_last: "subseq xs h \<Longrightarrow> subseq (xs @ [c]) (h @ [c])"
  by (rule list_emb_append_mono) auto

locale call_machine =
  fixes exec :: "('c, 's) call_exec"
    and inv :: "'s \<Rightarrow> bool"
    and legal :: "'c \<Rightarrow> bool"
  assumes exec_safe: "inv s \<Longrightarrow> legal c \<Longrightarrow> \<exists>st s'. exec c s = Some (st, s')"
    and exec_inv: "inv s \<Longrightarrow> legal c \<Longrightarrow> exec c s = Some (st, s') \<Longrightarrow> inv s'"
    and exec_refused: "inv s \<Longrightarrow> legal c \<Longrightarrow> exec c s = Some (st, s') \<Longrightarrow> st \<noteq> MCL_LINK_OK
        \<Longrightarrow> s' = s"
begin

lemma run_total:
  "inv s \<Longrightarrow> list_all legal cs \<Longrightarrow> \<exists>s'. run_calls exec cs s = Some s' \<and> inv s'"
proof (induction cs arbitrary: s)
  case Nil
  then show ?case by simp
next
  case (Cons c cs)
  then obtain st s1 where s1: "exec c s = Some (st, s1)"
    using exec_safe by force
  with Cons.prems have "inv s1" by (auto intro: exec_inv)
  with Cons s1 show ?case by simp
qed

lemma run_inv: "inv s \<Longrightarrow> list_all legal cs \<Longrightarrow> run_calls exec cs s = Some s' \<Longrightarrow> inv s'"
  using run_total by fastforce

text \<open>A refused call can be deleted from a run without changing where the run ends.\<close>

lemma run_accepted:
  "inv s \<Longrightarrow> list_all legal cs \<Longrightarrow>
    run_calls exec (accepted_calls exec cs s) s = run_calls exec cs s"
proof (induction cs arbitrary: s)
  case Nil
  then show ?case by simp
next
  case (Cons c cs)
  then obtain st s1 where s1: "exec c s = Some (st, s1)"
    using exec_safe by force
  with Cons.prems have "inv s1" by (auto intro: exec_inv)
  moreover have "s1 = s" if "st \<noteq> MCL_LINK_OK"
    using exec_refused Cons.prems s1 that by auto
  ultimately show ?case
    using Cons s1 by (cases "st = MCL_LINK_OK") auto
qed

text \<open>
  Induction over the accepted history: \<open>J s h\<close> holds of the state and the accepted calls so far
  if it holds at the start and every accepted call extends it.
\<close>

lemma history_induct:
  assumes step: "\<And>s c s' h. \<lbrakk>inv s; J s h; legal c; exec c s = Some (MCL_LINK_OK, s')\<rbrakk>
        \<Longrightarrow> J s' (h @ [c])"
  shows "\<lbrakk>inv s; J s h; list_all legal cs; run_calls exec cs s = Some s'\<rbrakk>
        \<Longrightarrow> J s' (h @ accepted_calls exec cs s)"
proof (induction cs arbitrary: s h)
  case Nil
  then show ?case by simp
next
  case (Cons c cs)
  then obtain st s1 where s1: "exec c s = Some (st, s1)"
    using exec_safe by force
  with Cons.prems have inv1: "inv s1" by (auto intro: exec_inv)
  show ?case
  proof (cases "st = MCL_LINK_OK")
    case True
    with s1 Cons.prems have "J s1 (h @ [c])" by (auto intro: step)
    from Cons.IH [OF inv1 this] Cons.prems s1 True show ?thesis by simp
  next
    case False
    with s1 Cons.prems have "s1 = s" by (auto dest: exec_refused)
    with Cons.IH [of s h] Cons.prems s1 False show ?thesis by simp
  qed
qed

text \<open>The special case of a predicate on states alone.\<close>

lemma run_stable:
  assumes "\<And>s c s'. \<lbrakk>inv s; P s; legal c; exec c s = Some (MCL_LINK_OK, s')\<rbrakk> \<Longrightarrow> P s'"
    and "inv s" "P s" "list_all legal cs" "run_calls exec cs s = Some s'"
  shows "P s'"
  using history_induct [of "\<lambda>s h. P s", OF _ assms(2-5)] assms(1) by blast

end

text \<open>The two ends of an exchange in which neither peer has a role.\<close>

datatype side = Left | Right

primrec opposite :: "side \<Rightarrow> side" where
  "opposite Left = Right"
| "opposite Right = Left"

lemma opposite_simps [simp]: "opposite (opposite x) = x" "opposite x \<noteq> x" "x \<noteq> opposite x"
  by (cases x; simp)+

lemma side_cases: "z = x \<or> z = opposite x"
  by (cases x; cases z) simp_all

end
