(* ===== verification/Mcl_Link.thy ===== *)
theory Mcl_Link
  imports Mcl_Calls
begin

text \<open>
  The Link lifecycle and its installed context: \<open>src/link.c\<close> up to the frame codec, with the
  types of \<open>include/mcl/link.h\<close>. The state is the record \<open>mcl_link\<close>; lifecycle states are the
  raw byte the C field holds, so every value a caller can pass is covered.

  The abstract side is \<open>lifecycle\<close> with its edges and an optional context whose digest has its
  exact length; the concrete operations refine it.
\<close>

section \<open>Types and constants\<close>

abbreviation (input) MCL_LINK_STATE_IDLE :: byte where "MCL_LINK_STATE_IDLE \<equiv> 0"
abbreviation (input) MCL_LINK_STATE_DISCOVERED :: byte where "MCL_LINK_STATE_DISCOVERED \<equiv> 1"
abbreviation (input) MCL_LINK_STATE_CAPABILITIES :: byte where "MCL_LINK_STATE_CAPABILITIES \<equiv> 2"
abbreviation (input) MCL_LINK_STATE_NEGOTIATING :: byte where "MCL_LINK_STATE_NEGOTIATING \<equiv> 3"
abbreviation (input) MCL_LINK_STATE_ESTABLISHED :: byte where "MCL_LINK_STATE_ESTABLISHED \<equiv> 4"
abbreviation (input) MCL_LINK_STATE_ADAPTING :: byte where "MCL_LINK_STATE_ADAPTING \<equiv> 5"
abbreviation (input) MCL_LINK_STATE_HANDOFF :: byte where "MCL_LINK_STATE_HANDOFF \<equiv> 6"
abbreviation (input) MCL_LINK_STATE_FALLBACK :: byte where "MCL_LINK_STATE_FALLBACK \<equiv> 7"
abbreviation (input) MCL_LINK_STATE_CLOSED :: byte where "MCL_LINK_STATE_CLOSED \<equiv> 8"

abbreviation (input) MCL_LINK_RULESET_DIGEST_MAX_SIZE :: nat where
  "MCL_LINK_RULESET_DIGEST_MAX_SIZE \<equiv> 32"

record mcl_link_context_key =
  key_wire_major :: byte
  key_context_id :: u32
  key_generation :: u32
  key_ruleset_digest :: "byte list"
  key_ruleset_digest_size :: byte

record mcl_link =
  link_state :: byte
  link_context_valid :: byte
  link_active_context :: mcl_link_context_key
  link_supported_wire_majors_mask :: u16

section \<open>Operations\<close>

definition mcl_link_wire_major_mask :: "u32 \<Rightarrow> u16" where
  "mcl_link_wire_major_mask wire_major =
     (if wire_major > 15 then 0 else ucast (push_bit (unat wire_major) (1 :: u32)))"

definition mcl_link_zero_bytes :: "byte list \<Rightarrow> nat \<Rightarrow> nat \<Rightarrow> byte list option" where
  "mcl_link_zero_bytes dst off count = zero_loop dst off 0 count"

definition mcl_link_copy_bytes :: "byte list \<Rightarrow> nat \<Rightarrow> byte list \<Rightarrow> nat \<Rightarrow> byte list option" where
  "mcl_link_copy_bytes dst off src count = copy_loop dst off src 0 count"

definition mcl_link_zero_context ::
  "mcl_link_context_key option \<Rightarrow> mcl_link_context_key option option" where
  "mcl_link_zero_context key = (case key of
     None \<Rightarrow> Some None
   | Some k \<Rightarrow> do {
       digest \<leftarrow> mcl_link_zero_bytes (key_ruleset_digest k) 0 MCL_LINK_RULESET_DIGEST_MAX_SIZE;
       Some (Some (k\<lparr>key_wire_major := 0, key_context_id := 0, key_generation := 0,
                      key_ruleset_digest_size := 0, key_ruleset_digest := digest\<rparr>)) })"

text \<open>\<open>&link->active_context\<close> is the address of a member, so it is passed as a non-null pointer.\<close>

definition zero_active_context :: "mcl_link \<Rightarrow> mcl_link option" where
  "zero_active_context l = (case mcl_link_zero_context (Some (link_active_context l)) of
     Some (Some k) \<Rightarrow> Some (l\<lparr>link_active_context := k\<rparr>)
   | _ \<Rightarrow> None)"

definition mcl_link_clear_context :: "mcl_link option \<Rightarrow> mcl_link option option" where
  "mcl_link_clear_context link = (case link of
     None \<Rightarrow> Some None
   | Some l \<Rightarrow> do {
       l' \<leftarrow> zero_active_context (l\<lparr>link_context_valid := 0\<rparr>);
       Some (Some l') })"

definition mcl_link_init ::
  "mcl_link option \<Rightarrow> u16 \<Rightarrow> (mcl_link_status \<times> mcl_link option) option" where
  "mcl_link_init link supported_wire_majors_mask = (case link of
     None \<Rightarrow> Some (MCL_LINK_ERR_INVALID_ARGUMENT, None)
   | Some l \<Rightarrow> do {
       l' \<leftarrow> zero_active_context
              (l\<lparr>link_state := MCL_LINK_STATE_IDLE, link_context_valid := 0,
                 link_supported_wire_majors_mask := supported_wire_majors_mask\<rparr>);
       Some (MCL_LINK_OK, Some l') })"

definition mcl_link_reset :: "mcl_link option \<Rightarrow> (mcl_link_status \<times> mcl_link option) option" where
  "mcl_link_reset link = (case link of
     None \<Rightarrow> Some (MCL_LINK_ERR_INVALID_ARGUMENT, None)
   | Some l \<Rightarrow> do {
       l' \<leftarrow> mcl_link_clear_context (Some (l\<lparr>link_state := MCL_LINK_STATE_IDLE\<rparr>));
       Some (MCL_LINK_OK, l') })"

text \<open>The comparison loop of \<open>mcl_link_context_key_equals\<close>, with its early exit.\<close>

fun digest_equal_loop :: "byte list \<Rightarrow> byte list \<Rightarrow> nat \<Rightarrow> nat \<Rightarrow> byte option" where
  "digest_equal_loop a b i 0 = Some 1"
| "digest_equal_loop a b i (Suc n) = do {
     x \<leftarrow> rd a i;
     y \<leftarrow> rd b i;
     if x \<noteq> y then Some 0 else digest_equal_loop a b (Suc i) n }"

definition mcl_link_context_key_equals ::
  "mcl_link_context_key option \<Rightarrow> mcl_link_context_key option \<Rightarrow> byte option" where
  "mcl_link_context_key_equals pa pb = (case (pa, pb) of
     (Some a, Some b) \<Rightarrow>
       if key_ruleset_digest_size a = 0 \<or> key_ruleset_digest_size a > 32
          \<or> key_ruleset_digest_size b = 0 \<or> key_ruleset_digest_size b > 32 then Some 0
       else if key_wire_major a \<noteq> key_wire_major b
          \<or> key_context_id a \<noteq> key_context_id b
          \<or> key_generation a \<noteq> key_generation b
          \<or> key_ruleset_digest_size a \<noteq> key_ruleset_digest_size b then Some 0
       else digest_equal_loop (key_ruleset_digest a) (key_ruleset_digest b) 0
              (unat (key_ruleset_digest_size a))
   | _ \<Rightarrow> Some 0)"

definition mcl_link_install_context ::
  "mcl_link option \<Rightarrow> mcl_link_context_key option
    \<Rightarrow> (mcl_link_status \<times> mcl_link option) option" where
  "mcl_link_install_context link key = (case (link, key) of
     (Some l, Some k) \<Rightarrow>
       if link_state l = MCL_LINK_STATE_IDLE \<or> link_state l = MCL_LINK_STATE_DISCOVERED
          \<or> link_state l = MCL_LINK_STATE_CLOSED
       then Some (MCL_LINK_ERR_INVALID_STATE, link)
       else if key_wire_major k > 15 then Some (MCL_LINK_ERR_RANGE, link)
       else if key_ruleset_digest_size k = 0 \<or> key_ruleset_digest_size k > 32
       then Some (MCL_LINK_ERR_RANGE, link)
       else if link_supported_wire_majors_mask l
                 AND ucast (push_bit (unat (key_wire_major k)) (1 :: u32)) = 0
       then Some (MCL_LINK_ERR_INCOMPATIBLE_VERSION, link)
       else do {
         digest1 \<leftarrow> mcl_link_copy_bytes (key_ruleset_digest (link_active_context l)) 0
                     (key_ruleset_digest k) (unat (key_ruleset_digest_size k));
         digest2 \<leftarrow> mcl_link_zero_bytes digest1 (unat (key_ruleset_digest_size k))
                     (MCL_LINK_RULESET_DIGEST_MAX_SIZE - unat (key_ruleset_digest_size k));
         Some (MCL_LINK_OK, Some (l\<lparr>
           link_active_context := (link_active_context l)\<lparr>
             key_wire_major := key_wire_major k,
             key_context_id := key_context_id k,
             key_generation := key_generation k,
             key_ruleset_digest_size := key_ruleset_digest_size k,
             key_ruleset_digest := digest2\<rparr>,
           link_context_valid := 1\<rparr>)) }
   | _ \<Rightarrow> Some (MCL_LINK_ERR_INVALID_ARGUMENT, link))"

definition mcl_link_authorize_context ::
  "mcl_link option \<Rightarrow> mcl_link_context_key option \<Rightarrow> mcl_link_status option" where
  "mcl_link_authorize_context link key = (case (link, key) of
     (Some l, Some k) \<Rightarrow>
       if link_context_valid l = 0 then Some MCL_LINK_ERR_NO_ACTIVE_CONTEXT
       else do {
         eq \<leftarrow> mcl_link_context_key_equals (Some (link_active_context l)) (Some k);
         if eq = 0 then Some MCL_LINK_ERR_CONTEXT_MISMATCH else Some MCL_LINK_OK }
   | _ \<Rightarrow> Some MCL_LINK_ERR_INVALID_ARGUMENT)"

definition mcl_link_has_active_context ::
  "mcl_link option \<Rightarrow> byte option \<Rightarrow> mcl_link_status \<times> byte option" where
  "mcl_link_has_active_context link has_context = (case (link, has_context) of
     (Some l, Some _) \<Rightarrow> (MCL_LINK_OK, Some (link_context_valid l))
   | _ \<Rightarrow> (MCL_LINK_ERR_INVALID_ARGUMENT, has_context))"

text \<open>
  The accepting branch of every case of the switch in \<open>mcl_link_transition\<close>: take the state and,
  where the case says so, clear the context.
\<close>

definition transition_to ::
  "mcl_link \<Rightarrow> byte \<Rightarrow> bool \<Rightarrow> (mcl_link_status \<times> mcl_link option) option" where
  "transition_to l next_state clear = do {
     l' \<leftarrow> (if clear then mcl_link_clear_context (Some (l\<lparr>link_state := next_state\<rparr>))
           else Some (Some (l\<lparr>link_state := next_state\<rparr>)));
     Some (MCL_LINK_OK, l') }"

definition mcl_link_transition ::
  "mcl_link option \<Rightarrow> byte \<Rightarrow> (mcl_link_status \<times> mcl_link option) option" where
  "mcl_link_transition link next_state = (case link of
     None \<Rightarrow> Some (MCL_LINK_ERR_INVALID_ARGUMENT, None)
   | Some l \<Rightarrow>
     if link_state l = MCL_LINK_STATE_IDLE then
       (if next_state = MCL_LINK_STATE_DISCOVERED \<or> next_state = MCL_LINK_STATE_CLOSED
        then transition_to l next_state (next_state = MCL_LINK_STATE_CLOSED)
        else Some (MCL_LINK_ERR_INVALID_STATE, link))
     else if link_state l = MCL_LINK_STATE_DISCOVERED then
       (if next_state = MCL_LINK_STATE_CAPABILITIES \<or> next_state = MCL_LINK_STATE_IDLE
           \<or> next_state = MCL_LINK_STATE_CLOSED
        then transition_to l next_state
               (next_state = MCL_LINK_STATE_IDLE \<or> next_state = MCL_LINK_STATE_CLOSED)
        else Some (MCL_LINK_ERR_INVALID_STATE, link))
     else if link_state l = MCL_LINK_STATE_CAPABILITIES then
       (if next_state = MCL_LINK_STATE_NEGOTIATING \<or> next_state = MCL_LINK_STATE_IDLE
           \<or> next_state = MCL_LINK_STATE_CLOSED
        then transition_to l next_state
               (next_state = MCL_LINK_STATE_IDLE \<or> next_state = MCL_LINK_STATE_CLOSED)
        else Some (MCL_LINK_ERR_INVALID_STATE, link))
     else if link_state l = MCL_LINK_STATE_NEGOTIATING then
       (if next_state = MCL_LINK_STATE_ESTABLISHED \<or> next_state = MCL_LINK_STATE_IDLE
           \<or> next_state = MCL_LINK_STATE_CLOSED
        then transition_to l next_state
               (next_state = MCL_LINK_STATE_IDLE \<or> next_state = MCL_LINK_STATE_CLOSED)
        else Some (MCL_LINK_ERR_INVALID_STATE, link))
     else if link_state l = MCL_LINK_STATE_ESTABLISHED then
       (if next_state = MCL_LINK_STATE_ADAPTING \<or> next_state = MCL_LINK_STATE_HANDOFF
           \<or> next_state = MCL_LINK_STATE_FALLBACK \<or> next_state = MCL_LINK_STATE_IDLE
           \<or> next_state = MCL_LINK_STATE_CLOSED
        then transition_to l next_state
               (next_state = MCL_LINK_STATE_IDLE \<or> next_state = MCL_LINK_STATE_CLOSED)
        else Some (MCL_LINK_ERR_INVALID_STATE, link))
     else if link_state l = MCL_LINK_STATE_ADAPTING then
       (if next_state = MCL_LINK_STATE_ESTABLISHED \<or> next_state = MCL_LINK_STATE_HANDOFF
           \<or> next_state = MCL_LINK_STATE_FALLBACK \<or> next_state = MCL_LINK_STATE_IDLE
           \<or> next_state = MCL_LINK_STATE_CLOSED
        then transition_to l next_state
               (next_state = MCL_LINK_STATE_IDLE \<or> next_state = MCL_LINK_STATE_CLOSED)
        else Some (MCL_LINK_ERR_INVALID_STATE, link))
     else if link_state l = MCL_LINK_STATE_HANDOFF then
       (if next_state = MCL_LINK_STATE_ESTABLISHED \<or> next_state = MCL_LINK_STATE_IDLE
           \<or> next_state = MCL_LINK_STATE_CLOSED
        then transition_to l next_state
               (next_state = MCL_LINK_STATE_IDLE \<or> next_state = MCL_LINK_STATE_CLOSED)
        else Some (MCL_LINK_ERR_INVALID_STATE, link))
     else if link_state l = MCL_LINK_STATE_FALLBACK then
       (if next_state = MCL_LINK_STATE_ESTABLISHED \<or> next_state = MCL_LINK_STATE_DISCOVERED
           \<or> next_state = MCL_LINK_STATE_IDLE \<or> next_state = MCL_LINK_STATE_CLOSED
        then transition_to l next_state
               (next_state = MCL_LINK_STATE_DISCOVERED \<or> next_state = MCL_LINK_STATE_IDLE
                \<or> next_state = MCL_LINK_STATE_CLOSED)
        else Some (MCL_LINK_ERR_INVALID_STATE, link))
     else if link_state l = MCL_LINK_STATE_CLOSED then
       (if next_state = MCL_LINK_STATE_IDLE then transition_to l next_state True
        else Some (MCL_LINK_ERR_INVALID_STATE, link))
     else Some (MCL_LINK_ERR_INVALID_STATE, link))"

section \<open>The abstract lifecycle\<close>

datatype lifecycle =
  Idle | Discovered | Capabilities | Negotiating | Established | Adapting | Handoff | Fallback | Closed

inductive lifecycle_edge :: "lifecycle \<Rightarrow> lifecycle \<Rightarrow> bool" where
  discover: "lifecycle_edge Idle Discovered"
| exchange: "lifecycle_edge Discovered Capabilities"
| negotiate: "lifecycle_edge Capabilities Negotiating"
| establish: "lifecycle_edge Negotiating Established"
| leave: "s \<in> {Established, Adapting} \<Longrightarrow> t \<in> {Adapting, Handoff, Fallback} \<Longrightarrow> s \<noteq> t
    \<Longrightarrow> lifecycle_edge s t"
| return: "s \<in> {Adapting, Handoff, Fallback} \<Longrightarrow> lifecycle_edge s Established"
| restart: "lifecycle_edge Fallback Discovered"
| give_up: "s \<noteq> Idle \<Longrightarrow> lifecycle_edge s Idle"
| close: "s \<noteq> Closed \<Longrightarrow> lifecycle_edge s Closed"

inductive_cases lifecycle_edgeE: "lifecycle_edge s t"

fun successors :: "lifecycle \<Rightarrow> lifecycle list" where
  "successors Idle = [Discovered, Closed]"
| "successors Discovered = [Capabilities, Idle, Closed]"
| "successors Capabilities = [Negotiating, Idle, Closed]"
| "successors Negotiating = [Established, Idle, Closed]"
| "successors Established = [Adapting, Handoff, Fallback, Idle, Closed]"
| "successors Adapting = [Established, Handoff, Fallback, Idle, Closed]"
| "successors Handoff = [Established, Idle, Closed]"
| "successors Fallback = [Established, Discovered, Idle, Closed]"
| "successors Closed = [Idle]"

lemma lifecycle_edge_successors: "lifecycle_edge s t \<longleftrightarrow> t \<in> set (successors s)"
proof
  assume "lifecycle_edge s t"
  then show "t \<in> set (successors s)"
    by (cases rule: lifecycle_edge.cases) (cases s; auto)+
next
  assume "t \<in> set (successors s)"
  then show "lifecycle_edge s t"
    by (cases s) (auto intro: lifecycle_edge.intros)
qed

definition lifecycle_of :: "byte \<Rightarrow> lifecycle option" where
  "lifecycle_of b =
     (if b = 0 then Some Idle else if b = 1 then Some Discovered else if b = 2 then Some Capabilities
      else if b = 3 then Some Negotiating else if b = 4 then Some Established
      else if b = 5 then Some Adapting else if b = 6 then Some Handoff
      else if b = 7 then Some Fallback else if b = 8 then Some Closed else None)"

text \<open>A link holds no context in these states.\<close>

definition uncontexted :: "lifecycle \<Rightarrow> bool" where
  "uncontexted s \<longleftrightarrow> s \<in> {Idle, Discovered, Closed}"

datatype link_context = Link_Context
  (ctx_major: byte) (ctx_id: u32) (ctx_generation: u32) (ctx_digest: "byte list")

record link_spec =
  spec_state :: lifecycle
  spec_context :: "link_context option"
  spec_mask :: u16

definition valid_key :: "mcl_link_context_key \<Rightarrow> bool" where
  "valid_key k \<longleftrightarrow> key_wire_major k \<le> 15
     \<and> 1 \<le> unat (key_ruleset_digest_size k) \<and> unat (key_ruleset_digest_size k) \<le> 32"

text \<open>A C object of the struct type: the digest array has its declared size.\<close>

definition key_object :: "mcl_link_context_key \<Rightarrow> bool" where
  "key_object k \<longleftrightarrow> length (key_ruleset_digest k) = MCL_LINK_RULESET_DIGEST_MAX_SIZE"

definition context_of :: "mcl_link_context_key \<Rightarrow> link_context" where
  "context_of k = Link_Context (key_wire_major k) (key_context_id k) (key_generation k)
     (take (unat (key_ruleset_digest_size k)) (key_ruleset_digest k))"

definition zero_key :: mcl_link_context_key where
  "zero_key = \<lparr>key_wire_major = 0, key_context_id = 0, key_generation = 0,
     key_ruleset_digest = replicate 32 0, key_ruleset_digest_size = 0\<rparr>"

text \<open>What \<open>mcl_link_install_context\<close> stores: the key with the tail of its digest cleared.\<close>

definition stored_key :: "mcl_link_context_key \<Rightarrow> mcl_link_context_key" where
  "stored_key k = k\<lparr>key_ruleset_digest :=
     take (unat (key_ruleset_digest_size k)) (key_ruleset_digest k)
       @ replicate (32 - unat (key_ruleset_digest_size k)) 0\<rparr>"

definition mask_has :: "u16 \<Rightarrow> byte \<Rightarrow> bool" where
  "mask_has m major \<longleftrightarrow> bit m (unat major)"

section \<open>Memory safety and functional behaviour of the helpers\<close>

lemma mask_test_eq:
  assumes "major \<le> (15 :: byte)"
  shows "(m AND ucast (push_bit (unat major) (1 :: u32)) = (0 :: u16)) \<longleftrightarrow> \<not> mask_has m major"
proof -
  have le: "unat major \<le> 15" using assms by (simp add: word_le_nat_alt)
  have "bit (m AND ucast (push_bit (unat major) (1 :: u32)) :: u16) n
      \<longleftrightarrow> n = unat major \<and> bit m n" for n
    using le bit_imp_le_length [of m n] by (auto simp: bit_simps bit_1_iff)
  then have "(\<forall>n. \<not> bit (m AND ucast (push_bit (unat major) (1 :: u32)) :: u16) n)
      \<longleftrightarrow> \<not> bit m (unat major)"
    by metis
  then show ?thesis
    unfolding mask_has_def
    by (auto simp del: push_bit_of_1 intro: bit_word_eqI)
qed

lemma mask_test_exp:
  "major \<le> (15 :: byte) \<Longrightarrow> (m AND ucast (2 ^ unat major :: u32) = (0 :: u16)) \<longleftrightarrow> \<not> mask_has m major"
  using mask_test_eq [of major m] by simp

lemma zero_context_eq:
  "key_object k \<Longrightarrow> mcl_link_zero_context (Some k) = Some (Some zero_key)"
  by (cases k) (simp add: mcl_link_zero_context_def mcl_link_zero_bytes_def key_object_def
      zero_loop_all zero_key_def)

lemma zero_active_context_eq:
  "key_object (link_active_context l)
    \<Longrightarrow> zero_active_context l = Some (l\<lparr>link_active_context := zero_key\<rparr>)"
  by (simp add: zero_active_context_def zero_context_eq)

lemma clear_context_eq:
  "key_object (link_active_context l) \<Longrightarrow> mcl_link_clear_context (Some l)
    = Some (Some (l\<lparr>link_context_valid := 0, link_active_context := zero_key\<rparr>))"
  by (simp add: mcl_link_clear_context_def zero_active_context_eq)

lemma transition_to_eq:
  "key_object (link_active_context l) \<Longrightarrow> transition_to l s clear = Some (MCL_LINK_OK, Some
     (if clear then l\<lparr>link_state := s, link_context_valid := 0, link_active_context := zero_key\<rparr>
      else l\<lparr>link_state := s\<rparr>))"
  by (simp add: transition_to_def clear_context_eq)

lemma digest_equal_loop_eq:
  "i + n \<le> length a \<Longrightarrow> i + n \<le> length b \<Longrightarrow> digest_equal_loop a b i n
    = Some (if take n (drop i a) = take n (drop i b) then 1 else 0)"
proof (induction n arbitrary: i)
  case 0
  then show ?case by simp
next
  case (Suc n)
  then have "take (Suc n) (drop i a) = a ! i # take n (drop (Suc i) a)"
    and "take (Suc n) (drop i b) = b ! i # take n (drop (Suc i) b)"
    by (simp_all add: take_Suc_conv_app_nth Cons_nth_drop_Suc [symmetric])
  with Suc show ?case by (simp add: mem_simps)
qed

lemma byte_gt_32: "x > (32 :: byte) \<longleftrightarrow> unat x > 32"
  by (simp add: word_less_nat_alt)

lemma byte_pos: "x \<noteq> (0 :: byte) \<longleftrightarrow> 1 \<le> unat x"
  by (simp add: Suc_le_eq unat_gt_0)

lemma context_of_eq_iff:
  assumes "key_object a" "valid_key a" "key_object b" "valid_key b"
  shows "context_of a = context_of b \<longleftrightarrow>
     key_wire_major a = key_wire_major b \<and> key_context_id a = key_context_id b
     \<and> key_generation a = key_generation b
     \<and> key_ruleset_digest_size a = key_ruleset_digest_size b
     \<and> take (unat (key_ruleset_digest_size a)) (key_ruleset_digest a)
       = take (unat (key_ruleset_digest_size a)) (key_ruleset_digest b)"
proof -
  have "key_ruleset_digest_size a = key_ruleset_digest_size b"
    if "take (unat (key_ruleset_digest_size a)) (key_ruleset_digest a)
      = take (unat (key_ruleset_digest_size b)) (key_ruleset_digest b)"
    using arg_cong [OF that, of length] assms by (simp add: key_object_def valid_key_def word_unat_eq_iff)
  then show ?thesis by (auto simp: context_of_def)
qed

section \<open>The invariant and the calls\<close>

definition link_inv :: "mcl_link \<Rightarrow> bool" where
  "link_inv l \<longleftrightarrow> key_object (link_active_context l)
     \<and> lifecycle_of (link_state l) \<noteq> None
     \<and> (if link_context_valid l = 0 then link_active_context l = zero_key
        else link_context_valid l = 1
          \<and> \<not> uncontexted (the (lifecycle_of (link_state l)))
          \<and> valid_key (link_active_context l)
          \<and> mask_has (link_supported_wire_majors_mask l) (key_wire_major (link_active_context l))
          \<and> stored_key (link_active_context l) = link_active_context l)"

definition link_abs :: "mcl_link \<Rightarrow> link_spec" where
  "link_abs l = \<lparr>spec_state = the (lifecycle_of (link_state l)),
     spec_context = (if link_context_valid l = 0 then None
                     else Some (context_of (link_active_context l))),
     spec_mask = link_supported_wire_majors_mask l\<rparr>"

datatype link_call =
  Link_Reset | Link_Install mcl_link_context_key | Link_Transition byte

fun link_exec :: "(link_call, mcl_link) call_exec" where
  "link_exec Link_Reset l = on_object (mcl_link_reset (Some l))"
| "link_exec (Link_Install k) l = on_object (mcl_link_install_context (Some l) (Some k))"
| "link_exec (Link_Transition b) l = on_object (mcl_link_transition (Some l) b)"

fun link_legal :: "link_call \<Rightarrow> bool" where
  "link_legal (Link_Install k) = key_object k"
| "link_legal _ = True"

text \<open>The specification of the same three calls.\<close>

definition spec_transition :: "link_spec \<Rightarrow> byte \<Rightarrow> mcl_link_status \<times> link_spec" where
  "spec_transition a b = (case lifecycle_of b of
     None \<Rightarrow> (MCL_LINK_ERR_INVALID_STATE, a)
   | Some s \<Rightarrow> if lifecycle_edge (spec_state a) s
       then (MCL_LINK_OK, a\<lparr>spec_state := s,
              spec_context := (if uncontexted s then None else spec_context a)\<rparr>)
       else (MCL_LINK_ERR_INVALID_STATE, a))"

definition spec_install :: "link_spec \<Rightarrow> mcl_link_context_key \<Rightarrow> mcl_link_status \<times> link_spec" where
  "spec_install a k =
     (if uncontexted (spec_state a) then (MCL_LINK_ERR_INVALID_STATE, a)
      else if \<not> valid_key k then (MCL_LINK_ERR_RANGE, a)
      else if \<not> mask_has (spec_mask a) (key_wire_major k)
      then (MCL_LINK_ERR_INCOMPATIBLE_VERSION, a)
      else (MCL_LINK_OK, a\<lparr>spec_context := Some (context_of k)\<rparr>))"

definition spec_reset :: "link_spec \<Rightarrow> mcl_link_status \<times> link_spec" where
  "spec_reset a = (MCL_LINK_OK, a\<lparr>spec_state := Idle, spec_context := None\<rparr>)"

fun link_spec_exec :: "link_call \<Rightarrow> link_spec \<Rightarrow> mcl_link_status \<times> link_spec" where
  "link_spec_exec Link_Reset a = spec_reset a"
| "link_spec_exec (Link_Install k) a = spec_install a k"
| "link_spec_exec (Link_Transition b) a = spec_transition a b"

lemma lifecycle_of_cases:
  assumes "lifecycle_of b = Some s"
  shows "b = 0 \<and> s = Idle \<or> b = 1 \<and> s = Discovered \<or> b = 2 \<and> s = Capabilities
    \<or> b = 3 \<and> s = Negotiating \<or> b = 4 \<and> s = Established \<or> b = 5 \<and> s = Adapting
    \<or> b = 6 \<and> s = Handoff \<or> b = 7 \<and> s = Fallback \<or> b = 8 \<and> s = Closed"
  using assms by (auto simp: lifecycle_of_def split: if_splits)

lemma lifecycle_of_simps [simp]:
  "lifecycle_of 0 = Some Idle" "lifecycle_of 1 = Some Discovered"
  "lifecycle_of 2 = Some Capabilities" "lifecycle_of 3 = Some Negotiating"
  "lifecycle_of 4 = Some Established" "lifecycle_of 5 = Some Adapting"
  "lifecycle_of 6 = Some Handoff" "lifecycle_of 7 = Some Fallback"
  "lifecycle_of 8 = Some Closed"
  by (simp_all add: lifecycle_of_def)

lemma uncontexted_simps [simp]:
  "uncontexted Idle" "uncontexted Discovered" "uncontexted Closed"
  "\<not> uncontexted Capabilities" "\<not> uncontexted Negotiating" "\<not> uncontexted Established"
  "\<not> uncontexted Adapting" "\<not> uncontexted Handoff" "\<not> uncontexted Fallback"
  by (simp_all add: uncontexted_def)

lemma lifecycle_of_inj: "lifecycle_of b = Some s \<Longrightarrow> lifecycle_of b' = Some s \<Longrightarrow> b = b'"
  by (auto dest!: lifecycle_of_cases)

text \<open>The switch, state by state, is the edge relation; what it clears are the uncontexted targets
  (a link that is Idle holds no context, so the code need not clear one on the way to Discovered).\<close>

lemma transition_refused:
  assumes "lifecycle_of (link_state l) = Some s"
    and "case lifecycle_of b of None \<Rightarrow> True | Some t \<Rightarrow> \<not> lifecycle_edge s t"
  shows "mcl_link_transition (Some l) b = Some (MCL_LINK_ERR_INVALID_STATE, Some l)"
  using assms lifecycle_of_cases [OF assms(1)]
  by (auto simp: mcl_link_transition_def lifecycle_edge_successors)

lemma transition_accepted:
  assumes "lifecycle_of (link_state l) = Some s" "lifecycle_of b = Some t" "lifecycle_edge s t"
    and "key_object (link_active_context l)"
  shows "mcl_link_transition (Some l) b = Some (MCL_LINK_OK, Some
    (if uncontexted t \<and> \<not> (s = Idle \<and> t = Discovered)
     then l\<lparr>link_state := b, link_context_valid := 0, link_active_context := zero_key\<rparr>
     else l\<lparr>link_state := b\<rparr>))"
  using assms(3,4) lifecycle_of_cases [OF assms(1)] lifecycle_of_cases [OF assms(2)]
  by (elim disjE; simp add: mcl_link_transition_def lifecycle_edge_successors transition_to_eq)

lemma install_eq:
  assumes "key_object (link_active_context l)" "key_object k" "lifecycle_of (link_state l) = Some s"
  shows "mcl_link_install_context (Some l) (Some k) = Some
    (if uncontexted s then (MCL_LINK_ERR_INVALID_STATE, Some l)
     else if \<not> valid_key k then (MCL_LINK_ERR_RANGE, Some l)
     else if \<not> mask_has (link_supported_wire_majors_mask l) (key_wire_major k)
     then (MCL_LINK_ERR_INCOMPATIBLE_VERSION, Some l)
     else (MCL_LINK_OK, Some (l\<lparr>link_active_context := stored_key k, link_context_valid := 1\<rparr>)))"
proof -
  let ?n = "unat (key_ruleset_digest_size k)"
  have unc: "(link_state l = 0 \<or> link_state l = 1 \<or> link_state l = 8) \<longleftrightarrow> uncontexted s"
    using lifecycle_of_cases [OF assms(3)] by auto
  have valid: "valid_key k \<longleftrightarrow> \<not> key_wire_major k > 15
      \<and> \<not> (key_ruleset_digest_size k = 0 \<or> key_ruleset_digest_size k > 32)"
    using byte_pos [of "key_ruleset_digest_size k"] by (auto simp: valid_key_def byte_gt_32 not_less)
  have copy: "mcl_link_copy_bytes (key_ruleset_digest (link_active_context l)) 0 (key_ruleset_digest k) ?n
      = Some (over (take ?n (key_ruleset_digest k)) (key_ruleset_digest (link_active_context l)))"
    if "?n \<le> 32"
    using copy_loop_over [of 0 0 "[]" ?n "key_ruleset_digest (link_active_context l)" "key_ruleset_digest k"]
      assms(1,2) that by (simp add: mcl_link_copy_bytes_def key_object_def)
  have zero: "mcl_link_zero_bytes (over (take ?n (key_ruleset_digest k))
        (key_ruleset_digest (link_active_context l))) ?n (32 - ?n)
      = Some (take ?n (key_ruleset_digest k) @ replicate (32 - ?n) 0)"
    if "?n \<le> 32"
    using zero_loop_over [of ?n 0 "take ?n (key_ruleset_digest k)" "32 - ?n"
        "key_ruleset_digest (link_active_context l)"]
      assms(1,2) that by (simp add: mcl_link_zero_bytes_def key_object_def over_def)
  have stored: "(link_active_context l)\<lparr>key_wire_major := key_wire_major k,
      key_context_id := key_context_id k, key_generation := key_generation k,
      key_ruleset_digest_size := key_ruleset_digest_size k,
      key_ruleset_digest := take ?n (key_ruleset_digest k) @ replicate (32 - ?n) 0\<rparr> = stored_key k"
    by (simp add: stored_key_def)
  show ?thesis
  proof (cases "valid_key k \<and> \<not> uncontexted s")
    case True
    then have "?n \<le> 32" "key_wire_major k \<le> 15" by (simp_all add: valid_key_def)
    with True show ?thesis
      using unc valid copy zero stored
      by (simp add: mcl_link_install_context_def mask_test_exp)
  next
    case False
    then show ?thesis
      using unc valid by (auto simp: mcl_link_install_context_def)
  qed
qed

lemma install_refines:
  assumes inv: "link_inv l" and k: "key_object k"
  shows "\<exists>st l'. link_exec (Link_Install k) l = Some (st, l') \<and> link_spec_exec (Link_Install k) (link_abs l) = (st, link_abs l')
    \<and> link_inv l' \<and> (st \<noteq> MCL_LINK_OK \<longrightarrow> l' = l)"
proof -
  from inv obtain s where s: "lifecycle_of (link_state l) = Some s" and
    obj: "key_object (link_active_context l)" by (auto simp: link_inv_def)
  have stored: "key_object (stored_key k)" "valid_key (stored_key k) = valid_key k"
    "stored_key (stored_key k) = stored_key k" "context_of (stored_key k) = context_of k"
    "key_wire_major (stored_key k) = key_wire_major k" if "valid_key k"
    using k that by (auto simp: stored_key_def key_object_def valid_key_def context_of_def)
  show ?thesis
  proof (cases "uncontexted s \<or> \<not> valid_key k
      \<or> \<not> mask_has (link_supported_wire_majors_mask l) (key_wire_major k)")
    case True
    with s show ?thesis
      by (auto simp: install_eq [OF obj k s] spec_install_def link_abs_def inv)
  next
    case False
    with s stored show ?thesis
      by (simp add: install_eq [OF obj k s] spec_install_def link_abs_def link_inv_def)
  qed
qed

lemma transition_refines:
  assumes inv: "link_inv l"
  shows "\<exists>st l'. link_exec (Link_Transition b) l = Some (st, l')
    \<and> link_spec_exec (Link_Transition b) (link_abs l) = (st, link_abs l')
    \<and> link_inv l' \<and> (st \<noteq> MCL_LINK_OK \<longrightarrow> l' = l)"
proof -
  from inv obtain s where s: "lifecycle_of (link_state l) = Some s" and
    obj: "key_object (link_active_context l)" by (auto simp: link_inv_def)
  show ?thesis
  proof (cases "case lifecycle_of b of None \<Rightarrow> True | Some t \<Rightarrow> \<not> lifecycle_edge s t")
    case True
    with s show ?thesis
      by (auto simp: transition_refused [OF s True] spec_transition_def link_abs_def inv
          split: option.splits)
  next
    case False
    then obtain t where t: "lifecycle_of b = Some t" and e: "lifecycle_edge s t"
      by (auto split: option.splits)
    have "key_object zero_key" by (simp add: key_object_def zero_key_def)
    with inv s t e show ?thesis
      by (auto simp: transition_accepted [OF s t e obj] spec_transition_def link_abs_def link_inv_def
          split: if_splits)
  qed
qed

lemma link_refines:
  assumes inv: "link_inv l" and legal: "link_legal c"
  shows "\<exists>st l'. link_exec c l = Some (st, l') \<and> link_spec_exec c (link_abs l) = (st, link_abs l')
    \<and> link_inv l' \<and> (st \<noteq> MCL_LINK_OK \<longrightarrow> l' = l)"
proof (cases c)
  case Link_Reset
  from inv have "key_object (link_active_context l)" by (simp add: link_inv_def)
  with Link_Reset show ?thesis
    by (simp add: mcl_link_reset_def clear_context_eq spec_reset_def link_abs_def link_inv_def
        key_object_def zero_key_def)
next
  case (Link_Install k)
  with legal install_refines [OF inv, of k] show ?thesis by simp
next
  case (Link_Transition b)
  with transition_refines [OF inv] show ?thesis by blast
qed

interpretation link: call_machine link_exec link_inv link_legal
proof
  show "\<exists>st s'. link_exec c s = Some (st, s')" if "link_inv s" "link_legal c" for s c
    using link_refines [OF that] by blast
  show "link_inv s'" if "link_inv s" "link_legal c" "link_exec c s = Some (st, s')" for s c st s'
    using link_refines [OF that(1,2)] that(3) by auto
  show "s' = s" if "link_inv s" "link_legal c" "link_exec c s = Some (st, s')" "st \<noteq> MCL_LINK_OK"
    for s c st s'
    using link_refines [OF that(1,2)] that(3,4) by auto
qed

lemma link_init_eq:
  "key_object (link_active_context l) \<Longrightarrow> mcl_link_init (Some l) m = Some (MCL_LINK_OK, Some
     \<lparr>link_state = 0, link_context_valid = 0, link_active_context = zero_key,
      link_supported_wire_majors_mask = m\<rparr>)"
  by (cases l) (simp add: mcl_link_init_def zero_active_context_eq)

definition link_start :: "u16 \<Rightarrow> mcl_link" where
  "link_start m = \<lparr>link_state = 0, link_context_valid = 0, link_active_context = zero_key,
      link_supported_wire_majors_mask = m\<rparr>"

lemma link_inv_start: "link_inv (link_start m)"
  by (simp add: link_inv_def link_start_def key_object_def zero_key_def)

lemma link_abs_start:
  "link_abs (link_start m) = \<lparr>spec_state = Idle, spec_context = None, spec_mask = m\<rparr>"
  by (simp add: link_abs_def link_start_def)

section \<open>Context keys\<close>

definition sized_key :: "mcl_link_context_key \<Rightarrow> bool" where
  "sized_key k \<longleftrightarrow> 1 \<le> unat (key_ruleset_digest_size k) \<and> unat (key_ruleset_digest_size k) \<le> 32"

lemma sized_key_iff:
  "(key_ruleset_digest_size a = 0 \<or> key_ruleset_digest_size a > 32) \<longleftrightarrow> \<not> sized_key a"
  using byte_pos [of "key_ruleset_digest_size a"] by (auto simp: sized_key_def byte_gt_32)

lemma context_digest_size:
  assumes "key_object a" "key_object b" "sized_key a" "sized_key b" "context_of a = context_of b"
  shows "key_ruleset_digest_size a = key_ruleset_digest_size b"
proof -
  from assms(5) have "length (take (unat (key_ruleset_digest_size a)) (key_ruleset_digest a))
      = length (take (unat (key_ruleset_digest_size b)) (key_ruleset_digest b))"
    by (simp add: context_of_def)
  with assms(1-4) show ?thesis
    by (simp add: key_object_def sized_key_def word_unat_eq_iff)
qed

lemma key_equals_sized:
  assumes "key_object a" "key_object b" "sized_key a" "sized_key b"
    and size: "key_ruleset_digest_size a = key_ruleset_digest_size b"
  shows "mcl_link_context_key_equals (Some a) (Some b) = Some (if context_of a = context_of b then 1 else 0)"
proof -
  let ?n = "unat (key_ruleset_digest_size a)"
  have loop: "digest_equal_loop (key_ruleset_digest a) (key_ruleset_digest b) 0 ?n
      = Some (if take ?n (key_ruleset_digest a) = take ?n (key_ruleset_digest b) then 1 else 0)"
    using digest_equal_loop_eq [of 0 ?n "key_ruleset_digest a" "key_ruleset_digest b"] assms
    by (simp add: key_object_def sized_key_def)
  have "\<not> (key_ruleset_digest_size a = 0 \<or> key_ruleset_digest_size a > 32
      \<or> key_ruleset_digest_size b = 0 \<or> key_ruleset_digest_size b > 32)"
    using sized_key_iff [of a] sized_key_iff [of b] assms(3,4) by blast
  then have "mcl_link_context_key_equals (Some a) (Some b) =
    (if key_wire_major a \<noteq> key_wire_major b \<or> key_context_id a \<noteq> key_context_id b
      \<or> key_generation a \<noteq> key_generation b then Some 0
     else digest_equal_loop (key_ruleset_digest a) (key_ruleset_digest b) 0 ?n)"
    using size by (simp add: mcl_link_context_key_equals_def)
  with size show ?thesis unfolding loop by (simp add: context_of_def)
qed

lemma key_equals_eq:
  assumes "key_object a" "key_object b"
  shows "mcl_link_context_key_equals (Some a) (Some b)
    = Some (if sized_key a \<and> sized_key b \<and> context_of a = context_of b then 1 else 0)"
proof (cases "sized_key a \<and> sized_key b")
  case False
  with sized_key_iff [of a] sized_key_iff [of b] show ?thesis by (auto simp: mcl_link_context_key_equals_def)
next
  case True
  then show ?thesis
    using key_equals_sized [OF assms] context_digest_size [OF assms]
    by (cases "key_ruleset_digest_size a = key_ruleset_digest_size b") (auto simp: mcl_link_context_key_equals_def)
qed

lemma authorize_eq:
  assumes "link_inv l" "key_object k"
  shows "mcl_link_authorize_context (Some l) (Some k) = Some
    (case spec_context (link_abs l) of
       None \<Rightarrow> MCL_LINK_ERR_NO_ACTIVE_CONTEXT
     | Some ctx \<Rightarrow> if sized_key k \<and> context_of k = ctx then MCL_LINK_OK
                  else MCL_LINK_ERR_CONTEXT_MISMATCH)"
proof -
  from assms(1) have obj: "key_object (link_active_context l)" by (simp add: link_inv_def)
  have "sized_key (link_active_context l)" if "link_context_valid l \<noteq> 0"
    using assms(1) that by (auto simp: link_inv_def valid_key_def sized_key_def)
  then show ?thesis
    by (auto simp: mcl_link_authorize_context_def key_equals_eq [OF obj assms(2)] link_abs_def)
qed

section \<open>Properties\<close>

text \<open>C24: One call on a well-formed link returns the status and reaches the state that the abstract
  lifecycle specification prescribes; a refused call changes no field at all, and none of the three
  calls that change the state reads or writes outside the digest arrays.\<close>

theorem link_call_refines_spec:
  assumes "link_inv l" and "link_legal c"
  shows "\<exists>st l'. link_exec c l = Some (st, l')
    \<and> link_spec_exec c (link_abs l) = (st, link_abs l')
    \<and> link_inv l'
    \<and> (st \<noteq> MCL_LINK_OK \<longrightarrow> l' = l)"
  using assms by (rule link_refines)

theorem link_call_refines_spec_witness:
  "\<exists>st l'. link_exec (Link_Transition 1) (link_start 3) = Some (st, l')
    \<and> link_spec_exec (Link_Transition 1) (link_abs (link_start 3)) = (st, link_abs l')
    \<and> link_inv l' \<and> (st \<noteq> MCL_LINK_OK \<longrightarrow> l' = link_start 3)"
  by (rule link_call_refines_spec) (simp_all add: link_inv_start)

text \<open>For every pair of bytes, \<open>mcl_link_transition\<close> succeeds exactly along the edges of the
  lifecycle graph, and then the link is in the requested state; on any other pair, an out-of-range
  state byte included, it reports an invalid state and leaves the link alone.\<close>

lemma transition_follows_edges:
  assumes "key_object (link_active_context l)"
  shows "\<exists>st l'. mcl_link_transition (Some l) b = Some (st, Some l')
    \<and> (st = MCL_LINK_OK \<longleftrightarrow> (\<exists>s t. lifecycle_of (link_state l) = Some s
                              \<and> lifecycle_of b = Some t \<and> lifecycle_edge s t))
    \<and> (st = MCL_LINK_OK \<longrightarrow> link_state l' = b)
    \<and> (st \<noteq> MCL_LINK_OK \<longrightarrow> st = MCL_LINK_ERR_INVALID_STATE \<and> l' = l)"
proof (cases "lifecycle_of (link_state l)")
  case None
  then show ?thesis by (auto simp: mcl_link_transition_def lifecycle_of_def split: if_splits)
next
  case (Some s)
  show ?thesis
  proof (cases "case lifecycle_of b of None \<Rightarrow> True | Some t \<Rightarrow> \<not> lifecycle_edge s t")
    case True
    with Some show ?thesis by (auto simp: transition_refused split: option.splits)
  next
    case False
    then obtain t where "lifecycle_of b = Some t" "lifecycle_edge s t"
      by (auto split: option.splits)
    with Some assms show ?thesis by (auto simp: transition_accepted)
  qed
qed

text \<open>The history of a link: which lifecycle states its accepted transitions have visited.\<close>

definition visited :: "lifecycle \<Rightarrow> link_call list" where
  "visited s = (case s of
     Capabilities \<Rightarrow> [Link_Transition 1, Link_Transition 2]
   | Negotiating \<Rightarrow> [Link_Transition 1, Link_Transition 2, Link_Transition 3]
   | Idle \<Rightarrow> [] | Closed \<Rightarrow> [] | Discovered \<Rightarrow> [Link_Transition 1]
   | _ \<Rightarrow> [Link_Transition 1, Link_Transition 2, Link_Transition 3, Link_Transition 4])"

definition link_history :: "mcl_link \<Rightarrow> link_call list \<Rightarrow> bool" where
  "link_history l h \<longleftrightarrow> subseq (visited (the (lifecycle_of (link_state l)))) h"

lemma visited_grow:
  assumes "lifecycle_edge s t" "lifecycle_of b = Some t" "subseq (visited s) h"
  shows "subseq (visited t) (h @ [Link_Transition b])"
proof -
  have "visited t = visited s @ [Link_Transition b] \<or> (\<exists>zs. visited s = visited t @ zs)"
    using assms(1,2) lifecycle_of_cases [OF assms(2)]
    by (cases s) (auto simp: lifecycle_edge_successors visited_def)
  moreover have "subseq (visited t) h" if "visited s = visited t @ zs" for zs
    using assms(3) subseq_rev_drop_many [OF subseq_order.refl [of "visited t"], of zs]
    unfolding that by (rule subseq_order.trans [rotated])
  ultimately show ?thesis
    using assms(3) subseq_take_last subseq_grow by fastforce
qed

lemma spec_reset_state: "spec_reset a = (st, a') \<Longrightarrow> spec_state a' = Idle"
  by (auto simp: spec_reset_def)

lemma spec_install_state: "spec_install a k = (st, a') \<Longrightarrow> spec_state a' = spec_state a"
  by (auto simp: spec_install_def split: if_splits)

lemma spec_transition_OK:
  "spec_transition a b = (MCL_LINK_OK, a')
    \<Longrightarrow> lifecycle_of b = Some (spec_state a') \<and> lifecycle_edge (spec_state a) (spec_state a')"
  by (auto simp: spec_transition_def split: option.splits if_splits)

lemma link_spec_exec_mask: "link_spec_exec c a = (st, a') \<Longrightarrow> spec_mask a' = spec_mask a"
  by (cases c) (auto simp: spec_reset_def spec_install_def spec_transition_def
      split: option.splits if_splits)

lemma link_history_step:
  assumes "link_inv l" "link_history l h" "link_legal c" "link_exec c l = Some (MCL_LINK_OK, l')"
  shows "link_history l' (h @ [c])"
proof -
  from link_refines [OF assms(1,3)] assms(4)
  have spec: "link_spec_exec c (link_abs l) = (MCL_LINK_OK, link_abs l')" by auto
  have s: "the (lifecycle_of (link_state l)) = spec_state (link_abs l)" for l
    by (simp add: link_abs_def)
  show ?thesis
  proof (cases c)
    case Link_Reset
    with spec have "spec_state (link_abs l') = Idle" by (simp add: spec_reset_state)
    then show ?thesis by (simp add: link_history_def s visited_def)
  next
    case (Link_Install k)
    with spec have "spec_state (link_abs l') = spec_state (link_abs l)"
      by (simp add: spec_install_state)
    with assms(2) show ?thesis by (simp add: link_history_def s subseq_grow)
  next
    case (Link_Transition b)
    with spec have "lifecycle_of b = Some (spec_state (link_abs l'))"
      "lifecycle_edge (spec_state (link_abs l)) (spec_state (link_abs l'))"
      using spec_transition_OK by auto
    with assms(2) visited_grow Link_Transition show ?thesis by (simp add: link_history_def s)
  qed
qed

text \<open>C23: There is no shortcut to an established link: whatever calls a client makes on a freshly
  initialised link, if it ends Established (or in a state only reachable from there), then the
  transitions to Discovered, Capabilities, Negotiating and Established were accepted in this order.\<close>

theorem established_needs_whole_handshake:
  assumes "list_all link_legal cs" and "run_calls link_exec cs (link_start m) = Some l"
    and "lifecycle_of (link_state l) \<in> Some ` {Established, Adapting, Handoff, Fallback}"
  shows "subseq [Link_Transition MCL_LINK_STATE_DISCOVERED, Link_Transition MCL_LINK_STATE_CAPABILITIES,
      Link_Transition MCL_LINK_STATE_NEGOTIATING, Link_Transition MCL_LINK_STATE_ESTABLISHED]
    (accepted_calls link_exec cs (link_start m))"
proof -
  have start: "link_history (link_start m) []"
    by (simp add: link_history_def link_start_def visited_def)
  have "link_history l ([] @ accepted_calls link_exec cs (link_start m))"
    by (rule link.history_induct [where J = link_history, OF _ link_inv_start start assms(1,2)])
      (rule link_history_step)
  with assms(3) show ?thesis by (auto simp: link_history_def visited_def)
qed

theorem established_needs_whole_handshake_witness:
  "subseq [Link_Transition 1, Link_Transition 2, Link_Transition 3, Link_Transition 4]
    (accepted_calls link_exec
      [Link_Transition 4, Link_Transition 1, Link_Transition 2, Link_Transition 3, Link_Transition 4]
      (link_start 3))"
proof -
  let ?cs = "[Link_Transition 4, Link_Transition 1, Link_Transition 2, Link_Transition 3, Link_Transition 4]"
  have "run_calls link_exec ?cs (link_start 3) = Some ((link_start 3)\<lparr>link_state := 4\<rparr>)"
    by (simp add: link_start_def mcl_link_transition_def transition_to_def)
  then show ?thesis
    by (rule established_needs_whole_handshake [rotated]) (simp_all add: link_start_def)
qed

text \<open>C25: After any run of calls from initialisation, a key can only be authorised while the link is
  past discovery and not closed, and only if its Wire major is one the link was initialised to
  support: leaving those states, or resetting, always drops the context.\<close>

theorem authorised_only_in_session:
  assumes "list_all link_legal cs" and "run_calls link_exec cs (link_start m) = Some l"
    and "key_object k" and "mcl_link_authorize_context (Some l) (Some k) = Some MCL_LINK_OK"
  shows "2 \<le> unat (link_state l) \<and> unat (link_state l) \<le> 7 \<and> mask_has m (key_wire_major k)"
proof -
  have inv: "link_inv l" by (rule link.run_inv [OF link_inv_start assms(1,2)])
  then obtain s where s: "lifecycle_of (link_state l) = Some s" by (auto simp: link_inv_def)
  from assms(4) have valid: "link_context_valid l \<noteq> 0"
    and key: "context_of k = context_of (link_active_context l)"
    by (auto simp: authorize_eq [OF inv assms(3)] link_abs_def split: if_splits)
  have mask: "link_supported_wire_majors_mask l = m"
  proof (rule link.run_stable [where P = "\<lambda>l. link_supported_wire_majors_mask l = m",
        OF _ link_inv_start _ assms(1,2)])
    show "link_supported_wire_majors_mask l' = m"
      if "link_inv l0" "link_supported_wire_majors_mask l0 = m" "link_legal c"
        "link_exec c l0 = Some (MCL_LINK_OK, l')" for l0 c l'
    proof -
      from link_refines [OF that(1,3)] that(4)
      have "link_spec_exec c (link_abs l0) = (MCL_LINK_OK, link_abs l')" by auto
      then have "spec_mask (link_abs l') = spec_mask (link_abs l0)" by (rule link_spec_exec_mask)
      with that(2) show ?thesis by (simp add: link_abs_def)
    qed
  qed (simp add: link_start_def)
  from inv valid s have "\<not> uncontexted s"
    "mask_has (link_supported_wire_majors_mask l) (key_wire_major (link_active_context l))"
    by (auto simp: link_inv_def split: if_splits)
  with lifecycle_of_cases [OF s] mask key show ?thesis
    by (auto simp: context_of_def)
qed

definition sample_key :: mcl_link_context_key where
  "sample_key = zero_key\<lparr>key_ruleset_digest_size := 1\<rparr>"

lemma sample_key_facts [simp]:
  "key_object sample_key" "valid_key sample_key" "sized_key sample_key"
  "stored_key sample_key = sample_key" "key_wire_major sample_key = 0"
  by (simp_all add: sample_key_def zero_key_def key_object_def valid_key_def sized_key_def
      stored_key_def numeral_eq_Suc)

theorem authorised_only_in_session_witness:
  "let l = (link_start 1)\<lparr>link_state := 2, link_context_valid := 1, link_active_context := sample_key\<rparr>
   in 2 \<le> unat (link_state l) \<and> unat (link_state l) \<le> 7 \<and> mask_has 1 (key_wire_major sample_key)"
proof -
  let ?l = "(link_start 1)\<lparr>link_state := 2, link_context_valid := 1, link_active_context := sample_key\<rparr>"
  have obj: "key_object (link_active_context ((link_start 1)\<lparr>link_state := 2\<rparr>))"
    by (simp add: link_start_def key_object_def zero_key_def)
  have inst: "mcl_link_install_context (Some ((link_start 1)\<lparr>link_state := 2\<rparr>)) (Some sample_key)
      = Some (MCL_LINK_OK, Some ?l)"
    by (subst install_eq [OF obj sample_key_facts(1), where s = Capabilities])
      (auto simp: link_start_def mask_has_def)
  have "run_calls link_exec [Link_Transition 1, Link_Transition 2, Link_Install sample_key] (link_start 1)
      = Some ?l"
    using inst by (simp add: link_start_def mcl_link_transition_def transition_to_def)
  moreover have "link_inv ?l"
    by (simp add: link_inv_def link_start_def mask_has_def)
  then have "mcl_link_authorize_context (Some ?l) (Some sample_key) = Some MCL_LINK_OK"
    by (simp add: authorize_eq link_abs_def)
  ultimately show ?thesis
    using authorised_only_in_session [of "[Link_Transition 1, Link_Transition 2, Link_Install sample_key]" 1
        ?l sample_key] by simp
qed

text \<open>A negotiation that does not succeed can only be left to \<open>IDLE\<close> or \<open>CLOSED\<close>: discovery and fallback,
  and a new exchange of capabilities, are refused.\<close>

lemma negotiation_left_only_idle:
  assumes "link_state l = MCL_LINK_STATE_NEGOTIATING"
    and "b \<in> {MCL_LINK_STATE_DISCOVERED, MCL_LINK_STATE_FALLBACK, MCL_LINK_STATE_CAPABILITIES}"
  shows "mcl_link_transition (Some l) b = Some (MCL_LINK_ERR_INVALID_STATE, Some l)"
  using assms by (auto simp: mcl_link_transition_def)

end
