(* ===== verification/Mcl_Crc.thy ===== *)
theory Mcl_Crc
  imports Mcl_Prelude
begin

text \<open>
  The frame check: \<open>mcl_link_crc32\<close> of \<open>src/link.c\<close>, the bit-serial CRC-32/IEEE. The code's loops
  are \<open>crc_bits\<close> (the eight shifts of a byte) and \<open>crc_loop\<close> (the bytes). The lemmas show that a
  step is linear and invertible, from which the detection of every error burst of up to four bytes
  follows.
\<close>

definition crc_bit :: "u32 \<Rightarrow> u32" where
  "crc_bit crc = (let mask = 0 - (crc AND 1) in drop_bit 1 crc XOR (0xEDB88320 AND mask))"

primrec crc_bits :: "nat \<Rightarrow> u32 \<Rightarrow> u32" where
  "crc_bits 0 crc = crc"
| "crc_bits (Suc bits) crc = crc_bits bits (crc_bit crc)"

fun crc_loop :: "byte list \<Rightarrow> nat \<Rightarrow> nat \<Rightarrow> u32 \<Rightarrow> u32 option" where
  "crc_loop data i 0 crc = Some crc"
| "crc_loop data i (Suc n) crc = do {
     b \<leftarrow> rd data i;
     crc_loop data (Suc i) n (crc_bits 8 (crc XOR ucast b)) }"

definition mcl_link_crc32 :: "byte list option \<Rightarrow> nat \<Rightarrow> u32 option" where
  "mcl_link_crc32 data n = (case data of
     None \<Rightarrow> Some 0
   | Some d \<Rightarrow> do { crc \<leftarrow> crc_loop d 0 n 0xFFFFFFFF; Some (NOT crc) })"

text \<open>The same checksum as a fold over the bytes.\<close>

definition crc_byte :: "u32 \<Rightarrow> byte \<Rightarrow> u32" where
  "crc_byte crc b = crc_bits 8 (crc XOR ucast b)"

definition crc32_of :: "byte list \<Rightarrow> u32" where
  "crc32_of bs = NOT (foldl crc_byte 0xFFFFFFFF bs)"

lemma crc_loop_eq: "i + n \<le> length data \<Longrightarrow>
    crc_loop data i n crc = Some (foldl crc_byte crc (take n (drop i data)))"
proof (induction n arbitrary: i crc)
  case 0
  then show ?case by simp
next
  case (Suc n)
  then have "take (Suc n) (drop i data) = data ! i # take n (drop (Suc i) data)"
    by (simp add: take_Suc_conv_app_nth Cons_nth_drop_Suc [symmetric])
  with Suc show ?case by (simp add: mem_simps crc_byte_def del: crc_bits.simps)
qed

lemma crc32_eq: "n \<le> length d \<Longrightarrow> mcl_link_crc32 (Some d) n = Some (crc32_of (take n d))"
  by (simp add: mcl_link_crc32_def crc_loop_eq crc32_of_def)

section \<open>A step is linear and invertible\<close>

lemma xor_right_cancel [simp]: "a XOR c = b XOR c \<longleftrightarrow> a = (b :: 'a::len word)"
  by (metis xor.assoc xor.right_neutral xor_self_eq)

lemma xor_left_cancel [simp]: "c XOR a = c XOR b \<longleftrightarrow> a = (b :: 'a::len word)"
  by (simp add: xor.commute [of c])

lemma minus_lsb: "- (x AND 1) = (if bit x 0 then - 1 else (0 :: u32))"
  by (cases "bit x 0") (auto simp: and_one_eq mod_2_eq_odd bit_0)

lemma crc_bit_if: "crc_bit x = (if bit x 0 then drop_bit 1 x XOR 0xEDB88320 else drop_bit 1 x)"
  by (simp add: crc_bit_def minus_lsb)

lemma crc_bit_xor: "crc_bit (x XOR y) = crc_bit x XOR crc_bit y"
  by (cases "bit x 0"; cases "bit y 0")
    (simp_all add: crc_bit_if drop_bit_xor bit_xor_iff xor.left_commute xor.assoc xor.commute)

lemma crc_bit_top: "bit (crc_bit x) 31 \<longleftrightarrow> bit x 0"
  using bit_imp_le_length [of x 32] by (auto simp: crc_bit_if bit_simps)

lemma crc_bit_inj: "crc_bit x = crc_bit y \<Longrightarrow> x = y"
proof -
  assume eq: "crc_bit x = crc_bit y"
  then have low: "bit x 0 = bit y 0" using crc_bit_top by metis
  with eq have high: "drop_bit 1 x = drop_bit 1 y"
    by (auto simp: crc_bit_if split: if_splits)
  show "x = y"
  proof (rule bit_word_eqI)
    fix n assume "n < LENGTH(32)"
    show "bit x n = bit y n"
    proof (cases n)
      case 0
      with low show ?thesis by simp
    next
      case (Suc k)
      then show ?thesis
        using arg_cong [OF high, of "\<lambda>w. bit w k"] by (simp add: bit_simps)
    qed
  qed
qed

lemma crc_bits_xor: "crc_bits k (x XOR y) = crc_bits k x XOR crc_bits k y"
  by (induction k arbitrary: x y) (simp_all add: crc_bit_xor)

lemma crc_bits_inj: "crc_bits k x = crc_bits k y \<Longrightarrow> x = y"
  by (induction k arbitrary: x y) (auto dest: crc_bit_inj)

lemma crc_bits_add: "crc_bits j (crc_bits k x) = crc_bits (k + j) x"
  by (induction k arbitrary: x) simp_all

lemma crc_bits_push:
  "k + m \<le> 32 \<Longrightarrow> (\<And>n. m \<le> n \<Longrightarrow> \<not> bit x n) \<Longrightarrow> crc_bits k (push_bit k x) = x"
proof (induction k)
  case 0
  then show ?case by simp
next
  case (Suc k)
  have "crc_bit (push_bit (Suc k) x) = push_bit k x"
  proof -
    have "\<not> bit (push_bit (Suc k) x) 0" by (simp add: bit_push_bit_iff del: push_bit_Suc)
    moreover have "drop_bit 1 (push_bit (Suc k) x) = push_bit k x"
    proof (rule bit_word_eqI)
      fix n assume "n < LENGTH(32)"
      moreover have "\<not> bit x (n - k)" if "n = 31"
        by (rule Suc.prems(2)) (use Suc.prems(1) that in arith)
      ultimately show "bit (drop_bit 1 (push_bit (Suc k) x)) n = bit (push_bit k x) n"
        by (cases "n = 31") (auto simp: bit_simps Suc_diff_le not_less_eq_eq simp del: push_bit_Suc)
    qed
    ultimately show ?thesis by (simp add: crc_bit_if del: push_bit_Suc)
  qed
  with Suc show ?case by simp
qed

section \<open>Bursts\<close>

text \<open>Up to four bytes enter the register as one little-endian word.\<close>

primrec le_word :: "byte list \<Rightarrow> u32" where
  "le_word [] = 0"
| "le_word (b # bs) = ucast b XOR push_bit 8 (le_word bs)"

lemma bit_le_word: "8 * length bs \<le> n \<Longrightarrow> \<not> bit (le_word bs) n"
  by (induction bs arbitrary: n) (auto simp: bit_simps)

lemma foldl_crc_word:
  "length bs \<le> 4 \<Longrightarrow> foldl crc_byte s bs = crc_bits (8 * length bs) (s XOR le_word bs)"
proof (induction bs arbitrary: s)
  case Nil
  then show ?case by simp
next
  case (Cons b bs)
  have "crc_bits 8 (push_bit 8 (le_word bs)) = le_word bs"
    by (rule crc_bits_push [where m = "8 * length bs"]) (use Cons.prems in \<open>auto simp: bit_le_word\<close>)
  then have "crc_byte s b XOR le_word bs = crc_bits 8 (s XOR le_word (b # bs))"
    by (simp add: crc_byte_def crc_bits_xor xor.assoc del: crc_bits.simps)
  with Cons show ?case
    by (simp add: crc_bits_add del: crc_bits.simps le_word.simps)
qed

lemma le_word_inj: "length bs = length cs \<Longrightarrow> length bs \<le> 4 \<Longrightarrow> le_word bs = le_word cs \<Longrightarrow> bs = cs"
proof (induction bs cs rule: list_induct2)
  case Nil
  then show ?case by simp
next
  case (Cons b bs c cs)
  have low: "bit (le_word (x # xs)) n = bit x n" if "n < 8" for x xs n
    using that by (auto simp: bit_simps)
  have high: "drop_bit 8 (le_word (x # xs)) = le_word xs" if "length xs \<le> 3" for x xs
  proof (rule bit_word_eqI)
    fix n assume "n < LENGTH(32)"
    then show "bit (drop_bit 8 (le_word (x # xs))) n = bit (le_word xs) n"
      using that bit_le_word [of xs n] by (cases "8 * length xs \<le> n") (auto simp: bit_simps)
  qed
  have "b = c"
  proof (rule bit_word_eqI)
    fix n assume "n < LENGTH(8)"
    then have "n < 8" by simp
    from low [OF this, of b bs] low [OF this, of c cs] Cons.prems(2) show "bit b n = bit c n" by simp
  qed
  moreover have "le_word bs = le_word cs"
  proof -
    have "length bs \<le> 3" "length cs \<le> 3" using Cons.hyps Cons.prems by auto
    from high [OF this(1), of b] high [OF this(2), of c] Cons.prems(2) show ?thesis by metis
  qed
  ultimately show ?case using Cons by simp
qed

lemma foldl_crc_inj: "foldl crc_byte s bs = foldl crc_byte t bs \<Longrightarrow> s = t"
proof (induction bs arbitrary: s t)
  case Nil
  then show ?case by simp
next
  case (Cons b bs)
  then have "crc_byte s b = crc_byte t b" by auto
  then have "s XOR ucast b = t XOR ucast b" unfolding crc_byte_def by (rule crc_bits_inj)
  then show ?case by simp
qed

lemma crc32_burst:
  assumes "length w = length w'" "length w \<le> 4" "w \<noteq> w'"
  shows "crc32_of (pre @ w @ post) \<noteq> crc32_of (pre @ w' @ post)"
proof
  assume "crc32_of (pre @ w @ post) = crc32_of (pre @ w' @ post)"
  then have "foldl crc_byte (foldl crc_byte 0xFFFFFFFF pre) w
      = foldl crc_byte (foldl crc_byte 0xFFFFFFFF pre) w'"
    by (auto simp: crc32_of_def dest: foldl_crc_inj)
  then have "foldl crc_byte 0xFFFFFFFF pre XOR le_word w = foldl crc_byte 0xFFFFFFFF pre XOR le_word w'"
    using assms by (auto simp: foldl_crc_word dest: crc_bits_inj)
  then have "le_word w = le_word w'" by simp
  with le_word_inj [OF assms(1,2)] assms(3) show False by blast
qed

section \<open>Properties\<close>

text \<open>The unrolled inner loop, for evaluating concrete checksums.\<close>

lemma crc_bits_8: "crc_bits 8 x = crc_bit (crc_bit (crc_bit (crc_bit
    (crc_bit (crc_bit (crc_bit (crc_bit x)))))))"
  by (simp add: numeral_eq_Suc)

text \<open>The checksum loop reads exactly the \<open>size\<close> bytes it is given, never faults on them, and
  computes the fold \<open>crc32_of\<close>; on a null pointer it returns zero. On the standard check string
  \<open>123456789\<close> the value is \<open>0xCBF43926\<close>, the one every CRC-32/IEEE implementation agrees on.\<close>

lemma crc32_loop_is_fold:
  "mcl_link_crc32 None n = Some 0
    \<and> mcl_link_crc32 (Some (d @ rest)) (length d) = Some (crc32_of d)
    \<and> crc32_of [0x31, 0x32, 0x33, 0x34, 0x35, 0x36, 0x37, 0x38, 0x39] = 0xCBF43926"
proof (intro conjI)
  show "mcl_link_crc32 None n = Some 0" by (simp add: mcl_link_crc32_def)
  show "mcl_link_crc32 (Some (d @ rest)) (length d) = Some (crc32_of d)" by (simp add: crc32_eq)
  show "crc32_of [0x31, 0x32, 0x33, 0x34, 0x35, 0x36, 0x37, 0x38, 0x39] = 0xCBF43926"
    by (simp add: crc32_of_def crc_byte_def crc_bits_8 crc_bit_if)
qed

text \<open>Two byte strings of the same length that differ only within some window of at most four
  bytes never have the same checksum: no error burst of up to 32 bits goes undetected.\<close>

lemma crc32_detects_bursts:
  assumes "length w = length w'" and "length w \<le> 4" and "w \<noteq> w'"
  shows "mcl_link_crc32 (Some (pre @ w @ post)) (length (pre @ w @ post))
    \<noteq> mcl_link_crc32 (Some (pre @ w' @ post)) (length (pre @ w' @ post))"
  using crc32_burst [OF assms] by (simp add: crc32_eq)

end
