(* ===== verification/Mcl_Codec.thy ===== *)
theory Mcl_Codec
  imports Mcl_Prelude "HOL-Library.Sublist"
begin

text \<open>
  The contract of a wire format. \<open>message_codec\<close>: a value is written as one whole message, and a
  reader accepts exactly the messages that some admissible value is written as.
  \<open>stream_codec\<close>: the reader also finds the end of the message by itself, so messages can be sent
  one after the other; it is a message codec once the reader insists on using everything.

  The frame, the control bodies, the capability and negotiation bodies, the handoff controls and the
  rendezvous beacon are interpretations, with \<open>emit\<close> and \<open>accept\<close> the C functions run on buffers.
\<close>

locale message_codec =
  fixes emit :: "'a \<Rightarrow> byte list"
    and ok :: "'a \<Rightarrow> bool"
    and accept :: "byte list \<Rightarrow> 'a option"
  assumes accept_emit: "\<And>x. ok x \<Longrightarrow> accept (emit x) = Some x"
    and emit_accept: "\<And>B x. accept B = Some x \<Longrightarrow> ok x \<and> emit x = B"
begin

lemma accept_iff: "accept B = Some x \<longleftrightarrow> ok x \<and> B = emit x"
  using accept_emit emit_accept by blast

lemma accept_case: "(case accept B of None \<Rightarrow> False | Some x \<Rightarrow> P x) \<longleftrightarrow> (\<exists>x. ok x \<and> B = emit x \<and> P x)"
proof -
  have "(case accept B of None \<Rightarrow> False | Some x \<Rightarrow> P x) \<longleftrightarrow> (\<exists>x. accept B = Some x \<and> P x)"
    by (cases "accept B") auto
  then show ?thesis by (simp add: accept_iff)
qed

lemma emit_inj: "ok x \<Longrightarrow> ok y \<Longrightarrow> emit x = emit y \<longleftrightarrow> x = y"
  using accept_emit by (metis option.inject)

text \<open>No second spelling: two accepted messages with the same value are the same bytes.\<close>

lemma accept_inj: "accept B = Some x \<Longrightarrow> accept C = Some x \<Longrightarrow> B = C"
  using emit_accept by blast

lemma rejected_iff: "accept B = None \<longleftrightarrow> B \<notin> emit ` {x. ok x}"
  by (cases "accept B") (auto simp: accept_emit dest!: emit_accept)

end

locale stream_codec =
  fixes emit :: "'a \<Rightarrow> byte list"
    and ok :: "'a \<Rightarrow> bool"
    and accept :: "byte list \<Rightarrow> ('a \<times> nat) option"
  assumes accept_emit: "\<And>x rest. ok x \<Longrightarrow> accept (emit x @ rest) = Some (x, length (emit x))"
    and emit_accept: "\<And>B x k. accept B = Some (x, k) \<Longrightarrow> ok x \<and> k \<le> length B \<and> emit x = take k B"
    and emit_nonempty: "\<And>x. ok x \<Longrightarrow> emit x \<noteq> []"

sublocale stream_codec \<subseteq> whole: message_codec emit ok
  "\<lambda>B. case accept B of None \<Rightarrow> None | Some (x, k) \<Rightarrow> if k = length B then Some x else None"
proof (unfold_locales, goal_cases)
  case (1 x)
  then show ?case using accept_emit [of x "[]"] by simp
next
  case (2 B x)
  then show ?case using emit_accept [of B] by (auto split: option.splits if_splits)
qed

context stream_codec
begin

lemma accept_append:
  assumes "accept B = Some (x, k)" shows "accept (B @ rest) = Some (x, k)"
proof -
  have e: "ok x" "k \<le> length B" "emit x = take k B" using emit_accept [OF assms] by auto
  have eq: "B @ rest = emit x @ (drop k B @ rest)" unfolding e(3) by (simp flip: append_assoc)
  have "length (emit x) = k" using e by simp
  then show ?thesis unfolding eq by (simp add: accept_emit [OF e(1)])
qed

lemma accept_cut:
  assumes "accept B = Some (x, k)" "j < k" shows "accept (take j B) = None"
proof (cases "accept (take j B)")
  case (Some y)
  obtain z i where y: "y = (z, i)" by (cases y)
  have "accept (take j B @ drop j B) = Some (z, i)" using Some y by (intro accept_append) simp
  then have "i = k" using assms(1) by simp
  moreover have "i \<le> j" using emit_accept [of "take j B" z i] Some y by simp
  ultimately show ?thesis using assms(2) by simp
qed

lemma prefix_free:
  assumes "ok x" "ok y" "prefix (emit x) (emit y)" shows "x = y"
proof -
  from assms(3) obtain zs where "emit y = emit x @ zs" by (auto elim: prefixE)
  then show ?thesis
    using accept_emit [OF assms(1), of zs] accept_emit [OF assms(2), of "[]"] by simp
qed

text \<open>A whole conversation on a byte stream can be cut into its messages in one way only.\<close>

lemma stream_unique:
  assumes "\<forall>x \<in> set xs. ok x" "\<forall>y \<in> set ys. ok y"
    and "concat (map emit xs) = concat (map emit ys)"
  shows "xs = ys"
  using assms
proof (induction xs arbitrary: ys)
  case Nil
  then show ?case using emit_nonempty by (cases ys) auto
next
  case (Cons x xs)
  show ?case
  proof (cases ys)
    case Nil
    then show ?thesis using Cons.prems emit_nonempty by auto
  next
    case (Cons y zs)
    have "accept (emit x @ concat (map emit xs)) = accept (emit y @ concat (map emit zs))"
      using Cons.prems(3) Cons by simp
    then have "x = y" using Cons.prems(1,2) Cons accept_emit by simp
    then show ?thesis using Cons.IH [of zs] Cons.prems Cons by simp
  qed
qed

end

end
