(* ===== verification/Mcl_Frame.thy ===== *)
theory Mcl_Frame
  imports Mcl_Link Mcl_Crc Mcl_Codec
begin

text \<open>
  The Link frame codec: the second half of \<open>src/link.c\<close>. \<open>mcl_link_frame_encode_at_major\<close> and
  \<open>mcl_link_frame_decode\<close> are translated statement by statement, with the output buffer, the output
  frame and the out-parameters as explicit state: an early return hands back what had been written
  by then.

  The reference side is cursor-free: \<open>frame_bytes\<close> says which bytes a frame is, \<open>frame_verdict\<close>
  which status a buffer deserves, \<open>frame_parsed\<close> and \<open>frame_total\<close> what an accepted buffer means and
  how long the frame in it is.
\<close>

section \<open>Types and constants\<close>

abbreviation (input) MCL_LINK_FRAME_MAJOR :: byte where "MCL_LINK_FRAME_MAJOR \<equiv> 0"
abbreviation (input) MCL_LINK_STABLE_MAJOR :: byte where "MCL_LINK_STABLE_MAJOR \<equiv> 1"
abbreviation (input) MCL_LINK_FRAME_MIN_SIZE :: nat where "MCL_LINK_FRAME_MIN_SIZE \<equiv> 8"
abbreviation (input) MCL_LINK_FRAME_MAX_PAYLOAD :: nat where "MCL_LINK_FRAME_MAX_PAYLOAD \<equiv> 1024"
abbreviation (input) MCL_LINK_FRAME_MAX_OPTIONAL :: nat where "MCL_LINK_FRAME_MAX_OPTIONAL \<equiv> 16"

definition MCL_LINK_FRAME_MAX_SIZE :: nat where
  "MCL_LINK_FRAME_MAX_SIZE =
     MCL_LINK_FRAME_MIN_SIZE + MCL_LINK_FRAME_MAX_OPTIONAL + MCL_LINK_FRAME_MAX_PAYLOAD"

abbreviation (input) MCL_LINK_CLASS_CAPABILITY :: byte where "MCL_LINK_CLASS_CAPABILITY \<equiv> 1"
abbreviation (input) MCL_LINK_CLASS_NEGOTIATION :: byte where "MCL_LINK_CLASS_NEGOTIATION \<equiv> 2"
abbreviation (input) MCL_LINK_CLASS_ADAPT :: byte where "MCL_LINK_CLASS_ADAPT \<equiv> 7"
abbreviation (input) MCL_LINK_CLASS_HANDOFF :: byte where "MCL_LINK_CLASS_HANDOFF \<equiv> 8"
abbreviation (input) MCL_LINK_CLASS_COUNT :: byte where "MCL_LINK_CLASS_COUNT \<equiv> 10"

abbreviation (input) MCL_LINK_FLAG_DESTINATION :: byte where "MCL_LINK_FLAG_DESTINATION \<equiv> 0x01"
abbreviation (input) MCL_LINK_FLAG_SESSION :: byte where "MCL_LINK_FLAG_SESSION \<equiv> 0x02"
abbreviation (input) MCL_LINK_FLAG_SEQUENCE :: byte where "MCL_LINK_FLAG_SEQUENCE \<equiv> 0x04"
abbreviation (input) MCL_LINK_FLAG_FRESHNESS :: byte where "MCL_LINK_FLAG_FRESHNESS \<equiv> 0x08"
abbreviation (input) MCL_LINK_FLAG_FRAME_CHECK :: byte where "MCL_LINK_FLAG_FRAME_CHECK \<equiv> 0x10"
abbreviation (input) MCL_LINK_FLAG_RESERVED :: byte where "MCL_LINK_FLAG_RESERVED \<equiv> 0xE0"

record mcl_link_frame =
  frame_link_major :: byte
  frame_class :: byte
  frame_flags :: byte
  frame_source_ref :: u32
  frame_destination_ref :: u32
  frame_session_ref :: u32
  frame_sequence :: u16
  frame_freshness_ms :: u16
  frame_payload :: "byte list option"
  frame_payload_len :: u16

definition flagged :: "byte \<Rightarrow> byte \<Rightarrow> bool" where
  "flagged flags bits \<longleftrightarrow> flags AND bits \<noteq> 0"

section \<open>Integer fields\<close>

definition mcl_link_put_u16 :: "byte list \<Rightarrow> nat \<Rightarrow> u16 \<Rightarrow> byte list option" where
  "mcl_link_put_u16 buf off v = do {
     b1 \<leftarrow> wr buf off (ucast (drop_bit 8 v));
     wr b1 (off + 1) (ucast (v AND 0xFF)) }"

definition mcl_link_put_u32 :: "byte list \<Rightarrow> nat \<Rightarrow> u32 \<Rightarrow> byte list option" where
  "mcl_link_put_u32 buf off v = do {
     b1 \<leftarrow> wr buf off (ucast (drop_bit 24 v));
     b2 \<leftarrow> wr b1 (off + 1) (ucast (drop_bit 16 v AND 0xFF));
     b3 \<leftarrow> wr b2 (off + 2) (ucast (drop_bit 8 v AND 0xFF));
     wr b3 (off + 3) (ucast (v AND 0xFF)) }"

definition mcl_link_get_u16 :: "byte list \<Rightarrow> u16 option" where
  "mcl_link_get_u16 p = do {
     a \<leftarrow> rd p 0;
     b \<leftarrow> rd p 1;
     Some (push_bit 8 (ucast a) OR ucast b) }"

definition mcl_link_get_u32 :: "byte list \<Rightarrow> u32 option" where
  "mcl_link_get_u32 p = do {
     a \<leftarrow> rd p 0;
     b \<leftarrow> rd p 1;
     c \<leftarrow> rd p 2;
     d \<leftarrow> rd p 3;
     Some (push_bit 24 (ucast a) OR push_bit 16 (ucast b) OR push_bit 8 (ucast c) OR ucast d) }"

interpretation frame16: be_port mcl_link_put_u16 mcl_link_get_u16 be16 2
  by (rule be_port_16) (simp_all add: mcl_link_put_u16_def mcl_link_get_u16_def of_be16_def)

interpretation frame32: be_port mcl_link_put_u32 mcl_link_get_u32 be32 4
  by (rule be_port_32) (simp_all add: mcl_link_put_u32_def mcl_link_get_u32_def of_be32_def)

section \<open>Encoding\<close>

definition mcl_link_optional_size :: "byte \<Rightarrow> nat" where
  "mcl_link_optional_size flags =
     (if flagged flags MCL_LINK_FLAG_DESTINATION then 4 else 0)
     + (if flagged flags MCL_LINK_FLAG_SESSION then 4 else 0)
     + (if flagged flags MCL_LINK_FLAG_SEQUENCE then 2 else 0)
     + (if flagged flags MCL_LINK_FLAG_FRESHNESS then 2 else 0)
     + (if flagged flags MCL_LINK_FLAG_FRAME_CHECK then 4 else 0)"

definition mcl_link_frame_encodable :: "mcl_link_frame option \<Rightarrow> byte" where
  "mcl_link_frame_encodable frame = (case frame of
     None \<Rightarrow> 0
   | Some f \<Rightarrow>
       if frame_class f \<ge> MCL_LINK_CLASS_COUNT then 0
       else if frame_class f = MCL_LINK_CLASS_ADAPT then 0
       else if flagged (frame_flags f) MCL_LINK_FLAG_RESERVED then 0
       else if unat (frame_payload_len f) > MCL_LINK_FRAME_MAX_PAYLOAD then 0
       else if frame_payload_len f \<noteq> 0 \<and> frame_payload f = None then 0
       else 1)"

definition mcl_link_frame_encoded_size :: "mcl_link_frame option \<Rightarrow> nat" where
  "mcl_link_frame_encoded_size frame =
     (if mcl_link_frame_encodable frame = 0 then 0
      else MCL_LINK_FRAME_MIN_SIZE
         + mcl_link_optional_size (frame_flags (the frame))
         + unat (frame_payload_len (the frame)))"

text \<open>The object a payload pointer refers to; a null pointer refers to no bytes at all.\<close>

definition pointee :: "byte list option \<Rightarrow> byte list" where
  "pointee p = (case p of None \<Rightarrow> [] | Some bs \<Rightarrow> bs)"

definition mcl_link_frame_encode_at_major ::
  "byte \<Rightarrow> mcl_link_frame option \<Rightarrow> byte list option \<Rightarrow> nat \<Rightarrow> nat option
    \<Rightarrow> (mcl_link_status \<times> byte list option \<times> nat option) option" where
  "mcl_link_frame_encode_at_major major frame out out_capacity written =
    (case (frame, out, written) of
      (Some f, Some buf, Some _) \<Rightarrow>
        if major \<noteq> MCL_LINK_FRAME_MAJOR \<and> major \<noteq> MCL_LINK_STABLE_MAJOR
        then Some (MCL_LINK_ERR_INCOMPATIBLE_VERSION, out, written)
        else if mcl_link_frame_encodable frame = 0
        then Some (MCL_LINK_ERR_RANGE, out, written)
        else if out_capacity < mcl_link_frame_encoded_size frame
        then Some (MCL_LINK_ERR_RANGE, out, written)
        else do {
          buf \<leftarrow> wr buf 0 (ucast (push_bit 4 (ucast major :: u32) OR ucast (frame_class f)));
          buf \<leftarrow> wr buf 1 (frame_flags f);
          buf \<leftarrow> mcl_link_put_u32 buf 2 (frame_source_ref f);
          (buf, pos) \<leftarrow>
            (if flagged (frame_flags f) MCL_LINK_FLAG_DESTINATION
             then mcl_link_put_u32 buf 6 (frame_destination_ref f) \<bind> (\<lambda>buf. Some (buf, 6 + 4))
             else Some (buf, 6));
          (buf, pos) \<leftarrow>
            (if flagged (frame_flags f) MCL_LINK_FLAG_SESSION
             then mcl_link_put_u32 buf pos (frame_session_ref f) \<bind> (\<lambda>buf. Some (buf, pos + 4))
             else Some (buf, pos));
          (buf, pos) \<leftarrow>
            (if flagged (frame_flags f) MCL_LINK_FLAG_SEQUENCE
             then mcl_link_put_u16 buf pos (frame_sequence f) \<bind> (\<lambda>buf. Some (buf, pos + 2))
             else Some (buf, pos));
          (buf, pos) \<leftarrow>
            (if flagged (frame_flags f) MCL_LINK_FLAG_FRESHNESS
             then mcl_link_put_u16 buf pos (frame_freshness_ms f) \<bind> (\<lambda>buf. Some (buf, pos + 2))
             else Some (buf, pos));
          buf \<leftarrow> mcl_link_put_u16 buf pos (frame_payload_len f);
          let pos = pos + 2;
          buf \<leftarrow> mcl_link_copy_bytes buf pos (pointee (frame_payload f)) (unat (frame_payload_len f));
          let pos = pos + unat (frame_payload_len f);
          (buf, pos) \<leftarrow>
            (if flagged (frame_flags f) MCL_LINK_FLAG_FRAME_CHECK
             then do {
               crc \<leftarrow> mcl_link_crc32 (Some buf) pos;
               mcl_link_put_u32 buf pos crc \<bind> (\<lambda>buf. Some (buf, pos + 4)) }
             else Some (buf, pos));
          Some (MCL_LINK_OK, Some buf, Some pos) }
    | _ \<Rightarrow> Some (MCL_LINK_ERR_INVALID_ARGUMENT, out, written))"

definition mcl_link_frame_encode ::
  "mcl_link_frame option \<Rightarrow> byte list option \<Rightarrow> nat \<Rightarrow> nat option
    \<Rightarrow> (mcl_link_status \<times> byte list option \<times> nat option) option" where
  "mcl_link_frame_encode frame out out_capacity written =
     mcl_link_frame_encode_at_major MCL_LINK_FRAME_MAJOR frame out out_capacity written"

section \<open>Decoding\<close>

text \<open>The references and the optional fields, from offset 2 up to the payload length.\<close>

definition decode_fields ::
  "byte list \<Rightarrow> byte \<Rightarrow> mcl_link_frame \<Rightarrow> (mcl_link_frame \<times> nat) option" where
  "decode_fields inb flags f = do {
     source \<leftarrow> mcl_link_get_u32 (drop 2 inb);
     (destination, pos) \<leftarrow>
       (if flagged flags MCL_LINK_FLAG_DESTINATION
        then mcl_link_get_u32 (drop 6 inb) \<bind> (\<lambda>v. Some (v, 6 + 4)) else Some (0, 6));
     (session, pos) \<leftarrow>
       (if flagged flags MCL_LINK_FLAG_SESSION
        then mcl_link_get_u32 (drop pos inb) \<bind> (\<lambda>v. Some (v, pos + 4)) else Some (0, pos));
     (sequence, pos) \<leftarrow>
       (if flagged flags MCL_LINK_FLAG_SEQUENCE
        then mcl_link_get_u16 (drop pos inb) \<bind> (\<lambda>v. Some (v, pos + 2)) else Some (0, pos));
     (freshness, pos) \<leftarrow>
       (if flagged flags MCL_LINK_FLAG_FRESHNESS
        then mcl_link_get_u16 (drop pos inb) \<bind> (\<lambda>v. Some (v, pos + 2)) else Some (0, pos));
     Some (f\<lparr>frame_source_ref := source, frame_destination_ref := destination,
             frame_session_ref := session, frame_sequence := sequence,
             frame_freshness_ms := freshness\<rparr>, pos) }"

text \<open>The payload and the frame check, once the payload length has been read.\<close>

definition decode_payload ::
  "byte list \<Rightarrow> nat \<Rightarrow> byte \<Rightarrow> mcl_link_frame \<Rightarrow> nat \<Rightarrow> u16 \<Rightarrow> nat option
    \<Rightarrow> (mcl_link_status \<times> mcl_link_frame option \<times> nat option) option" where
  "decode_payload inb in_size flags f pos payload_len consumed =
     (if unat payload_len > MCL_LINK_FRAME_MAX_PAYLOAD
      then Some (MCL_LINK_ERR_RANGE, Some f, consumed)
      else do {
        rest \<leftarrow> size_sub in_size pos;
        if rest < unat payload_len then Some (MCL_LINK_ERR_TRUNCATED, Some f, consumed)
        else do {
          let f = f\<lparr>frame_payload_len := payload_len,
                    frame_payload := (if payload_len \<noteq> 0 then Some (drop pos inb) else None)\<rparr>;
          let pos = pos + unat payload_len;
          if flagged flags MCL_LINK_FLAG_FRAME_CHECK
          then do {
            rest \<leftarrow> size_sub in_size pos;
            if rest < 4 then Some (MCL_LINK_ERR_TRUNCATED, Some f, consumed)
            else do {
              received \<leftarrow> mcl_link_get_u32 (drop pos inb);
              crc \<leftarrow> mcl_link_crc32 (Some inb) pos;
              if received \<noteq> crc then Some (MCL_LINK_ERR_FRAME_CHECK, Some f, consumed)
              else Some (MCL_LINK_OK, Some f, Some (pos + 4)) } }
          else Some (MCL_LINK_OK, Some f, Some pos) } })"

definition mcl_link_frame_decode ::
  "byte list option \<Rightarrow> nat \<Rightarrow> mcl_link_frame option \<Rightarrow> nat option
    \<Rightarrow> (mcl_link_status \<times> mcl_link_frame option \<times> nat option) option" where
  "mcl_link_frame_decode inp in_size frame consumed =
    (case (inp, frame, consumed) of
      (Some inb, Some f, Some _) \<Rightarrow>
        if in_size < MCL_LINK_FRAME_MIN_SIZE then Some (MCL_LINK_ERR_TRUNCATED, frame, consumed)
        else do {
          b0 \<leftarrow> rd inb 0;
          let major = drop_bit 4 b0 AND 0x0F;
          if major \<noteq> MCL_LINK_FRAME_MAJOR \<and> major \<noteq> MCL_LINK_STABLE_MAJOR
          then Some (MCL_LINK_ERR_INCOMPATIBLE_VERSION, frame, consumed)
          else do {
            let f = f\<lparr>frame_link_major := major, frame_class := b0 AND 0x0F\<rparr>;
            if frame_class f \<ge> MCL_LINK_CLASS_COUNT then Some (MCL_LINK_ERR_RANGE, Some f, consumed)
            else if frame_class f = MCL_LINK_CLASS_ADAPT
            then Some (MCL_LINK_ERR_RANGE, Some f, consumed)
            else do {
              flags \<leftarrow> rd inb 1;
              if flagged flags MCL_LINK_FLAG_RESERVED then Some (MCL_LINK_ERR_RANGE, Some f, consumed)
              else do {
                let f = f\<lparr>frame_flags := flags\<rparr>;
                if in_size < MCL_LINK_FRAME_MIN_SIZE + mcl_link_optional_size flags
                then Some (MCL_LINK_ERR_TRUNCATED, Some f, consumed)
                else do {
                  (f, pos) \<leftarrow> decode_fields inb flags f;
                  payload_len \<leftarrow> mcl_link_get_u16 (drop pos inb);
                  decode_payload inb in_size flags f (pos + 2) payload_len consumed } } } } }
    | _ \<Rightarrow> Some (MCL_LINK_ERR_INVALID_ARGUMENT, frame, consumed))"

section \<open>The bytes of a frame\<close>

abbreviation (input) has_destination :: "byte \<Rightarrow> bool" where
  "has_destination flags \<equiv> flagged flags MCL_LINK_FLAG_DESTINATION"
abbreviation (input) has_session :: "byte \<Rightarrow> bool" where
  "has_session flags \<equiv> flagged flags MCL_LINK_FLAG_SESSION"
abbreviation (input) has_sequence :: "byte \<Rightarrow> bool" where
  "has_sequence flags \<equiv> flagged flags MCL_LINK_FLAG_SEQUENCE"
abbreviation (input) has_freshness :: "byte \<Rightarrow> bool" where
  "has_freshness flags \<equiv> flagged flags MCL_LINK_FLAG_FRESHNESS"
abbreviation (input) has_check :: "byte \<Rightarrow> bool" where
  "has_check flags \<equiv> flagged flags MCL_LINK_FLAG_FRAME_CHECK"

definition first_byte :: "byte \<Rightarrow> byte \<Rightarrow> byte" where
  "first_byte major cls = ucast (push_bit 4 (ucast major :: u32) OR ucast cls)"

definition payload_bytes :: "mcl_link_frame \<Rightarrow> byte list" where
  "payload_bytes f = take (unat (frame_payload_len f)) (pointee (frame_payload f))"

definition frame_fields :: "byte \<Rightarrow> mcl_link_frame \<Rightarrow> byte list" where
  "frame_fields major f =
     [first_byte major (frame_class f), frame_flags f] @ be32 (frame_source_ref f)
     @ (if has_destination (frame_flags f) then be32 (frame_destination_ref f) else [])
     @ (if has_session (frame_flags f) then be32 (frame_session_ref f) else [])
     @ (if has_sequence (frame_flags f) then be16 (frame_sequence f) else [])
     @ (if has_freshness (frame_flags f) then be16 (frame_freshness_ms f) else [])
     @ be16 (frame_payload_len f)"

definition frame_body :: "byte \<Rightarrow> mcl_link_frame \<Rightarrow> byte list" where
  "frame_body major f = frame_fields major f @ payload_bytes f"

definition frame_bytes :: "byte \<Rightarrow> mcl_link_frame \<Rightarrow> byte list" where
  "frame_bytes major f = frame_body major f
     @ (if has_check (frame_flags f) then be32 (crc32_of (frame_body major f)) else [])"

text \<open>A frame the encoder accepts, whose payload pointer covers the declared length.\<close>

definition frame_ok :: "mcl_link_frame \<Rightarrow> bool" where
  "frame_ok f \<longleftrightarrow> frame_class f < 10 \<and> frame_class f \<noteq> 7
     \<and> \<not> flagged (frame_flags f) MCL_LINK_FLAG_RESERVED
     \<and> unat (frame_payload_len f) \<le> MCL_LINK_FRAME_MAX_PAYLOAD
     \<and> unat (frame_payload_len f) \<le> length (pointee (frame_payload f))"

lemma frame_ok_encodable: "frame_ok f \<Longrightarrow> mcl_link_frame_encodable (Some f) = 1"
  by (auto simp: frame_ok_def mcl_link_frame_encodable_def pointee_def not_le unat_eq_zero
      split: option.splits)

lemma length_frame_fields: "length (frame_fields major f)
    = 8 + mcl_link_optional_size (frame_flags f) - (if has_check (frame_flags f) then 4 else 0)"
  by (simp add: frame_fields_def mcl_link_optional_size_def)

lemma length_frame_bytes:
  "frame_ok f \<Longrightarrow> length (frame_bytes major f)
    = 8 + mcl_link_optional_size (frame_flags f) + unat (frame_payload_len f)"
  by (simp add: frame_bytes_def frame_body_def payload_bytes_def frame_ok_def length_frame_fields
      mcl_link_optional_size_def)

lemma encoded_size_eq:
  "frame_ok f \<Longrightarrow> mcl_link_frame_encoded_size (Some f) = length (frame_bytes major f)"
  by (simp add: mcl_link_frame_encoded_size_def frame_ok_encodable length_frame_bytes)

lemma crc32_over: "length xs \<le> length out \<Longrightarrow>
    mcl_link_crc32 (Some (over xs out)) (length xs) = Some (crc32_of xs)"
  by (simp add: crc32_eq)

text \<open>Where the fields selected by the flags end, and where the payload starts.\<close>

definition end_destination :: "byte \<Rightarrow> nat" where
  "end_destination fl = 6 + (if has_destination fl then 4 else 0)"
definition end_session :: "byte \<Rightarrow> nat" where
  "end_session fl = end_destination fl + (if has_session fl then 4 else 0)"
definition end_sequence :: "byte \<Rightarrow> nat" where
  "end_sequence fl = end_session fl + (if has_sequence fl then 2 else 0)"
definition end_freshness :: "byte \<Rightarrow> nat" where
  "end_freshness fl = end_sequence fl + (if has_freshness fl then 2 else 0)"
definition payload_at :: "byte \<Rightarrow> nat" where
  "payload_at fl = end_freshness fl + 2"
definition check_size :: "byte \<Rightarrow> nat" where
  "check_size fl = (if has_check fl then 4 else 0)"

lemmas frame_offsets = end_destination_def end_session_def end_sequence_def end_freshness_def

text \<open>The bytes of a frame up to the end of each field, in the order in which both directions of the
  codec walk over them.\<close>

definition upto_source :: "byte \<Rightarrow> mcl_link_frame \<Rightarrow> byte list" where
  "upto_source major f = [first_byte major (frame_class f), frame_flags f] @ be32 (frame_source_ref f)"
definition upto_destination :: "byte \<Rightarrow> mcl_link_frame \<Rightarrow> byte list" where
  "upto_destination major f = upto_source major f
     @ (if has_destination (frame_flags f) then be32 (frame_destination_ref f) else [])"
definition upto_session :: "byte \<Rightarrow> mcl_link_frame \<Rightarrow> byte list" where
  "upto_session major f = upto_destination major f
     @ (if has_session (frame_flags f) then be32 (frame_session_ref f) else [])"
definition upto_sequence :: "byte \<Rightarrow> mcl_link_frame \<Rightarrow> byte list" where
  "upto_sequence major f = upto_session major f
     @ (if has_sequence (frame_flags f) then be16 (frame_sequence f) else [])"
definition upto_freshness :: "byte \<Rightarrow> mcl_link_frame \<Rightarrow> byte list" where
  "upto_freshness major f = upto_sequence major f
     @ (if has_freshness (frame_flags f) then be16 (frame_freshness_ms f) else [])"

lemma frame_fields_upto: "frame_fields major f = upto_freshness major f @ be16 (frame_payload_len f)"
  by (simp add: frame_fields_def upto_freshness_def upto_sequence_def upto_session_def upto_destination_def upto_source_def)

lemma upto_lengths:
  "length (upto_source major f) = 6"
  "length (upto_destination major f) = end_destination (frame_flags f)"
  "length (upto_session major f) = end_session (frame_flags f)"
  "length (upto_sequence major f) = end_sequence (frame_flags f)"
  "length (upto_freshness major f) = end_freshness (frame_flags f)"
  "length (frame_fields major f) = payload_at (frame_flags f)"
proof -
  show 1: "length (upto_source major f) = 6" by (simp add: upto_source_def)
  show 2: "length (upto_destination major f) = end_destination (frame_flags f)"
    by (simp add: upto_destination_def 1 end_destination_def)
  show 3: "length (upto_session major f) = end_session (frame_flags f)"
    by (simp add: upto_session_def 2 end_session_def)
  show 4: "length (upto_sequence major f) = end_sequence (frame_flags f)"
    by (simp add: upto_sequence_def 3 end_sequence_def)
  show 5: "length (upto_freshness major f) = end_freshness (frame_flags f)"
    by (simp add: upto_freshness_def 4 end_freshness_def)
  show "length (frame_fields major f) = payload_at (frame_flags f)"
    by (simp add: frame_fields_upto 5 payload_at_def)
qed

lemma body_length:
  "frame_ok f \<Longrightarrow> length (payload_bytes f) = unat (frame_payload_len f)"
  "frame_ok f \<Longrightarrow> length (frame_body major f) = payload_at (frame_flags f) + unat (frame_payload_len f)"
  "frame_ok f \<Longrightarrow> length (frame_bytes major f)
    = payload_at (frame_flags f) + unat (frame_payload_len f) + check_size (frame_flags f)"
  by (simp_all add: frame_bytes_def frame_body_def upto_lengths payload_bytes_def frame_ok_def check_size_def)

text \<open>The steps of the encoder on a buffer with room for the frame: the fixed fields, the selected
  fields, and the payload with its check.\<close>

lemma encode_fixed:
  assumes "8 \<le> length buf"
  shows "wr buf 0 b = Some (over [b] buf)" "wr (over [a] buf) 1 b = Some (over [a, b] buf)"
    "mcl_link_put_u32 (over [first_byte major (frame_class f), frame_flags f] buf) 2 (frame_source_ref f)
      = Some (over (upto_source major f) buf)"
proof -
  show "wr buf 0 b = Some (over [b] buf)" using wr_over [of 0 "[]" buf b] assms by (cases buf) auto
  show "wr (over [a] buf) 1 b = Some (over [a, b] buf)" using wr_over [of "Suc 0" "[a]" buf b] assms by simp
  show "mcl_link_put_u32 (over [first_byte major (frame_class f), frame_flags f] buf) 2 (frame_source_ref f)
      = Some (over (upto_source major f) buf)"
    unfolding upto_source_def by (rule frame32.put_over) (use assms in auto)
qed

lemma encode_optional:
  assumes "payload_at (frame_flags f) \<le> length buf"
  shows "(if has_destination (frame_flags f)
      then mcl_link_put_u32 (over (upto_source major f) buf) 6 (frame_destination_ref f) \<bind> (\<lambda>buf. Some (buf, 6 + 4))
      else Some (over (upto_source major f) buf, 6))
      = Some (over (upto_destination major f) buf, end_destination (frame_flags f))"
    "(if has_session (frame_flags f)
      then mcl_link_put_u32 (over (upto_destination major f) buf) (end_destination (frame_flags f)) (frame_session_ref f)
        \<bind> (\<lambda>buf. Some (buf, end_destination (frame_flags f) + 4))
      else Some (over (upto_destination major f) buf, end_destination (frame_flags f)))
      = Some (over (upto_session major f) buf, end_session (frame_flags f))"
    "(if has_sequence (frame_flags f)
      then mcl_link_put_u16 (over (upto_session major f) buf) (end_session (frame_flags f)) (frame_sequence f)
        \<bind> (\<lambda>buf. Some (buf, end_session (frame_flags f) + 2))
      else Some (over (upto_session major f) buf, end_session (frame_flags f)))
      = Some (over (upto_sequence major f) buf, end_sequence (frame_flags f))"
    "(if has_freshness (frame_flags f)
      then mcl_link_put_u16 (over (upto_sequence major f) buf) (end_sequence (frame_flags f)) (frame_freshness_ms f)
        \<bind> (\<lambda>buf. Some (buf, end_sequence (frame_flags f) + 2))
      else Some (over (upto_sequence major f) buf, end_sequence (frame_flags f)))
      = Some (over (upto_freshness major f) buf, end_freshness (frame_flags f))"
    "mcl_link_put_u16 (over (upto_freshness major f) buf) (end_freshness (frame_flags f)) (frame_payload_len f)
      = Some (over (frame_fields major f) buf)"
proof -
  let ?fl = "frame_flags f"
  have room: "6 + (if has_destination ?fl then 4 else 0) \<le> length buf"
    "end_destination ?fl + (if has_session ?fl then 4 else 0) \<le> length buf"
    "end_session ?fl + (if has_sequence ?fl then 2 else 0) \<le> length buf"
    "end_sequence ?fl + (if has_freshness ?fl then 2 else 0) \<le> length buf"
    "end_freshness ?fl + 2 \<le> length buf"
    using assms by (simp_all add: payload_at_def end_freshness_def end_sequence_def end_session_def end_destination_def)
  note put = frame32.put_if_over [of _ "upto_source major f" "has_destination ?fl" buf "frame_destination_ref f", folded upto_destination_def]
    frame32.put_if_over [of _ "upto_destination major f" "has_session ?fl" buf "frame_session_ref f", folded upto_session_def]
    frame16.put_if_over [of _ "upto_session major f" "has_sequence ?fl" buf "frame_sequence f", folded upto_sequence_def]
    frame16.put_if_over [of _ "upto_sequence major f" "has_freshness ?fl" buf "frame_freshness_ms f", folded upto_freshness_def]
  note put = put [unfolded upto_lengths, OF refl]
  show "(if has_destination ?fl
      then mcl_link_put_u32 (over (upto_source major f) buf) 6 (frame_destination_ref f) \<bind> (\<lambda>buf. Some (buf, 6 + 4))
      else Some (over (upto_source major f) buf, 6))
      = Some (over (upto_destination major f) buf, end_destination ?fl)" by (rule put(1) [OF room(1)])
  show "(if has_session ?fl
      then mcl_link_put_u32 (over (upto_destination major f) buf) (end_destination ?fl) (frame_session_ref f)
        \<bind> (\<lambda>buf. Some (buf, end_destination ?fl + 4))
      else Some (over (upto_destination major f) buf, end_destination ?fl))
      = Some (over (upto_session major f) buf, end_session ?fl)" by (rule put(2) [OF room(2)])
  show "(if has_sequence ?fl
      then mcl_link_put_u16 (over (upto_session major f) buf) (end_session ?fl) (frame_sequence f)
        \<bind> (\<lambda>buf. Some (buf, end_session ?fl + 2))
      else Some (over (upto_session major f) buf, end_session ?fl))
      = Some (over (upto_sequence major f) buf, end_sequence ?fl)" by (rule put(3) [OF room(3)])
  show "(if has_freshness ?fl
      then mcl_link_put_u16 (over (upto_sequence major f) buf) (end_sequence ?fl) (frame_freshness_ms f)
        \<bind> (\<lambda>buf. Some (buf, end_sequence ?fl + 2))
      else Some (over (upto_sequence major f) buf, end_sequence ?fl))
      = Some (over (upto_freshness major f) buf, end_freshness ?fl)" by (rule put(4) [OF room(4)])
  show "mcl_link_put_u16 (over (upto_freshness major f) buf) (end_freshness ?fl) (frame_payload_len f)
      = Some (over (frame_fields major f) buf)"
    unfolding frame_fields_upto by (rule frame16.put_over) (use room(5) in \<open>simp_all add: upto_lengths\<close>)
qed


lemma encode_payload:
  assumes ok: "frame_ok f" and room: "length (frame_bytes major f) \<le> length buf"
  shows "mcl_link_copy_bytes (over (frame_fields major f) buf) (end_freshness (frame_flags f) + 2)
      (pointee (frame_payload f)) (unat (frame_payload_len f)) = Some (over (frame_body major f) buf)"
    "mcl_link_crc32 (Some (over (frame_body major f) buf)) (length (frame_body major f)) = Some (crc32_of (frame_body major f))"
    "(if has_check (frame_flags f)
      then mcl_link_put_u32 (over (frame_body major f) buf) (length (frame_body major f)) (crc32_of (frame_body major f))
        \<bind> (\<lambda>buf. Some (buf, length (frame_body major f) + 4))
      else Some (over (frame_body major f) buf, length (frame_body major f)))
      = Some (over (frame_bytes major f) buf, length (frame_bytes major f))"
    "end_freshness (frame_flags f) + 2 + unat (frame_payload_len f) = length (frame_body major f)"
proof -
  let ?x = "frame_fields major f"
  have r: "length (frame_body major f) + (if has_check (frame_flags f) then 4 else 0) \<le> length buf"
    using room by (simp add: body_length [OF ok] check_size_def)
  show "mcl_link_copy_bytes (over ?x buf) (end_freshness (frame_flags f) + 2) (pointee (frame_payload f))
      (unat (frame_payload_len f)) = Some (over (frame_body major f) buf)"
    using copy_loop_over [of "length ?x" 0 ?x "unat (frame_payload_len f)" buf "pointee (frame_payload f)"] r ok
    by (simp add: mcl_link_copy_bytes_def frame_body_def payload_bytes_def frame_ok_def upto_lengths payload_at_def
        split: if_splits)
  show "mcl_link_crc32 (Some (over (frame_body major f) buf)) (length (frame_body major f)) = Some (crc32_of (frame_body major f))"
    by (rule crc32_over) (use r in auto)
  show "(if has_check (frame_flags f)
      then mcl_link_put_u32 (over (frame_body major f) buf) (length (frame_body major f)) (crc32_of (frame_body major f))
        \<bind> (\<lambda>buf. Some (buf, length (frame_body major f) + 4))
      else Some (over (frame_body major f) buf, length (frame_body major f)))
      = Some (over (frame_bytes major f) buf, length (frame_bytes major f))"
    unfolding frame_bytes_def by (rule frame32.put_if_over [OF refl r])
  show "end_freshness (frame_flags f) + 2 + unat (frame_payload_len f) = length (frame_body major f)"
    by (simp add: body_length [OF ok] payload_at_def)
qed

lemma encode_writes:
  assumes ok: "frame_ok f" and major: "major = 0 \<or> major = 1"
    and cap: "length (frame_bytes major f) \<le> cap" "cap \<le> length buf"
  shows "mcl_link_frame_encode_at_major major (Some f) (Some buf) cap (Some w)
    = Some (MCL_LINK_OK, Some (over (frame_bytes major f) buf), Some (length (frame_bytes major f)))"
proof -
  have room: "length (frame_bytes major f) \<le> length buf" using cap by simp
  then have "payload_at (frame_flags f) \<le> length buf" "8 \<le> length buf"
    by (simp_all add: body_length [OF ok] payload_at_def end_freshness_def end_sequence_def end_session_def end_destination_def)
  note steps = encode_fixed [OF this(2)] encode_optional [OF this(1)] encode_payload [OF ok room]
  have guards: "mcl_link_frame_encodable (Some f) \<noteq> 0"
      "\<not> (major \<noteq> MCL_LINK_FRAME_MAJOR \<and> major \<noteq> MCL_LINK_STABLE_MAJOR)"
      "\<not> cap < mcl_link_frame_encoded_size (Some f)"
    using frame_ok_encodable [OF ok] encoded_size_eq [OF ok, of major] major cap by auto
  show ?thesis
    unfolding mcl_link_frame_encode_at_major_def
    by (simp only: option.case prod.case guards simp_thms if_False if_True
        first_byte_def [symmetric] steps Let_def Option.bind.simps)
qed

section \<open>What a buffer deserves\<close>

lemma optional_size_split: "8 + mcl_link_optional_size fl = payload_at fl + check_size fl"
  by (simp add: mcl_link_optional_size_def payload_at_def check_size_def frame_offsets)

definition declared_length :: "byte list \<Rightarrow> u16" where
  "declared_length B = word16_at B (end_freshness (B ! 1))"

definition frame_total :: "byte list \<Rightarrow> nat" where
  "frame_total B = payload_at (B ! 1) + unat (declared_length B) + check_size (B ! 1)"

text \<open>The status the first \<open>n\<close> bytes of a buffer deserve; the second half once the fields are in.\<close>

definition check_matches :: "byte list \<Rightarrow> bool" where
  "check_matches B \<longleftrightarrow> \<not> has_check (B ! 1)
     \<or> word32_at B (frame_total B - 4) = crc32_of (take (frame_total B - 4) B)"

definition payload_verdict :: "byte list \<Rightarrow> nat \<Rightarrow> mcl_link_status" where
  "payload_verdict B n =
    (if 1024 < unat (declared_length B) then MCL_LINK_ERR_RANGE
     else if n < frame_total B then MCL_LINK_ERR_TRUNCATED
     else if check_matches B then MCL_LINK_OK else MCL_LINK_ERR_FRAME_CHECK)"

definition frame_verdict :: "byte list \<Rightarrow> nat \<Rightarrow> mcl_link_status" where
  "frame_verdict B n =
    (if n < 8 then MCL_LINK_ERR_TRUNCATED
     else if 1 < drop_bit 4 (B ! 0) then MCL_LINK_ERR_INCOMPATIBLE_VERSION
     else if 10 \<le> B ! 0 AND 15 \<or> B ! 0 AND 15 = 7 \<or> flagged (B ! 1) MCL_LINK_FLAG_RESERVED
     then MCL_LINK_ERR_RANGE
     else if n < payload_at (B ! 1) + check_size (B ! 1) then MCL_LINK_ERR_TRUNCATED
     else payload_verdict B n)"

definition frame_header :: "byte list \<Rightarrow> mcl_link_frame \<Rightarrow> mcl_link_frame" where
  "frame_header B f = f\<lparr>
     frame_link_major := drop_bit 4 (B ! 0), frame_class := B ! 0 AND 15, frame_flags := B ! 1,
     frame_source_ref := word32_at B 2,
     frame_destination_ref := (if has_destination (B ! 1) then word32_at B 6 else 0),
     frame_session_ref := (if has_session (B ! 1) then word32_at B (end_destination (B ! 1)) else 0),
     frame_sequence := (if has_sequence (B ! 1) then word16_at B (end_session (B ! 1)) else 0),
     frame_freshness_ms := (if has_freshness (B ! 1) then word16_at B (end_sequence (B ! 1)) else 0)\<rparr>"

definition frame_parsed :: "byte list \<Rightarrow> mcl_link_frame \<Rightarrow> mcl_link_frame" where
  "frame_parsed B f = (frame_header B f)\<lparr>
     frame_payload_len := declared_length B,
     frame_payload := (if declared_length B \<noteq> 0 then Some (drop (payload_at (B ! 1)) B) else None)\<rparr>"

lemma low_nibble_mask: "(15 :: 'a::len word) = mask 4"
  by (simp add: mask_eq_exp_minus_1)

lemma get32_at: "p + 4 \<le> length B \<Longrightarrow> mcl_link_get_u32 (drop p B) = Some (word32_at B p)"
  by (rule frame32.get_at) (simp add: be32_word32_at)

lemma get16_at: "p + 2 \<le> length B \<Longrightarrow> mcl_link_get_u16 (drop p B) = Some (word16_at B p)"
  by (rule frame16.get_at) (simp add: be16_word16_at)

lemma get32_if_at: "p + (if c then 4 else 0) \<le> length B \<Longrightarrow>
   (if c then mcl_link_get_u32 (drop p B) \<bind> (\<lambda>v. Some (v, p + 4)) else Some (0, p))
     = Some (if c then word32_at B p else 0, p + (if c then 4 else 0))"
  by (cases c) (simp_all add: get32_at)

lemma get16_if_at: "p + (if c then 2 else 0) \<le> length B \<Longrightarrow>
   (if c then mcl_link_get_u16 (drop p B) \<bind> (\<lambda>v. Some (v, p + 2)) else Some (0, p))
     = Some (if c then word16_at B p else 0, p + (if c then 2 else 0))"
  by (cases c) (simp_all add: get16_at)

lemma decode_fields_eq:
  assumes "payload_at (B ! 1) \<le> length B"
  shows "decode_fields B (B ! 1) (f\<lparr>frame_link_major := drop_bit 4 (B ! 0),
      frame_class := B ! 0 AND 15, frame_flags := B ! 1\<rparr>) = Some (frame_header B f, end_freshness (B ! 1))"
proof -
  define fl where "fl = B ! 1"
  have room: "end_freshness fl \<le> length B" using assms by (simp add: payload_at_def fl_def)
  have "2 + 4 \<le> length B" using room by (simp add: frame_offsets)
  note s = get32_at [OF this]
  have "6 + (if has_destination fl then 4 else 0) \<le> length B" using room by (simp add: frame_offsets)
  note d = get32_if_at [OF this, folded end_destination_def]
  have "end_destination fl + (if has_session fl then 4 else 0) \<le> length B"
    using room by (simp add: end_freshness_def end_sequence_def end_session_def)
  note e = get32_if_at [OF this, folded end_session_def]
  have "end_session fl + (if has_sequence fl then 2 else 0) \<le> length B"
    using room by (simp add: end_freshness_def end_sequence_def)
  note q = get16_if_at [OF this, folded end_sequence_def]
  have "end_sequence fl + (if has_freshness fl then 2 else 0) \<le> length B"
    using room by (simp add: end_freshness_def)
  note r = get16_if_at [OF this, folded end_freshness_def]
  show ?thesis
    unfolding decode_fields_def fl_def [symmetric]
    by (simp only: s d e q r Option.bind.simps prod.case) (simp add: frame_header_def fl_def)
qed

lemma nibble_and: "drop_bit 4 (b :: byte) AND 15 = drop_bit 4 b"
  by (rule bit_word_eqI) (auto simp: bit_simps low_nibble_mask dest: bit_imp_le_length)

lemma major_known: "b \<noteq> 0 \<and> b \<noteq> 1 \<longleftrightarrow> 1 < (b :: byte)"
  by (auto simp: word_less_nat_alt word_unat_eq_iff)

lemma crc32_prefix: "k \<le> length B \<Longrightarrow> mcl_link_crc32 (Some B) k = Some (crc32_of (take k B))"
  by (simp add: crc32_eq)

lemma decode_payload_complete:
  assumes "unat (declared_length B) \<le> 1024" "frame_total B \<le> n" "n \<le> length B"
  shows "decode_payload B n (B ! 1) (frame_header B f) (payload_at (B ! 1)) (declared_length B) (Some c)
    = Some (payload_verdict B n, Some (frame_parsed B f),
        Some (if payload_verdict B n = MCL_LINK_OK then frame_total B else c))"
proof -
  define l where "l = declared_length B"
  define p where "p = payload_at (B ! 1)"
  have tot: "frame_total B = p + unat l + check_size (B ! 1)" by (simp add: frame_total_def l_def p_def)
  have sub: "size_sub n p = Some (n - p)" "\<not> n - p < unat l" using assms tot by (auto simp: size_sub_def)
  have parsed: "(frame_header B f)\<lparr>frame_payload_len := l,
      frame_payload := if l \<noteq> 0 then Some (drop p B) else None\<rparr> = frame_parsed B f"
    by (simp add: frame_parsed_def l_def p_def)
  note defs = decode_payload_def payload_verdict_def check_matches_def Let_def l_def [symmetric] p_def [symmetric] parsed
  show ?thesis
  proof (cases "has_check (B ! 1)")
    case False
    then have t: "frame_total B = p + unat l" using tot by (simp add: check_size_def)
    show ?thesis using assms sub False by (simp add: defs t del: One_nat_def)
  next
    case True
    then have t: "frame_total B = p + unat l + 4" using tot by (simp add: check_size_def)
    have s: "size_sub n (p + unat l) = Some (n - (p + unat l))" "\<not> n - (p + unat l) < 4"
      using assms t by (auto simp: size_sub_def)
    have g: "mcl_link_get_u32 (drop (p + unat l) B) = Some (word32_at B (p + unat l))"
      by (rule get32_at) (use assms t in simp)
    have r: "mcl_link_crc32 (Some B) (p + unat l) = Some (crc32_of (take (p + unat l) B))"
      by (rule crc32_prefix) (use assms t in simp)
    show ?thesis using assms sub True s g r by (simp add: defs t del: One_nat_def)
  qed
qed

lemma decode_payload_verdict:
  assumes n: "payload_at (B ! 1) + check_size (B ! 1) \<le> n" "n \<le> length B"
  shows "\<exists>f'. decode_payload B n (B ! 1) (frame_header B f) (payload_at (B ! 1)) (declared_length B) (Some c)
      = Some (payload_verdict B n, Some f',
          Some (if payload_verdict B n = MCL_LINK_OK then frame_total B else c))
    \<and> (payload_verdict B n = MCL_LINK_OK \<longrightarrow> f' = frame_parsed B f)"
proof -
  define l where "l = declared_length B"
  define p where "p = payload_at (B ! 1)"
  have sub: "size_sub n p = Some (n - p)" using n by (simp add: size_sub_def p_def)
  have tot: "frame_total B = p + unat l + check_size (B ! 1)" by (simp add: frame_total_def l_def p_def)
  consider "1024 < unat l" | "unat l \<le> 1024" "n < frame_total B" "n - p < unat l"
    | "unat l \<le> 1024" "n < frame_total B" "unat l \<le> n - p" | "unat l \<le> 1024" "frame_total B \<le> n"
    by linarith
  then show ?thesis
  proof cases
    case 1
    then show ?thesis by (simp add: decode_payload_def payload_verdict_def l_def)
  next
    case 2
    then show ?thesis using sub by (simp add: decode_payload_def payload_verdict_def l_def p_def)
  next
    case 3
    have c: "has_check (B ! 1)" using 3 n tot by (simp add: check_size_def p_def split: if_splits)
    have s: "size_sub n (p + unat l) = Some (n - (p + unat l))" "n - (p + unat l) < 4"
      using 3 n tot c by (auto simp: size_sub_def check_size_def p_def)
    show ?thesis
      using 3 s c sub by (simp add: decode_payload_def payload_verdict_def Let_def
          l_def [symmetric] p_def [symmetric] del: One_nat_def)
  next
    case 4
    then show ?thesis using decode_payload_complete [OF _ _ n(2), of f c] by (simp add: l_def)
  qed
qed

text \<open>The header decides alone, or leaves the verdict to the payload.\<close>

lemma decode_header_refused:
  assumes "n \<le> length B" "8 \<le> n" "1 < drop_bit 4 (B ! 0) \<or> 10 \<le> B ! 0 AND 15 \<or> B ! 0 AND 15 = 7
      \<or> flagged (B ! 1) MCL_LINK_FLAG_RESERVED \<or> n < payload_at (B ! 1) + check_size (B ! 1)"
  shows "\<exists>f'. mcl_link_frame_decode (Some B) n (Some f) (Some c) = Some (frame_verdict B n, Some f', Some c)
    \<and> frame_verdict B n \<noteq> MCL_LINK_OK"
proof -
  have r: "rd B 0 = Some (B ! 0)" "rd B 1 = Some (B ! 1)" using assms(1,2) by (auto simp: rd_def)
  show ?thesis
    using assms by (auto simp: mcl_link_frame_decode_def frame_verdict_def r nibble_and major_known Let_def
        optional_size_split simp del: One_nat_def)
qed

lemma decode_header_passed:
  assumes n: "n \<le> length B" "8 \<le> n" and ok: "\<not> 1 < drop_bit 4 (B ! 0)" "\<not> 10 \<le> B ! 0 AND 15" "B ! 0 AND 15 \<noteq> 7"
    "\<not> flagged (B ! 1) MCL_LINK_FLAG_RESERVED" "payload_at (B ! 1) + check_size (B ! 1) \<le> n"
  shows "mcl_link_frame_decode (Some B) n (Some f) (Some c)
      = decode_payload B n (B ! 1) (frame_header B f) (payload_at (B ! 1)) (declared_length B) (Some c)"
    "frame_verdict B n = payload_verdict B n"
proof -
  have r: "rd B 0 = Some (B ! 0)" "rd B 1 = Some (B ! 1)" using n by (auto simp: rd_def)
  have e: "mcl_link_get_u16 (drop (end_freshness (B ! 1)) B) = Some (declared_length B)"
    unfolding declared_length_def by (rule get16_at) (use ok(5) n in \<open>simp add: payload_at_def\<close>)
  have h: "decode_fields B (B ! 1) (f\<lparr>frame_link_major := drop_bit 4 (B ! 0), frame_class := B ! 0 AND 15,
      frame_flags := B ! 1\<rparr>) = Some (frame_header B f, end_freshness (B ! 1))"
    by (rule decode_fields_eq) (use ok(5) n in simp)
  show "frame_verdict B n = payload_verdict B n" using n ok by (simp add: frame_verdict_def)
  show "mcl_link_frame_decode (Some B) n (Some f) (Some c)
      = decode_payload B n (B ! 1) (frame_header B f) (payload_at (B ! 1)) (declared_length B) (Some c)"
    using n ok by (simp add: mcl_link_frame_decode_def r nibble_and major_known Let_def optional_size_split
        h e payload_at_def del: One_nat_def)
qed

lemma decode_verdict:
  assumes n: "n \<le> length B"
  shows "\<exists>f'. mcl_link_frame_decode (Some B) n (Some f) (Some c)
      = Some (frame_verdict B n, Some f',
          Some (if frame_verdict B n = MCL_LINK_OK then frame_total B else c))
    \<and> (frame_verdict B n = MCL_LINK_OK \<longrightarrow> f' = frame_parsed B f)"
proof (cases "n < 8")
  case True
  then show ?thesis by (simp add: mcl_link_frame_decode_def frame_verdict_def)
next
  case False
  then have n8: "8 \<le> n" by simp
  show ?thesis
  proof (cases "1 < drop_bit 4 (B ! 0) \<or> 10 \<le> B ! 0 AND 15 \<or> B ! 0 AND 15 = 7
      \<or> flagged (B ! 1) MCL_LINK_FLAG_RESERVED \<or> n < payload_at (B ! 1) + check_size (B ! 1)")
    case True
    from decode_header_refused [OF n n8 this, of f c] show ?thesis by auto
  next
    case False
    then have pass: "\<not> 1 < drop_bit 4 (B ! 0)" "\<not> 10 \<le> B ! 0 AND 15" "B ! 0 AND 15 \<noteq> 7"
      "\<not> flagged (B ! 1) MCL_LINK_FLAG_RESERVED" "payload_at (B ! 1) + check_size (B ! 1) \<le> n"
      by (auto simp: not_less)
    from decode_payload_verdict [OF pass(5) n, of f c] show ?thesis
      unfolding decode_header_passed [OF n n8 pass] .
  qed
qed

section \<open>Accepted buffers are exactly frames\<close>

lemma first_byte_split: "first_byte (drop_bit 4 b) (b AND 15) = b"
  unfolding first_byte_def
  by (rule bit_word_eqI) (auto simp: bit_simps low_nibble_mask)

lemma first_byte_major: "major < 16 \<Longrightarrow> cls < 16 \<Longrightarrow> drop_bit 4 (first_byte major cls) = major"
  and first_byte_class: "major < 16 \<Longrightarrow> cls < 16 \<Longrightarrow> first_byte major cls AND 15 = cls"
proof -
  assume small: "major < 16" "cls < 16"
  have high: "\<not> bit (x :: byte) n" if "x < 16" "4 \<le> n" for x n
  proof -
    have "x = take_bit 4 x" using that(1)
      by (simp add: word_unat_eq_iff unsigned_take_bit_eq word_less_nat_alt take_bit_nat_eq_self)
    then show ?thesis using that(2) by (metis bit_take_bit_iff not_le)
  qed
  show "drop_bit 4 (first_byte major cls) = major"
    unfolding first_byte_def
    by (rule bit_word_eqI) (use small high in \<open>auto simp: bit_simps not_le [symmetric]\<close>)
  show "first_byte major cls AND 15 = cls"
    unfolding first_byte_def
    by (rule bit_word_eqI) (use small high in \<open>auto simp: bit_simps low_nibble_mask not_le [symmetric]\<close>)
qed

text \<open>An accepted buffer read back: its header is spelled by the fields that the decoder found.\<close>

lemma header_spelled:
  assumes "2 \<le> length B" "payload_at (B ! 1) \<le> length B"
  shows "take (payload_at (B ! 1)) B = frame_fields (drop_bit 4 (B ! 0)) (frame_parsed B f)"
proof -
  let ?fl = "B ! 1" and ?M = "drop_bit 4 (B ! 0)" and ?f = "frame_parsed B f"
  have room: "end_freshness ?fl + 2 \<le> length B" "end_sequence ?fl + (if has_freshness ?fl then 2 else 0) \<le> length B"
    "end_session ?fl + (if has_sequence ?fl then 2 else 0) \<le> length B"
    "end_destination ?fl + (if has_session ?fl then 4 else 0) \<le> length B"
    "6 + (if has_destination ?fl then 4 else 0) \<le> length B" "2 + 4 \<le> length B"
    using assms(2) by (simp_all add: payload_at_def end_freshness_def end_sequence_def end_session_def end_destination_def
        del: One_nat_def)
  obtain a b ys where "B = a # b # ys" using assms(1) by (cases B; cases "tl B") auto
  then have "take 2 B = [first_byte ?M (B ! 0 AND 15), ?fl]" by (simp add: first_byte_split)
  then have "take 6 B = upto_source ?M ?f"
    using take_word32 [OF room(6)] by (simp add: upto_source_def frame_parsed_def frame_header_def del: One_nat_def)
  then have "take (end_destination ?fl) B = upto_destination ?M ?f"
    using take_word32_if [OF room(5)]
    by (simp add: upto_destination_def end_destination_def frame_parsed_def frame_header_def del: One_nat_def)
  then have "take (end_session ?fl) B = upto_session ?M ?f"
    using take_word32_if [OF room(4)]
    by (simp add: upto_session_def end_session_def frame_parsed_def frame_header_def del: One_nat_def)
  then have "take (end_sequence ?fl) B = upto_sequence ?M ?f"
    using take_word16_if [OF room(3)]
    by (simp add: upto_sequence_def end_sequence_def frame_parsed_def frame_header_def del: One_nat_def)
  then have "take (end_freshness ?fl) B = upto_freshness ?M ?f"
    using take_word16_if [OF room(2)]
    by (simp add: upto_freshness_def end_freshness_def frame_parsed_def frame_header_def del: One_nat_def)
  then show ?thesis
    using take_word16 [OF room(1)]
    by (simp add: frame_fields_upto payload_at_def frame_parsed_def declared_length_def del: One_nat_def)
qed

text \<open>Accepted: the bytes in front of the cursor are those of the frame that was read, and the frame
  is one the encoder accepts.\<close>

lemma accepted_frame:
  assumes ok: "frame_verdict B n = MCL_LINK_OK" and n: "n \<le> length B"
  shows "take (frame_total B) B = frame_bytes (drop_bit 4 (B ! 0)) (frame_parsed B f)"
    and "frame_ok (frame_parsed B f)" and "frame_total B \<le> n" and "drop_bit 4 (B ! 0) < 2"
proof -
  let ?fl = "B ! 1" and ?l = "declared_length B" and ?f = "frame_parsed B f" and ?M = "drop_bit 4 (B ! 0)"
  note parsed = frame_parsed_def frame_header_def
  have g: "8 \<le> n" "\<not> 1 < ?M" "\<not> 10 \<le> B ! 0 AND 15" "B ! 0 AND 15 \<noteq> 7"
    "\<not> flagged ?fl MCL_LINK_FLAG_RESERVED" "payload_at ?fl + check_size ?fl \<le> n"
    "unat ?l \<le> 1024" "frame_total B \<le> n" "check_matches B"
    using ok by (auto simp: frame_verdict_def payload_verdict_def split: if_splits)
  have tot: "frame_total B = payload_at ?fl + unat ?l + check_size ?fl" by (simp add: frame_total_def)
  show "?M < 2" using g(2) by (simp add: word_less_nat_alt word_le_nat_alt)
  show "frame_total B \<le> n" by (rule g(8))
  have "2 \<le> length B" "payload_at ?fl \<le> length B" using g(1,6) n by simp_all
  note fields = header_spelled [OF this, of f]
  have pl: "payload_bytes ?f = take (unat ?l) (drop (payload_at ?fl) B)"
    by (simp add: payload_bytes_def parsed pointee_def del: One_nat_def)
  have body: "take (payload_at ?fl + unat ?l) B = frame_body ?M ?f"
    by (simp add: frame_body_def fields [symmetric] pl take_add)
  show "take (frame_total B) B = frame_bytes ?M ?f"
  proof (cases "has_check ?fl")
    case False
    then show ?thesis using body tot by (simp add: frame_bytes_def check_size_def parsed del: One_nat_def)
  next
    case True
    then have c: "frame_total B = payload_at ?fl + unat ?l + 4" using tot by (simp add: check_size_def)
    have "word32_at B (payload_at ?fl + unat ?l) = crc32_of (frame_body ?M ?f)"
      using g(9) True c body by (simp add: check_matches_def del: One_nat_def)
    moreover have "take (payload_at ?fl + unat ?l + 4) B = take (payload_at ?fl + unat ?l) B
        @ be32 (word32_at B (payload_at ?fl + unat ?l))"
      by (rule take_word32) (use c g(8) n in simp)
    ultimately show ?thesis using True c body by (simp add: frame_bytes_def parsed del: One_nat_def)
  qed
  have "unat ?l \<le> length (drop (payload_at ?fl) B)" using g(8) n tot by simp
  then show "frame_ok ?f"
    using g by (auto simp: frame_ok_def parsed pointee_def not_le simp del: One_nat_def)
qed

text \<open>What the wire carries of a frame: the fields its flags select and the declared payload.\<close>

definition frame_content :: "byte \<Rightarrow> mcl_link_frame \<Rightarrow> mcl_link_frame" where
  "frame_content major f = f\<lparr>
     frame_link_major := major,
     frame_destination_ref := (if has_destination (frame_flags f) then frame_destination_ref f else 0),
     frame_session_ref := (if has_session (frame_flags f) then frame_session_ref f else 0),
     frame_sequence := (if has_sequence (frame_flags f) then frame_sequence f else 0),
     frame_freshness_ms := (if has_freshness (frame_flags f) then frame_freshness_ms f else 0),
     frame_payload := (if frame_payload_len f = 0 then None else Some (payload_bytes f))\<rparr>"

lemma frame_ok_class: "frame_ok f \<Longrightarrow> frame_class f < 16"
  by (simp add: frame_ok_def word_less_nat_alt)

lemma small_major: "major < 2 \<Longrightarrow> major < (16 :: byte)"
  by (simp add: word_less_nat_alt)

text \<open>What the decoder finds where a frame was written.\<close>

lemma written_header:
  assumes ok: "frame_ok f" and major: "major < 2" and B: "B = frame_bytes major f @ rest"
  shows "drop_bit 4 (B ! 0) = major" "B ! 0 AND 15 = frame_class f" "B ! 1 = frame_flags f"
    "declared_length B = frame_payload_len f" "take (length (frame_body major f)) B = frame_body major f"
    "frame_total B = length (frame_bytes major f)"
proof -
  have y: "B = frame_body major f @ drop (length (frame_body major f)) (frame_bytes major f @ rest)"
    by (simp add: B frame_bytes_def)
  then obtain t where t: "B = upto_freshness major f @ be16 (frame_payload_len f) @ t"
    by (simp add: frame_body_def frame_fields_upto)
  then obtain t' where t': "B = first_byte major (frame_class f) # frame_flags f # t'"
    by (simp add: upto_freshness_def upto_sequence_def upto_session_def upto_destination_def upto_source_def)
  then have b: "B ! 0 = first_byte major (frame_class f)" and b1: "B ! 1 = frame_flags f" by simp_all
  show "drop_bit 4 (B ! 0) = major" "B ! 0 AND 15 = frame_class f"
    using small_major [OF major] frame_ok_class [OF ok] by (simp_all add: b first_byte_major first_byte_class)
  show "B ! 1 = frame_flags f" by (rule b1)
  show dl: "declared_length B = frame_payload_len f"
    unfolding declared_length_def b1 by (subst t) (rule word16_at_append [OF upto_lengths(5) [symmetric]])
  show "take (length (frame_body major f)) B = frame_body major f" by (subst y) simp
  show "frame_total B = length (frame_bytes major f)"
    unfolding frame_total_def b1 dl body_length(3) [OF ok] by (rule refl)
qed

lemma written_check:
  assumes ok: "frame_ok f" and major: "major < 2" and B: "B = frame_bytes major f @ rest"
  shows "check_matches B"
proof (cases "has_check (frame_flags f)")
  case False
  then show ?thesis by (simp add: check_matches_def written_header(3) [OF assms] del: One_nat_def)
next
  case True
  note h = written_header [OF assms]
  have t: "frame_total B - 4 = length (frame_body major f)"
    using True by (simp add: h(6) body_length [OF ok] check_size_def)
  have "word32_at B (length (frame_body major f)) = crc32_of (frame_body major f)"
    using True by (simp add: B frame_bytes_def word32_at_append)
  then show ?thesis by (simp add: check_matches_def t h(5))
qed

lemma written_fields:
  assumes ok: "frame_ok f" and major: "major < 2" and B: "B = frame_bytes major f @ rest"
  shows "word32_at B 2 = frame_source_ref f"
    "has_destination (frame_flags f) \<Longrightarrow> word32_at B 6 = frame_destination_ref f"
    "has_session (frame_flags f) \<Longrightarrow> word32_at B (end_destination (frame_flags f)) = frame_session_ref f"
    "has_sequence (frame_flags f) \<Longrightarrow> word16_at B (end_session (frame_flags f)) = frame_sequence f"
    "has_freshness (frame_flags f) \<Longrightarrow> word16_at B (end_sequence (frame_flags f)) = frame_freshness_ms f"
    "take (unat (frame_payload_len f)) (drop (payload_at (frame_flags f)) B) = payload_bytes f"
proof -
  obtain y5 where y5: "B = frame_fields major f @ payload_bytes f @ y5" by (simp add: B frame_bytes_def frame_body_def)
  then obtain y3 where y3: "B = upto_sequence major f
      @ (if has_freshness (frame_flags f) then be16 (frame_freshness_ms f) else []) @ y3"
    by (simp add: frame_fields_upto upto_freshness_def)
  then obtain y2 where y2: "B = upto_session major f
      @ (if has_sequence (frame_flags f) then be16 (frame_sequence f) else []) @ y2"
    by (simp add: upto_sequence_def)
  then obtain y1 where y1: "B = upto_destination major f
      @ (if has_session (frame_flags f) then be32 (frame_session_ref f) else []) @ y1"
    by (simp add: upto_session_def)
  then obtain y0 where y0: "B = upto_source major f
      @ (if has_destination (frame_flags f) then be32 (frame_destination_ref f) else []) @ y0"
    by (simp add: upto_destination_def)
  show "word32_at B 2 = frame_source_ref f"
    using word32_at_append [of 2 "[first_byte major (frame_class f), frame_flags f]"] y0 by (simp add: upto_source_def)
  show "has_destination (frame_flags f) \<Longrightarrow> word32_at B 6 = frame_destination_ref f"
    using word32_at_append [OF upto_lengths(1) [symmetric]] y0 by simp
  show "has_session (frame_flags f) \<Longrightarrow> word32_at B (end_destination (frame_flags f)) = frame_session_ref f"
    using word32_at_append [OF upto_lengths(2) [symmetric]] y1 by simp
  show "has_sequence (frame_flags f) \<Longrightarrow> word16_at B (end_session (frame_flags f)) = frame_sequence f"
    using word16_at_append [OF upto_lengths(3) [symmetric]] y2 by simp
  show "has_freshness (frame_flags f) \<Longrightarrow> word16_at B (end_sequence (frame_flags f)) = frame_freshness_ms f"
    using word16_at_append [OF upto_lengths(4) [symmetric]] y3 by simp
  show "take (unat (frame_payload_len f)) (drop (payload_at (frame_flags f)) B) = payload_bytes f"
    unfolding y5 by (simp add: upto_lengths(6) [of major f, symmetric] body_length(1) [OF ok, symmetric])
qed

lemma written_frame:
  assumes ok: "frame_ok f" and major: "major < 2" and B: "B = frame_bytes major f @ rest"
  shows "frame_total B = length (frame_bytes major f)"
    and "length (frame_bytes major f) \<le> n \<Longrightarrow> frame_verdict B n = MCL_LINK_OK"
    and "frame_content (frame_link_major (frame_parsed B g)) (frame_parsed B g) = frame_content major f"
proof -
  note h = written_header [OF assms] and chk = written_check [OF assms] and w = written_fields [OF assms]
  show "frame_total B = length (frame_bytes major f)" by (rule h(6))
  show "frame_verdict B n = MCL_LINK_OK" if n: "length (frame_bytes major f) \<le> n"
  proof -
    have "8 \<le> length (frame_bytes major f)" by (simp add: body_length [OF ok] payload_at_def frame_offsets)
    moreover have "payload_at (frame_flags f) + check_size (frame_flags f) \<le> n"
      using n by (simp add: body_length [OF ok])
    moreover have "\<not> flagged (frame_flags f) MCL_LINK_FLAG_RESERVED" using ok by (simp add: frame_ok_def)
    ultimately show ?thesis
      using n ok major chk
      by (simp add: frame_verdict_def payload_verdict_def h frame_ok_def
          word_le_nat_alt word_less_nat_alt not_le not_less del: One_nat_def)
  qed
  show "frame_content (frame_link_major (frame_parsed B g)) (frame_parsed B g) = frame_content major f"
    by (simp add: frame_content_def frame_parsed_def frame_header_def h w
        payload_bytes_def pointee_def del: One_nat_def)
qed

section \<open>The frame codec as a stream codec\<close>

text \<open>Frames in the form the wire carries them, and the two C functions run on a buffer of the
  largest frame size and on a blank frame.\<close>

definition frame_wire :: "mcl_link_frame \<Rightarrow> bool" where
  "frame_wire f \<longleftrightarrow> frame_ok f \<and> frame_link_major f < 2 \<and> frame_content (frame_link_major f) f = f"

definition blank_frame :: mcl_link_frame where
  "blank_frame = \<lparr>frame_link_major = 0, frame_class = 0, frame_flags = 0, frame_source_ref = 0,
     frame_destination_ref = 0, frame_session_ref = 0, frame_sequence = 0, frame_freshness_ms = 0,
     frame_payload = None, frame_payload_len = 0\<rparr>"

definition frame_emit :: "mcl_link_frame \<Rightarrow> byte list" where
  "frame_emit f = (case mcl_link_frame_encode_at_major (frame_link_major f) (Some f)
       (Some (replicate MCL_LINK_FRAME_MAX_SIZE 0)) MCL_LINK_FRAME_MAX_SIZE (Some 0) of
     Some (MCL_LINK_OK, Some out, Some n) \<Rightarrow> take n out
   | _ \<Rightarrow> [])"

definition frame_accept :: "byte list \<Rightarrow> (mcl_link_frame \<times> nat) option" where
  "frame_accept B = (case mcl_link_frame_decode (Some B) (length B) (Some blank_frame) (Some 0) of
     Some (MCL_LINK_OK, Some f, Some k) \<Rightarrow> Some (frame_content (frame_link_major f) f, k)
   | _ \<Rightarrow> None)"

lemma length_frame_bytes_max: "frame_ok f \<Longrightarrow> length (frame_bytes major f) \<le> MCL_LINK_FRAME_MAX_SIZE"
  by (simp add: length_frame_bytes MCL_LINK_FRAME_MAX_SIZE_def frame_ok_def mcl_link_optional_size_def)

lemma byte_lt_2: "(b :: byte) < 2 \<longleftrightarrow> b = 0 \<or> b = 1"
  using major_known [of b] by (auto simp: word_less_nat_alt word_le_nat_alt)

lemma frame_emit_eq: "frame_ok f \<Longrightarrow> frame_link_major f < 2 \<Longrightarrow>
    frame_emit f = frame_bytes (frame_link_major f) f"
  using length_frame_bytes_max [of f "frame_link_major f"]
  by (simp add: frame_emit_def byte_lt_2 encode_writes)

lemma frame_bytes_content: "frame_bytes major (frame_content major f) = frame_bytes major f"
  by (simp add: frame_bytes_def frame_body_def frame_fields_def frame_content_def payload_bytes_def
      pointee_def)

lemma frame_content_idem: "frame_content major (frame_content major f) = frame_content major f"
  by (simp add: frame_content_def payload_bytes_def pointee_def)

lemma frame_ok_content: "frame_ok f \<Longrightarrow> frame_ok (frame_content major f)"
  by (simp add: frame_ok_def frame_content_def payload_bytes_def pointee_def)

lemma frame_accept_eq: "frame_accept B = (if frame_verdict B (length B) = MCL_LINK_OK
    then Some (frame_content (drop_bit 4 (B ! 0)) (frame_parsed B blank_frame), frame_total B) else None)"
  using decode_verdict [of "length B" B blank_frame 0]
  by (auto simp: frame_accept_def frame_parsed_def frame_header_def split: mcl_link_status.splits)

interpretation frame: stream_codec frame_emit frame_wire frame_accept
proof
  fix f rest assume f: "frame_wire f"
  then have ok: "frame_ok f" "frame_link_major f < 2" "frame_content (frame_link_major f) f = f"
    by (auto simp: frame_wire_def)
  let ?B = "frame_emit f @ rest"
  have B: "?B = frame_bytes (frame_link_major f) f @ rest" using ok by (simp add: frame_emit_eq)
  have m: "frame_link_major (frame_parsed ?B blank_frame) = drop_bit 4 (?B ! 0)"
    by (simp add: frame_parsed_def frame_header_def)
  show "frame_accept ?B = Some (f, length (frame_emit f))"
    using written_frame(1) [OF ok(1,2) B] written_frame(2) [OF ok(1,2) B, of "length ?B"]
      written_frame(3) [OF ok(1,2) B, of blank_frame] ok
    unfolding frame_accept_eq m by (simp add: frame_emit_eq)
  show "frame_emit f \<noteq> []"
    using ok length_frame_bytes [OF ok(1), of "frame_link_major f"] by (auto simp: frame_emit_eq)
next
  fix B x k assume "frame_accept B = Some (x, k)"
  then have v: "frame_verdict B (length B) = MCL_LINK_OK"
    and x: "x = frame_content (drop_bit 4 (B ! 0)) (frame_parsed B blank_frame)" "k = frame_total B"
    by (auto simp: frame_accept_eq split: if_splits)
  note acc = accepted_frame(1,2) [OF v order_refl, of blank_frame] accepted_frame(3,4) [OF v order_refl]
  have m: "frame_link_major x = drop_bit 4 (B ! 0)" by (simp add: x frame_content_def)
  have w: "frame_wire x"
    unfolding frame_wire_def m unfolding x frame_content_idem using acc by (simp add: frame_ok_content)
  then have "frame_emit x = frame_bytes (drop_bit 4 (B ! 0)) x"
    by (simp add: frame_wire_def frame_emit_eq m)
  then show "frame_wire x \<and> k \<le> length B \<and> frame_emit x = take k B"
    using acc w by (simp add: x frame_bytes_content)
qed

section \<open>Frames that carry a body\<close>

definition framed :: "mcl_link_frame \<Rightarrow> byte \<Rightarrow> byte list \<Rightarrow> mcl_link_frame" where
  "framed header cls body = header\<lparr>frame_class := cls, frame_payload := Some body,
     frame_payload_len := of_nat (length body)\<rparr>"

lemma framed_wire:
  assumes "frame_wire header" "cls < 10" "cls \<noteq> 7" "0 < length body" "length body \<le> MCL_LINK_FRAME_MAX_PAYLOAD"
  shows "frame_wire (framed header cls body)" "payload_bytes (framed header cls body) = body"
    "frame_class (framed header cls body) = cls"
proof -
  have u: "unat (of_nat (length body) :: u16) = length body" using assms(5) by (simp add: unat_of_nat)
  show p: "payload_bytes (framed header cls body) = body" by (simp add: payload_bytes_def framed_def pointee_def u)
  show "frame_class (framed header cls body) = cls" by (simp add: framed_def)
  have "frame_ok (framed header cls body)"
    using assms u by (auto simp: frame_wire_def frame_ok_def framed_def pointee_def)
  moreover have "of_nat (length body) \<noteq> (0 :: u16)" using assms(4) u by auto
  then have "frame_content (frame_link_major header) (framed header cls body) = framed header cls body"
    using assms(1) p unfolding frame_wire_def frame_content_def
    by (cases header) (simp add: framed_def split: if_splits)
  moreover have "frame_link_major (framed header cls body) = frame_link_major header" by (simp add: framed_def)
  ultimately show "frame_wire (framed header cls body)" using assms(1) by (simp add: frame_wire_def)
qed

section \<open>Properties\<close>

definition sample_frame :: mcl_link_frame where
  "sample_frame = \<lparr>frame_link_major = 0, frame_class = 3, frame_flags = 0x17,
     frame_source_ref = 0x01020304, frame_destination_ref = 0x0A0B0C0D, frame_session_ref = 7,
     frame_sequence = 0xFFFF, frame_freshness_ms = 0, frame_payload = Some [1, 2, 3, 4],
     frame_payload_len = 3\<rparr>"

lemma sample_frame_ok [simp]: "frame_ok sample_frame"
  by (simp add: frame_ok_def sample_frame_def flagged_def pointee_def)

lemma length_sample_frame [simp]: "length (frame_bytes m sample_frame) = 25"
  by (simp add: length_frame_bytes) (simp add: sample_frame_def mcl_link_optional_size_def flagged_def)

lemma encodable_cases: "mcl_link_frame_encodable (Some f) = 0 \<or> mcl_link_frame_encodable (Some f) = 1"
  by (simp add: mcl_link_frame_encodable_def)

lemma encodable_ok: "mcl_link_frame_encodable (Some f) \<noteq> 0 \<longleftrightarrow> frame_class f < 10 \<and> frame_class f \<noteq> 7
    \<and> \<not> flagged (frame_flags f) MCL_LINK_FLAG_RESERVED \<and> unat (frame_payload_len f) \<le> 1024
    \<and> (frame_payload_len f \<noteq> 0 \<longrightarrow> frame_payload f \<noteq> None)"
  by (auto simp: mcl_link_frame_encodable_def)

text \<open>C3: The frame encoder, on every branch. Given a payload pointer that covers the declared
  length and a buffer of at least \<open>out_capacity\<close> bytes it never writes out of bounds; it refuses an
  unknown major, an unencodable frame or too small a capacity without touching the buffer or the
  count; otherwise it writes exactly the bytes of the frame, leaves every byte after them as it was
  and reports their number, which is what \<open>mcl_link_frame_encoded_size\<close> predicts.\<close>

theorem frame_encode_exact:
  assumes payload: "\<And>bs. frame_payload f = Some bs \<Longrightarrow> unat (frame_payload_len f) \<le> length bs"
    and cap: "cap \<le> length buf"
  shows "mcl_link_frame_encode_at_major major (Some f) (Some buf) cap (Some w) = Some
    (if 1 < major then (MCL_LINK_ERR_INCOMPATIBLE_VERSION, Some buf, Some w)
     else if mcl_link_frame_encodable (Some f) = 0 \<or> cap < mcl_link_frame_encoded_size (Some f)
     then (MCL_LINK_ERR_RANGE, Some buf, Some w)
     else (MCL_LINK_OK, Some (frame_bytes major f @ drop (length (frame_bytes major f)) buf),
           Some (length (frame_bytes major f))))
    \<and> (mcl_link_frame_encodable (Some f) \<noteq> 0
        \<longrightarrow> mcl_link_frame_encoded_size (Some f) = length (frame_bytes major f))"
proof (cases "mcl_link_frame_encodable (Some f) = 0")
  case True
  then show ?thesis by (auto simp: mcl_link_frame_encode_at_major_def major_known)
next
  case False
  have "unat (frame_payload_len f) \<le> length (pointee (frame_payload f))"
    using False payload by (cases "frame_payload f") (auto simp: encodable_ok pointee_def)
  with False have ok: "frame_ok f" by (simp add: encodable_ok frame_ok_def)
  show ?thesis
  proof (cases "1 < major \<or> cap < mcl_link_frame_encoded_size (Some f)")
    case True
    with False show ?thesis
      by (auto simp: mcl_link_frame_encode_at_major_def major_known encoded_size_eq [OF ok])
  next
    case fits: False
    then have "major = 0 \<or> major = 1" using major_known [of major] by blast
    then show ?thesis
      using fits False encode_writes [OF ok, of major cap buf w] cap
      by (auto simp: encoded_size_eq [OF ok, of major] over_def)
  qed
qed

theorem frame_encode_exact_witness:
  "mcl_link_frame_encode_at_major 1 (Some sample_frame) (Some (replicate 30 0xEE)) 30 (Some 99)
     = Some (MCL_LINK_OK, Some (frame_bytes 1 sample_frame @ replicate 5 0xEE), Some 25)"
  using frame_encode_exact [of sample_frame 30 "replicate 30 0xEE" 1 99]
  by (simp add: frame_ok_encodable encoded_size_eq [of _ 1]) (simp add: sample_frame_def)

text \<open>C1: Round trip through the buffer. Whatever the encoder accepts at either major, decoding the
  bytes it wrote, followed by anything at all, succeeds, reports exactly the bytes written as
  consumed, and returns a frame with the same content: the same class, flags, references, selected
  optional fields and payload bytes, the unselected fields zeroed and the major set.\<close>

theorem frame_roundtrip:
  assumes ok: "frame_ok f"
    and enc: "mcl_link_frame_encode_at_major major (Some f) (Some buf) cap (Some w)
      = Some (MCL_LINK_OK, Some out, Some n)" and cap: "cap \<le> length buf"
  shows "\<exists>g. mcl_link_frame_decode (Some (take n out @ rest)) (n + length rest) (Some h) (Some c)
      = Some (MCL_LINK_OK, Some g, Some n)
    \<and> frame_link_major g = major \<and> frame_content major g = frame_content major f"
proof -
  have major: "major = 0 \<or> major = 1" and fits: "length (frame_bytes major f) \<le> cap"
    using enc by (auto simp: mcl_link_frame_encode_at_major_def frame_ok_encodable [OF ok]
        encoded_size_eq [OF ok, of major] split: if_splits)
  have n: "n = length (frame_bytes major f)" and "out = over (frame_bytes major f) buf"
    using enc encode_writes [OF ok major fits cap, of w] by auto
  then have "take n out = frame_bytes major f" by (simp only: take_over)
  note out = this n
  let ?B = "take n out @ rest"
  have m: "major < 2" using major by (simp add: byte_lt_2)
  have B: "?B = frame_bytes major f @ rest" by (simp only: out(1))
  have v: "frame_verdict ?B (n + length rest) = MCL_LINK_OK" "frame_total ?B = n"
    using written_frame(1,2) [OF ok m B] n by auto
  have lm: "frame_link_major (frame_parsed ?B h) = major"
    using arg_cong [OF written_frame(3) [OF ok m B, of h], of frame_link_major]
    by (simp add: frame_content_def)
  have "n + length rest \<le> length ?B" unfolding B by (simp add: n)
  from decode_verdict [OF this, of h c] v
  have "mcl_link_frame_decode (Some ?B) (n + length rest) (Some h) (Some c)
      = Some (MCL_LINK_OK, Some (frame_parsed ?B h), Some n)" by auto
  then show ?thesis using written_frame(3) [OF ok m B, of h] lm by auto
qed

theorem frame_roundtrip_witness:
  "\<exists>out n. mcl_link_frame_encode_at_major 1 (Some sample_frame) (Some (replicate 30 0)) 30 (Some 0)
      = Some (MCL_LINK_OK, Some out, Some n)
    \<and> (\<exists>g. mcl_link_frame_decode (Some (take n out @ [1, 2])) (n + length [1, 2 :: byte])
          (Some blank_frame) (Some 0) = Some (MCL_LINK_OK, Some g, Some n)
        \<and> frame_link_major g = 1 \<and> frame_content 1 g = frame_content 1 sample_frame)"
proof -
  have e: "mcl_link_frame_encode_at_major 1 (Some sample_frame) (Some (replicate 30 0)) 30 (Some 0)
      = Some (MCL_LINK_OK, Some (over (frame_bytes 1 sample_frame) (replicate 30 0)), Some 25)"
    using encode_writes [of sample_frame 1 30 "replicate 30 0" 0] by simp
  show ?thesis
    by (rule exI, rule exI, rule conjI [OF e], rule frame_roundtrip [OF sample_frame_ok e]) simp
qed

text \<open>C2: The decoder never reads outside the buffer and never accepts a second spelling. On any \<open>n\<close>
  bytes it returns a status; when it refuses, the consumed count is as it was; when it accepts, it
  has consumed at most \<open>n\<close> bytes, the frame it returns is one the encoder accepts at that major, and
  encoding that frame gives back exactly the bytes consumed.\<close>

theorem frame_decode_canonical:
  assumes n: "n \<le> length B"
  shows "\<exists>st g k. mcl_link_frame_decode (Some B) n (Some f) (Some c) = Some (st, Some g, Some k)
    \<and> (st \<noteq> MCL_LINK_OK \<longrightarrow> k = c)
    \<and> (st = MCL_LINK_OK \<longrightarrow> k \<le> n \<and> mcl_link_frame_encode_at_major (frame_link_major g) (Some g)
          (Some (replicate k 0)) k (Some 0) = Some (MCL_LINK_OK, Some (take k B), Some k))"
proof -
  from decode_verdict [OF n, of f c] obtain g where
    d: "mcl_link_frame_decode (Some B) n (Some f) (Some c) = Some (frame_verdict B n, Some g,
        Some (if frame_verdict B n = MCL_LINK_OK then frame_total B else c))"
    and g: "frame_verdict B n = MCL_LINK_OK \<longrightarrow> g = frame_parsed B f" by auto
  have "frame_total B \<le> n \<and> mcl_link_frame_encode_at_major (frame_link_major g) (Some g)
      (Some (replicate (frame_total B) 0)) (frame_total B) (Some 0)
        = Some (MCL_LINK_OK, Some (take (frame_total B) B), Some (frame_total B))"
    if ok: "frame_verdict B n = MCL_LINK_OK"
  proof -
    note acc = accepted_frame(1,2) [OF ok n, of f] accepted_frame(3,4) [OF ok n]
    have gp: "g = frame_parsed B f" using g ok by simp
    have m: "frame_link_major (frame_parsed B f) = drop_bit 4 (B ! 0)"
      by (simp add: frame_parsed_def frame_header_def)
    have l: "length (frame_bytes (drop_bit 4 (B ! 0)) (frame_parsed B f)) = frame_total B"
      using acc(3) n by (simp flip: acc(1))
    have mm: "drop_bit 4 (B ! 0) = 0 \<or> drop_bit 4 (B ! 0) = 1" using acc(4) byte_lt_2 by blast
    have o: "over (take (frame_total B) B) (replicate (frame_total B) 0) = take (frame_total B) B"
      using acc(3) n by (simp add: over_def)
    show ?thesis
      unfolding gp m using encode_writes [OF acc(2) mm, of "frame_total B" "replicate (frame_total B) 0" 0]
      acc(3) n by (simp add: l acc(1) [symmetric] o del: One_nat_def)
  qed
  with d show ?thesis by auto
qed

theorem frame_decode_canonical_witness:
  "\<exists>st g k. mcl_link_frame_decode (Some [0x13, 0, 0, 0, 0, 1, 0, 1, 9, 5]) 10 (Some blank_frame) (Some 0)
      = Some (st, Some g, Some k)
    \<and> (st \<noteq> MCL_LINK_OK \<longrightarrow> k = 0)
    \<and> (st = MCL_LINK_OK \<longrightarrow> k \<le> 10 \<and> mcl_link_frame_encode_at_major (frame_link_major g) (Some g)
          (Some (replicate k 0)) k (Some 0)
        = Some (MCL_LINK_OK, Some (take k [0x13, 0, 0, 0, 0, 1, 0, 1, 9, 5]), Some k))"
  by (rule frame_decode_canonical) simp

lemma verdict_cut:
  assumes ok: "frame_verdict B n = MCL_LINK_OK" and j: "j < frame_total B"
  shows "frame_verdict B j = MCL_LINK_ERR_TRUNCATED"
  using assms by (auto simp: frame_verdict_def payload_verdict_def split: if_splits)

lemma verdict_stable:
  assumes "frame_verdict B n \<noteq> MCL_LINK_ERR_TRUNCATED" "n \<le> m"
  shows "frame_verdict B m = frame_verdict B n"
  using assms by (auto simp: frame_verdict_def payload_verdict_def split: if_splits)

lemma verdict_total:
  assumes "frame_verdict B n = MCL_LINK_OK" "frame_total B \<le> m"
  shows "frame_verdict B m = MCL_LINK_OK"
  using assms by (auto simp: frame_verdict_def payload_verdict_def frame_total_def payload_at_def
      frame_offsets split: if_splits)

text \<open>C4: Feeding a stream. If decoding \<open>n\<close> bytes yields a frame of \<open>k\<close> bytes, then every shorter
  prefix of those \<open>k\<close> bytes is reported as truncated and leaves the count alone, and every longer
  prefix of the stream yields the same frame and the same count, whatever follows it.\<close>

theorem frame_decode_incremental:
  assumes dec: "mcl_link_frame_decode (Some B) n (Some f) (Some c) = Some (MCL_LINK_OK, Some g, Some k)"
    and n: "n \<le> length B"
  shows "(\<forall>j < k. \<exists>h. mcl_link_frame_decode (Some B) j (Some f) (Some c)
        = Some (MCL_LINK_ERR_TRUNCATED, Some h, Some c))
    \<and> (\<forall>m. k \<le> m \<and> m \<le> length B \<longrightarrow> mcl_link_frame_decode (Some B) m (Some f) (Some c)
        = Some (MCL_LINK_OK, Some g, Some k))"
proof -
  have v: "frame_verdict B n = MCL_LINK_OK" "g = frame_parsed B f" "k = frame_total B"
    using decode_verdict [OF n, of f c] dec by auto
  have k: "k \<le> n" using accepted_frame(3) [OF v(1) n] v(3) by simp
  show ?thesis
  proof (intro conjI allI impI)
    fix j assume "j < k"
    then have "frame_verdict B j = MCL_LINK_ERR_TRUNCATED" "j \<le> length B"
      using verdict_cut [OF v(1)] v(3) k n by auto
    then show "\<exists>h. mcl_link_frame_decode (Some B) j (Some f) (Some c)
        = Some (MCL_LINK_ERR_TRUNCATED, Some h, Some c)"
      using decode_verdict [of j B f c] by auto
  next
    fix m assume m: "k \<le> m \<and> m \<le> length B"
    then have "frame_verdict B m = MCL_LINK_OK" using verdict_total [OF v(1)] v(3) by simp
    with m v show "mcl_link_frame_decode (Some B) m (Some f) (Some c)
        = Some (MCL_LINK_OK, Some g, Some k)"
      using decode_verdict [of m B f c] by auto
  qed
qed

definition sample_wire :: "byte list" where
  "sample_wire = [0x13, 0x04, 0, 0, 0, 1, 0, 9, 0, 1, 42]"

lemma sample_wire_verdict: "frame_verdict (sample_wire @ [5, 6]) 12 = MCL_LINK_OK"
    and sample_wire_total: "frame_total (sample_wire @ [5, 6]) = 11"
  by (simp_all add: sample_wire_def frame_verdict_def payload_verdict_def frame_total_def
      payload_at_def check_size_def declared_length_def frame_offsets flagged_def word16_at_def
      of_be16_def check_matches_def)

theorem frame_decode_incremental_witness:
  "\<exists>g. mcl_link_frame_decode (Some (sample_wire @ [5, 6])) 12 (Some blank_frame) (Some 0)
        = Some (MCL_LINK_OK, Some g, Some 11)
    \<and> (\<forall>j < 11. \<exists>h. mcl_link_frame_decode (Some (sample_wire @ [5, 6])) j (Some blank_frame) (Some 0)
        = Some (MCL_LINK_ERR_TRUNCATED, Some h, Some 0))
    \<and> (\<forall>m. 11 \<le> m \<and> m \<le> length (sample_wire @ [5, 6])
        \<longrightarrow> mcl_link_frame_decode (Some (sample_wire @ [5, 6])) m (Some blank_frame) (Some 0)
        = Some (MCL_LINK_OK, Some g, Some 11))"
proof -
  have n: "12 \<le> length (sample_wire @ [5, 6])" by (simp add: sample_wire_def)
  from decode_verdict [OF n, of blank_frame 0]
  obtain g where g: "mcl_link_frame_decode (Some (sample_wire @ [5, 6])) 12 (Some blank_frame) (Some 0)
      = Some (MCL_LINK_OK, Some g, Some 11)"
    using sample_wire_verdict sample_wire_total by auto
  from g frame_decode_incremental [OF g n] show ?thesis by blast
qed

text \<open>A refusal other than truncation is final: once \<open>n\<close> bytes have been refused for their
  version, their range or their frame check, the same status comes back for every longer prefix, so
  a receiver may drop the connection without waiting for more.\<close>

lemma frame_refusal_final:
  assumes dec: "mcl_link_frame_decode (Some B) n (Some f) (Some c) = Some (st, g, k)"
    and st: "st \<noteq> MCL_LINK_ERR_TRUNCATED" and n: "n \<le> m" "m \<le> length B"
  shows "\<exists>g' k'. mcl_link_frame_decode (Some B) m (Some f) (Some c) = Some (st, g', k')"
proof -
  have "n \<le> length B" using n by simp
  then have "frame_verdict B n = st" using decode_verdict [of n B f c] dec by auto
  then have "frame_verdict B m = st" using verdict_stable [of B n m] st n(1) by simp
  then show ?thesis using decode_verdict [OF n(2), of f c] by auto
qed

theorem frame_refusal_final_witness:
  "\<exists>g k g' k'. mcl_link_frame_decode (Some [0x27, 0, 0, 0, 0, 0, 0, 0, 1, 2]) 8 (Some blank_frame) (Some 0)
      = Some (MCL_LINK_ERR_INCOMPATIBLE_VERSION, g, k)
    \<and> mcl_link_frame_decode (Some [0x27, 0, 0, 0, 0, 0, 0, 0, 1, 2]) 10 (Some blank_frame) (Some 0)
      = Some (MCL_LINK_ERR_INCOMPATIBLE_VERSION, g', k')"
proof -
  have d: "mcl_link_frame_decode (Some [0x27, 0, 0, 0, 0, 0, 0, 0, 1, 2]) 8 (Some blank_frame) (Some 0)
      = Some (MCL_LINK_ERR_INCOMPATIBLE_VERSION, Some blank_frame, Some 0)"
    by (simp add: mcl_link_frame_decode_def)
  from d frame_refusal_final [OF d, of 10] show ?thesis by simp
qed

text \<open>Frames sent back to back on one byte stream can be cut apart in one way only: two
  sequences of wire frames are turned into the same bytes by the encoder exactly if they are the
  same sequence.\<close>

lemma frame_stream_unambiguous:
  assumes "\<forall>f \<in> set fs. frame_wire f" and "\<forall>g \<in> set gs. frame_wire g"
  shows "concat (map frame_emit fs) = concat (map frame_emit gs) \<longleftrightarrow> fs = gs"
  using frame.stream_unique [OF assms] by auto

text \<open>C5: A corrupted frame with a check is never accepted. Take the bytes of any encoded frame that
  carries the frame check and overwrite a window of at most four of them, not touching the first
  two bytes, the payload length or the check itself: if any byte changed, the decoder answers
  \<open>MCL_LINK_ERR_FRAME_CHECK\<close> and the consumed count is as it was.\<close>

theorem frame_corruption_detected:
  assumes ok: "frame_ok f" and major: "major < 2" and chk: "has_check (frame_flags f)"
    and bytes: "frame_bytes major f = pre @ w @ post" and w: "length w = length w'" "length w \<le> 4" "w \<noteq> w'"
    and window: "2 \<le> length pre" "4 \<le> length post"
      "length (pre @ w) \<le> end_freshness (frame_flags f) \<or> payload_at (frame_flags f) \<le> length pre"
  shows "\<exists>g. mcl_link_frame_decode (Some (pre @ w' @ post @ rest)) (length (pre @ w' @ post @ rest))
      (Some h) (Some c) = Some (MCL_LINK_ERR_FRAME_CHECK, Some g, Some c)"
proof -
  let ?fl = "frame_flags f"
  define B where "B = frame_bytes major f @ rest"
  define C where "C = pre @ w' @ post @ rest"
  have B: "B = pre @ w @ post @ rest" by (simp add: B_def bytes)
  have lBC: "length C = length B" by (simp add: B C_def w)
  note wr = written_frame(1,2) [OF ok major B_def]
  have v: "frame_verdict B (length B) = MCL_LINK_OK" by (rule wr(2)) (simp add: B_def)
  have t: "frame_total B = length (pre @ w @ post)" using wr(1) by (simp add: bytes)
  have same: "C ! i = B ! i" if "i < length pre \<or> length (pre @ w) \<le> i" for i
    using that by (auto simp: B C_def nth_append w)
  have b0: "C ! 0 = B ! 0" and b1: "C ! 1 = B ! 1"
    by (rule same, use window(1) in linarith)+
  have fl: "B ! 1 = ?fl" by (simp add: B_def frame_bytes_def frame_body_def frame_fields_def)
  have "word16_at C (end_freshness ?fl) = word16_at B (end_freshness ?fl)"
    using window(3) by (auto simp: word16_at_def same payload_at_def)
  then have dl: "declared_length C = declared_length B" unfolding declared_length_def b1 fl .
  then have tC: "frame_total C = frame_total B" unfolding frame_total_def b1 by simp
  obtain mid tail where post: "post = mid @ tail" "length tail = 4"
    using window(2) by (metis append_take_drop_id diff_diff_cancel length_drop)
  have tm: "frame_total B - 4 = length (pre @ w @ mid)" by (simp add: t post)
  have crc: "crc32_of (take (frame_total B - 4) C) \<noteq> crc32_of (take (frame_total B - 4) B)"
    using crc32_burst [OF w, of pre mid] unfolding tm by (simp add: C_def B post w(1))
  have chkB: "word32_at B (frame_total B - 4) = crc32_of (take (frame_total B - 4) B)"
    using v chk by (auto simp: frame_verdict_def payload_verdict_def check_matches_def fl simp del: One_nat_def split: if_splits)
  have "word32_at C (frame_total B - 4) = word32_at B (frame_total B - 4)"
    by (simp add: word32_at_def same tm)
  then have bad: "\<not> check_matches C"
    using crc chkB chk by (simp add: check_matches_def b1 fl tC del: One_nat_def)
  have "frame_verdict C (length C) = MCL_LINK_ERR_FRAME_CHECK"
    using v bad by (auto simp: frame_verdict_def payload_verdict_def b0 b1 dl tC lBC simp del: One_nat_def split: if_splits)
  then show ?thesis using decode_verdict [of "length C" C h c] by (auto simp: C_def)
qed

theorem frame_corruption_detected_witness:
  "\<exists>g. mcl_link_frame_decode
      (Some (take 20 (frame_bytes 0 sample_frame) @ [0x55] @ drop 21 (frame_bytes 0 sample_frame) @ []))
      (length (take 20 (frame_bytes 0 sample_frame) @ [0x55] @ drop 21 (frame_bytes 0 sample_frame) @ []))
      (Some blank_frame) (Some 0) = Some (MCL_LINK_ERR_FRAME_CHECK, Some g, Some 0)"
proof -
  let ?b = "frame_bytes 0 sample_frame"
  have "?b = take 20 ?b @ [?b ! 20] @ drop 21 ?b"
    using id_take_nth_drop [of 20 ?b] by simp
  moreover have "?b ! 20 = 3"
    by (simp add: frame_bytes_def frame_body_def frame_fields_def payload_bytes_def sample_frame_def
        flagged_def be32_def be16_def pointee_def nth_append)
  ultimately have "?b = take 20 ?b @ [3] @ drop 21 ?b" by simp
  then show ?thesis
    by (intro frame_corruption_detected [where f = sample_frame and major = 0 and w = "[3]"])
      (simp_all add: flagged_def frame_offsets payload_at_def, simp_all add: sample_frame_def)
qed

text \<open>Truncation is not a promise. Fewer than eight bytes are reported as truncated even where
  their first byte already rules every frame out: no continuation of a buffer starting with an
  unknown major is ever accepted, nor one starting with a class the decoder reserves.\<close>

lemma frame_truncated_hopeless:
  "(\<exists>g. mcl_link_frame_decode (Some [b]) 1 (Some f) (Some c) = Some (MCL_LINK_ERR_TRUNCATED, Some g, Some c))
    \<and> (\<forall>rest st g k. (1 < drop_bit 4 b \<or> b AND 15 = 7)
        \<and> mcl_link_frame_decode (Some (b # rest)) (length (b # rest)) (Some f) (Some c) = Some (st, g, k)
        \<longrightarrow> st \<noteq> MCL_LINK_OK)"
proof (intro conjI allI impI)
  show "\<exists>g. mcl_link_frame_decode (Some [b]) 1 (Some f) (Some c) = Some (MCL_LINK_ERR_TRUNCATED, Some g, Some c)"
    by (simp add: mcl_link_frame_decode_def)
next
  fix rest st g k assume h: "(1 < drop_bit 4 b \<or> b AND 15 = 7)
      \<and> mcl_link_frame_decode (Some (b # rest)) (length (b # rest)) (Some f) (Some c) = Some (st, g, k)"
  then have "st = frame_verdict (b # rest) (length (b # rest))"
    using decode_verdict [OF order_refl, of "b # rest" f c] by auto
  then show "st \<noteq> MCL_LINK_OK" using h by (auto simp: frame_verdict_def)
qed

text \<open>An unknown major has a status of its own, which is neither that of a short buffer nor that of a frame
  that can never become valid for another reason.\<close>

lemma frame_unknown_major:
  assumes "8 \<le> length B" "1 < drop_bit 4 (B ! 0)"
  shows "\<exists>g. mcl_link_frame_decode (Some B) (length B) (Some f) (Some c)
    = Some (MCL_LINK_ERR_INCOMPATIBLE_VERSION, Some g, Some c)"
  using decode_verdict [OF order_refl, of B f c] assms by (auto simp: frame_verdict_def)

end
