(* ===== verification/Mcl_Control.thy ===== *)
theory Mcl_Control
  imports Mcl_Codec
begin

text \<open>
  The control bodies of \<open>src/control.c\<close>: acknowledgement, refusal, close, keepalive, and the window
  test on sequence numbers. Bodies have an exact length; an ACK and a NACK share one layout and
  are told apart by the class of the frame that carries them (\<open>is_ack\<close>).

  The three codecs are interpretations of \<open>message_codec\<close> on the C functions; the window test is
  related to the unbounded ordinals of the frames whose 16-bit sequence numbers it sees.
\<close>

abbreviation (input) MCL_LINK_CONTROL_VERSION :: byte where "MCL_LINK_CONTROL_VERSION \<equiv> 0"
abbreviation (input) MCL_LINK_ACK_SIZE :: nat where "MCL_LINK_ACK_SIZE \<equiv> 4"
abbreviation (input) MCL_LINK_CLOSE_SIZE :: nat where "MCL_LINK_CLOSE_SIZE \<equiv> 2"
abbreviation (input) MCL_LINK_KEEPALIVE_SIZE :: nat where "MCL_LINK_KEEPALIVE_SIZE \<equiv> 0"
abbreviation (input) MCL_LINK_NACK_RESERVED :: byte where "MCL_LINK_NACK_RESERVED \<equiv> 0"
abbreviation (input) MCL_LINK_NACK_REASON_COUNT :: byte where "MCL_LINK_NACK_REASON_COUNT \<equiv> 6"
abbreviation (input) MCL_LINK_CLOSE_RESERVED :: byte where "MCL_LINK_CLOSE_RESERVED \<equiv> 0"
abbreviation (input) MCL_LINK_CLOSE_REASON_COUNT :: byte where "MCL_LINK_CLOSE_REASON_COUNT \<equiv> 5"
abbreviation (input) MCL_LINK_SEQUENCE_WINDOW_MAX :: u16 where "MCL_LINK_SEQUENCE_WINDOW_MAX \<equiv> 16384"

record mcl_link_ack =
  ack_control_version :: byte
  ack_reason :: byte
  ack_acked_sequence :: u16

record mcl_link_close =
  close_control_version :: byte
  close_reason :: byte

section \<open>Operations\<close>

definition mcl_control_put_u8 :: "byte list \<Rightarrow> nat \<Rightarrow> byte \<Rightarrow> byte list option" where
  "mcl_control_put_u8 buf off v = wr buf off v"

definition mcl_control_put_u16 :: "byte list \<Rightarrow> nat \<Rightarrow> u16 \<Rightarrow> byte list option" where
  "mcl_control_put_u16 buf off v = do {
     b1 \<leftarrow> wr buf off (ucast (drop_bit 8 v AND 0xFF));
     wr b1 (off + 1) (ucast (v AND 0xFF)) }"

definition mcl_control_get_u16 :: "byte list \<Rightarrow> u16 option" where
  "mcl_control_get_u16 p = do {
     a \<leftarrow> rd p 0;
     b \<leftarrow> rd p 1;
     Some (push_bit 8 (ucast a) OR ucast b) }"

interpretation control16: be_port mcl_control_put_u16 mcl_control_get_u16 be16 2
  by (rule be_port_16) (simp_all add: mcl_control_put_u16_def mcl_control_get_u16_def of_be16_def)

definition mcl_link_exact_length :: "nat \<Rightarrow> nat \<Rightarrow> mcl_link_status" where
  "mcl_link_exact_length data_size expected =
     (if data_size < expected then MCL_LINK_ERR_TRUNCATED
      else if data_size > expected then MCL_LINK_ERR_RANGE
      else MCL_LINK_OK)"

definition mcl_link_make_ack ::
  "mcl_link_ack option \<Rightarrow> u16 \<Rightarrow> mcl_link_status \<times> mcl_link_ack option" where
  "mcl_link_make_ack ack acked_sequence = (case ack of
     None \<Rightarrow> (MCL_LINK_ERR_INVALID_ARGUMENT, None)
   | Some a \<Rightarrow> (MCL_LINK_OK, Some (a\<lparr>ack_control_version := MCL_LINK_CONTROL_VERSION,
                  ack_reason := 0, ack_acked_sequence := acked_sequence\<rparr>)))"

definition mcl_link_make_nack ::
  "mcl_link_ack option \<Rightarrow> u16 \<Rightarrow> byte \<Rightarrow> mcl_link_status \<times> mcl_link_ack option" where
  "mcl_link_make_nack nack acked_sequence reason = (case nack of
     None \<Rightarrow> (MCL_LINK_ERR_INVALID_ARGUMENT, None)
   | Some a \<Rightarrow>
       if reason = MCL_LINK_NACK_RESERVED \<or> reason \<ge> MCL_LINK_NACK_REASON_COUNT
       then (MCL_LINK_ERR_INVALID_ARGUMENT, nack)
       else (MCL_LINK_OK, Some (a\<lparr>ack_control_version := MCL_LINK_CONTROL_VERSION,
               ack_reason := reason, ack_acked_sequence := acked_sequence\<rparr>)))"

definition mcl_link_make_close ::
  "mcl_link_close option \<Rightarrow> byte \<Rightarrow> mcl_link_status \<times> mcl_link_close option" where
  "mcl_link_make_close close_control reason = (case close_control of
     None \<Rightarrow> (MCL_LINK_ERR_INVALID_ARGUMENT, None)
   | Some c \<Rightarrow>
       if reason = MCL_LINK_CLOSE_RESERVED \<or> reason \<ge> MCL_LINK_CLOSE_REASON_COUNT
       then (MCL_LINK_ERR_INVALID_ARGUMENT, close_control)
       else (MCL_LINK_OK, Some (c\<lparr>close_control_version := MCL_LINK_CONTROL_VERSION,
               close_reason := reason\<rparr>)))"

definition mcl_link_ack_encode ::
  "mcl_link_ack option \<Rightarrow> byte \<Rightarrow> byte list option \<Rightarrow> nat \<Rightarrow> nat option
    \<Rightarrow> (mcl_link_status \<times> byte list option \<times> nat option) option" where
  "mcl_link_ack_encode ack is_ack out capacity written = (case (ack, out, written) of
     (Some a, Some buf, Some _) \<Rightarrow>
       if ack_control_version a \<noteq> MCL_LINK_CONTROL_VERSION
       then Some (MCL_LINK_ERR_INCOMPATIBLE_VERSION, out, written)
       else if (if is_ack \<noteq> 0 then ack_reason a \<noteq> 0
                else ack_reason a = MCL_LINK_NACK_RESERVED \<or> ack_reason a \<ge> MCL_LINK_NACK_REASON_COUNT)
       then Some (MCL_LINK_ERR_INVALID_ARGUMENT, out, written)
       else if capacity < MCL_LINK_ACK_SIZE then Some (MCL_LINK_ERR_RANGE, out, written)
       else do {
         buf \<leftarrow> mcl_control_put_u8 buf 0 (ack_control_version a);
         buf \<leftarrow> mcl_control_put_u8 buf 1 (ack_reason a);
         buf \<leftarrow> mcl_control_put_u16 buf 2 (ack_acked_sequence a);
         Some (MCL_LINK_OK, Some buf, Some MCL_LINK_ACK_SIZE) }
   | _ \<Rightarrow> Some (MCL_LINK_ERR_INVALID_ARGUMENT, out, written))"

definition mcl_link_ack_decode ::
  "byte list option \<Rightarrow> nat \<Rightarrow> byte \<Rightarrow> mcl_link_ack option
    \<Rightarrow> (mcl_link_status \<times> mcl_link_ack option) option" where
  "mcl_link_ack_decode data data_size is_ack ack = (case (data, ack) of
     (Some d, Some a) \<Rightarrow>
       let status = mcl_link_exact_length data_size MCL_LINK_ACK_SIZE in
       if status \<noteq> MCL_LINK_OK then Some (status, ack)
       else do {
         version \<leftarrow> rd d 0;
         if version \<noteq> MCL_LINK_CONTROL_VERSION then Some (MCL_LINK_ERR_INCOMPATIBLE_VERSION, ack)
         else do {
           reason \<leftarrow> rd d 1;
           if (if is_ack \<noteq> 0 then reason \<noteq> 0
               else reason = MCL_LINK_NACK_RESERVED \<or> reason \<ge> MCL_LINK_NACK_REASON_COUNT)
           then Some (MCL_LINK_ERR_RANGE, ack)
           else do {
             acked \<leftarrow> mcl_control_get_u16 (drop 2 d);
             Some (MCL_LINK_OK, Some (a\<lparr>ack_control_version := version, ack_reason := reason,
               ack_acked_sequence := acked\<rparr>)) } } }
   | _ \<Rightarrow> Some (MCL_LINK_ERR_INVALID_ARGUMENT, ack))"

definition mcl_link_close_encode ::
  "mcl_link_close option \<Rightarrow> byte list option \<Rightarrow> nat \<Rightarrow> nat option
    \<Rightarrow> (mcl_link_status \<times> byte list option \<times> nat option) option" where
  "mcl_link_close_encode close_control out capacity written = (case (close_control, out, written) of
     (Some c, Some buf, Some _) \<Rightarrow>
       if close_control_version c \<noteq> MCL_LINK_CONTROL_VERSION
       then Some (MCL_LINK_ERR_INCOMPATIBLE_VERSION, out, written)
       else if close_reason c = MCL_LINK_CLOSE_RESERVED \<or> close_reason c \<ge> MCL_LINK_CLOSE_REASON_COUNT
       then Some (MCL_LINK_ERR_INVALID_ARGUMENT, out, written)
       else if capacity < MCL_LINK_CLOSE_SIZE then Some (MCL_LINK_ERR_RANGE, out, written)
       else do {
         buf \<leftarrow> mcl_control_put_u8 buf 0 (close_control_version c);
         buf \<leftarrow> mcl_control_put_u8 buf 1 (close_reason c);
         Some (MCL_LINK_OK, Some buf, Some MCL_LINK_CLOSE_SIZE) }
   | _ \<Rightarrow> Some (MCL_LINK_ERR_INVALID_ARGUMENT, out, written))"

definition mcl_link_close_decode ::
  "byte list option \<Rightarrow> nat \<Rightarrow> mcl_link_close option
    \<Rightarrow> (mcl_link_status \<times> mcl_link_close option) option" where
  "mcl_link_close_decode data data_size close_control = (case (data, close_control) of
     (Some d, Some c) \<Rightarrow>
       let status = mcl_link_exact_length data_size MCL_LINK_CLOSE_SIZE in
       if status \<noteq> MCL_LINK_OK then Some (status, close_control)
       else do {
         version \<leftarrow> rd d 0;
         if version \<noteq> MCL_LINK_CONTROL_VERSION
         then Some (MCL_LINK_ERR_INCOMPATIBLE_VERSION, close_control)
         else do {
           reason \<leftarrow> rd d 1;
           if reason = MCL_LINK_CLOSE_RESERVED \<or> reason \<ge> MCL_LINK_CLOSE_REASON_COUNT
           then Some (MCL_LINK_ERR_RANGE, close_control)
           else Some (MCL_LINK_OK, Some (c\<lparr>close_control_version := version, close_reason := reason\<rparr>)) } }
   | _ \<Rightarrow> Some (MCL_LINK_ERR_INVALID_ARGUMENT, close_control))"

definition mcl_link_keepalive_check :: "nat \<Rightarrow> mcl_link_status" where
  "mcl_link_keepalive_check payload_len =
     (if payload_len \<noteq> MCL_LINK_KEEPALIVE_SIZE then MCL_LINK_ERR_RANGE else MCL_LINK_OK)"

definition mcl_link_sequence_is_live ::
  "u16 \<Rightarrow> u16 \<Rightarrow> byte option \<Rightarrow> mcl_link_status \<times> byte option" where
  "mcl_link_sequence_is_live highest_sent acked_sequence live = (case live of
     None \<Rightarrow> (MCL_LINK_ERR_INVALID_ARGUMENT, None)
   | Some _ \<Rightarrow>
       let distance = (ucast ((ucast highest_sent :: u32) - ucast acked_sequence) :: u16) in
       (MCL_LINK_OK, Some (if distance < MCL_LINK_SEQUENCE_WINDOW_MAX then 1 else 0)))"

section \<open>What a body deserves\<close>

definition ack_reason_ok :: "byte \<Rightarrow> byte \<Rightarrow> bool" where
  "ack_reason_ok is_ack reason \<longleftrightarrow> (if is_ack \<noteq> 0 then reason = 0 else reason \<in> {1, 2, 3, 4, 5})"

definition close_reason_ok :: "byte \<Rightarrow> bool" where
  "close_reason_ok reason \<longleftrightarrow> reason \<in> {1, 2, 3, 4}"

definition ack_valid :: "byte \<Rightarrow> mcl_link_ack \<Rightarrow> bool" where
  "ack_valid is_ack a \<longleftrightarrow> ack_control_version a = 0 \<and> ack_reason_ok is_ack (ack_reason a)"

definition close_valid :: "mcl_link_close \<Rightarrow> bool" where
  "close_valid c \<longleftrightarrow> close_control_version c = 0 \<and> close_reason_ok (close_reason c)"

definition ack_bytes :: "mcl_link_ack \<Rightarrow> byte list" where
  "ack_bytes a = [ack_control_version a, ack_reason a] @ be16 (ack_acked_sequence a)"

definition close_bytes :: "mcl_link_close \<Rightarrow> byte list" where
  "close_bytes c = [close_control_version c, close_reason c]"

lemma byte_below: "(b :: byte) < 1 \<longleftrightarrow> b = 0" "b < 2 \<longleftrightarrow> b = 0 \<or> b = 1"
    "b < 3 \<longleftrightarrow> b = 0 \<or> b = 1 \<or> b = 2" "b < 4 \<longleftrightarrow> b = 0 \<or> b = 1 \<or> b = 2 \<or> b = 3"
    "b < 5 \<longleftrightarrow> b = 0 \<or> b = 1 \<or> b = 2 \<or> b = 3 \<or> b = 4"
    "b < 6 \<longleftrightarrow> b = 0 \<or> b = 1 \<or> b = 2 \<or> b = 3 \<or> b = 4 \<or> b = 5"
  by (auto simp: word_less_nat_alt word_unat_eq_iff)

lemma ack_guard: "(if is_ack \<noteq> 0 then r \<noteq> 0 else r = 0 \<or> (6 :: byte) \<le> r) \<longleftrightarrow> \<not> ack_reason_ok is_ack r"
  by (auto simp: ack_reason_ok_def not_less [symmetric] byte_below)

lemma close_guard: "r = 0 \<or> (5 :: byte) \<le> r \<longleftrightarrow> \<not> close_reason_ok r"
  by (auto simp: close_reason_ok_def not_less [symmetric] byte_below)

lemma ack_encode_eq:
  assumes "cap \<le> length buf"
  shows "mcl_link_ack_encode (Some a) is_ack (Some buf) cap (Some w) = Some
    (if ack_control_version a \<noteq> 0 then (MCL_LINK_ERR_INCOMPATIBLE_VERSION, Some buf, Some w)
     else if \<not> ack_reason_ok is_ack (ack_reason a) then (MCL_LINK_ERR_INVALID_ARGUMENT, Some buf, Some w)
     else if cap < 4 then (MCL_LINK_ERR_RANGE, Some buf, Some w)
     else (MCL_LINK_OK, Some (over (ack_bytes a) buf), Some 4))"
proof -
  have "mcl_control_put_u16 (over [x, y] buf) 2 v = Some (over ([x, y] @ be16 v) buf)"
    if "4 \<le> cap" for x y v
    by (rule control16.put_over) (use that assms in auto)
  moreover have "buf \<noteq> []" if "4 \<le> cap" using that assms by auto
  ultimately show ?thesis
    using assms by (auto simp: mcl_link_ack_encode_def ack_guard mcl_control_put_u8_def wr_first
        wr_over ack_bytes_def)
qed

lemma close_encode_eq:
  assumes "cap \<le> length buf"
  shows "mcl_link_close_encode (Some c) (Some buf) cap (Some w) = Some
    (if close_control_version c \<noteq> 0 then (MCL_LINK_ERR_INCOMPATIBLE_VERSION, Some buf, Some w)
     else if \<not> close_reason_ok (close_reason c) then (MCL_LINK_ERR_INVALID_ARGUMENT, Some buf, Some w)
     else if cap < 2 then (MCL_LINK_ERR_RANGE, Some buf, Some w)
     else (MCL_LINK_OK, Some (over (close_bytes c) buf), Some 2))"
proof -
  have "buf \<noteq> []" if "2 \<le> cap" using that assms by auto
  then show ?thesis
    using assms by (auto simp: mcl_link_close_encode_def close_guard mcl_control_put_u8_def wr_first
        wr_over close_bytes_def)
qed

lemma ack_decode_eq:
  assumes "n \<le> length d"
  shows "mcl_link_ack_decode (Some d) n is_ack (Some a) = Some
    (if n < 4 then (MCL_LINK_ERR_TRUNCATED, Some a)
     else if 4 < n then (MCL_LINK_ERR_RANGE, Some a)
     else if d ! 0 \<noteq> 0 then (MCL_LINK_ERR_INCOMPATIBLE_VERSION, Some a)
     else if \<not> ack_reason_ok is_ack (d ! 1) then (MCL_LINK_ERR_RANGE, Some a)
     else (MCL_LINK_OK, Some \<lparr>ack_control_version = 0, ack_reason = d ! 1,
                             ack_acked_sequence = word16_at d 2\<rparr>))"
proof -
  have "mcl_control_get_u16 (drop 2 d) = Some (word16_at d 2)" if "n = 4"
    by (rule control16.get_at) (use that assms in \<open>simp add: be16_word16_at\<close>)
  then show ?thesis
    using assms by (auto simp: mcl_link_ack_decode_def mcl_link_exact_length_def ack_guard rd_def Let_def)
qed

lemma close_decode_eq:
  assumes "n \<le> length d"
  shows "mcl_link_close_decode (Some d) n (Some c) = Some
    (if n < 2 then (MCL_LINK_ERR_TRUNCATED, Some c)
     else if 2 < n then (MCL_LINK_ERR_RANGE, Some c)
     else if d ! 0 \<noteq> 0 then (MCL_LINK_ERR_INCOMPATIBLE_VERSION, Some c)
     else if \<not> close_reason_ok (d ! 1) then (MCL_LINK_ERR_RANGE, Some c)
     else (MCL_LINK_OK, Some \<lparr>close_control_version = 0, close_reason = d ! 1\<rparr>))"
  using assms
  by (auto simp: mcl_link_close_decode_def mcl_link_exact_length_def close_guard rd_def Let_def)

section \<open>The codecs\<close>

definition ack_emit :: "byte \<Rightarrow> mcl_link_ack \<Rightarrow> byte list" where
  "ack_emit is_ack a = (case mcl_link_ack_encode (Some a) is_ack (Some (replicate 4 0)) 4 (Some 0) of
     Some (MCL_LINK_OK, Some out, Some n) \<Rightarrow> take n out
   | _ \<Rightarrow> [])"

definition ack_accept :: "byte \<Rightarrow> byte list \<Rightarrow> mcl_link_ack option" where
  "ack_accept is_ack B = (case mcl_link_ack_decode (Some B) (length B) is_ack
       (Some \<lparr>ack_control_version = 0, ack_reason = 0, ack_acked_sequence = 0\<rparr>) of
     Some (MCL_LINK_OK, a) \<Rightarrow> a
   | _ \<Rightarrow> None)"

definition close_emit :: "mcl_link_close \<Rightarrow> byte list" where
  "close_emit c = (case mcl_link_close_encode (Some c) (Some (replicate 2 0)) 2 (Some 0) of
     Some (MCL_LINK_OK, Some out, Some n) \<Rightarrow> take n out
   | _ \<Rightarrow> [])"

definition close_accept :: "byte list \<Rightarrow> mcl_link_close option" where
  "close_accept B = (case mcl_link_close_decode (Some B) (length B)
       (Some \<lparr>close_control_version = 0, close_reason = 0\<rparr>) of
     Some (MCL_LINK_OK, c) \<Rightarrow> c
   | _ \<Rightarrow> None)"

lemma ack_emit_eq: "ack_emit is_ack a = (if ack_valid is_ack a then ack_bytes a else [])"
  by (simp add: ack_emit_def ack_encode_eq ack_valid_def ack_bytes_def over_full)

lemma close_emit_eq: "close_emit c = (if close_valid c then close_bytes c else [])"
  by (simp add: close_emit_def close_encode_eq close_valid_def close_bytes_def over_full)

lemma list_of_length_4: "length B = 4 \<longleftrightarrow> (\<exists>a b c d. B = [a, b, c, d])"
  by (auto simp: numeral_eq_Suc length_Suc_conv)

interpretation ack: message_codec "ack_emit is_ack" "ack_valid is_ack" "ack_accept is_ack" for is_ack
proof
  fix a assume v: "ack_valid is_ack a"
  have "word16_at ([ack_control_version a, ack_reason a] @ be16 (ack_acked_sequence a)) 2
      = ack_acked_sequence a"
    using word16_at_append [of 2 "[ack_control_version a, ack_reason a]" "ack_acked_sequence a" "[]"]
    by simp
  with v show "ack_accept is_ack (ack_emit is_ack a) = Some a"
    by (simp add: ack_emit_eq ack_accept_def ack_decode_eq ack_valid_def ack_bytes_def)
next
  fix B a assume "ack_accept is_ack B = Some a"
  then have B: "length B = 4" "B ! 0 = 0" "ack_reason_ok is_ack (B ! 1)"
    and a: "a = \<lparr>ack_control_version = 0, ack_reason = B ! 1, ack_acked_sequence = word16_at B 2\<rparr>"
    by (auto simp: ack_accept_def ack_decode_eq split: if_splits)
  then show "ack_valid is_ack a \<and> ack_emit is_ack a = B"
    by (auto simp: ack_emit_eq ack_valid_def ack_bytes_def list_of_length_4 word16_at_def)
qed

interpretation close: message_codec close_emit close_valid close_accept
proof
  fix c assume "close_valid c"
  then show "close_accept (close_emit c) = Some c"
    by (simp add: close_emit_eq close_accept_def close_decode_eq close_valid_def close_bytes_def)
next
  fix B c assume "close_accept B = Some c"
  then have "length B = 2" "B ! 0 = 0" "close_reason_ok (B ! 1)"
    and c: "c = \<lparr>close_control_version = 0, close_reason = B ! 1\<rparr>"
    by (auto simp: close_accept_def close_decode_eq split: if_splits)
  then show "close_valid c \<and> close_emit c = B"
    by (auto simp: close_emit_eq close_valid_def close_bytes_def numeral_2_eq_2 length_Suc_conv)
qed

section \<open>The acknowledgement window\<close>

lemma distance_eq: "(ucast ((ucast h :: u32) - ucast a) :: u16) = h - a"
proof -
  have "uint h mod 4294967296 = uint h" "uint a mod 4294967296 = uint a"
    using uint_bounded [of h] uint_bounded [of a] by simp_all
  then have "(ucast ((ucast h :: u32) - ucast a) :: u16) = word_of_int (uint h - uint a)"
    by (intro word_uint_eqI)
      (simp add: unsigned_ucast_eq uint_word_ariths uint_word_of_int take_bit_eq_mod mod_mod_cancel)
  also have "\<dots> = h - a"
    by (simp flip: word_of_int_uint)
  finally show ?thesis .
qed

lemma uint_of_int16: "uint (of_int k :: u16) = k mod 65536"
  by (simp add: uint_word_of_int)

lemma of_int_eq16: "(of_int j :: u16) = of_int k \<longleftrightarrow> j mod 65536 = k mod 65536"
  by (simp add: word_uint_eq_iff uint_of_int16)

lemma of_int_near16: "\<bar>j - k\<bar> < 65536 \<Longrightarrow> (of_int j :: u16) = of_int k \<longleftrightarrow> j = k"
  using dvd_imp_le_int [of "j - k" 65536] by (auto simp: of_int_eq16 mod_eq_dvd_iff)

section \<open>Properties\<close>

text \<open>C35: The ACK, NACK and CLOSE bodies. On a buffer and as a function of its bytes, each decoder
  accepts exactly the byte strings its encoder produces from a valid control, so there is one
  spelling per control and nothing else is let through; and no body whatsoever is accepted both as
  an ACK and as a NACK.\<close>

theorem control_bodies_exact:
  "(ack_accept is_ack B = Some a \<longleftrightarrow> ack_valid is_ack a \<and> B = ack_emit is_ack a)
    \<and> (close_accept C = Some c \<longleftrightarrow> close_valid c \<and> C = close_emit c)
    \<and> \<not> (ack_accept 1 B \<noteq> None \<and> ack_accept 0 B \<noteq> None)"
proof (intro conjI)
  show "ack_accept is_ack B = Some a \<longleftrightarrow> ack_valid is_ack a \<and> B = ack_emit is_ack a"
    by (rule ack.accept_iff)
  show "close_accept C = Some c \<longleftrightarrow> close_valid c \<and> C = close_emit c" by (rule close.accept_iff)
  show "\<not> (ack_accept 1 B \<noteq> None \<and> ack_accept 0 B \<noteq> None)"
  proof
    assume "ack_accept 1 B \<noteq> None \<and> ack_accept 0 B \<noteq> None"
    then obtain x y where "ack_valid 1 x" "B = ack_emit 1 x" "ack_valid 0 y" "B = ack_emit 0 y"
      by (auto simp: ack.accept_iff)
    then show False by (auto simp: ack_emit_eq ack_bytes_def ack_valid_def ack_reason_ok_def)
  qed
qed

text \<open>The control decoders, on every branch and in the order of the checks: too short is
  truncated and too long is out of range whatever the bytes are, then the version, then the reason.
  They read inside the buffer only, and a refusal leaves the control structure as it was.\<close>

lemma control_decode_branches:
  assumes "n \<le> length d"
  shows "mcl_link_ack_decode (Some d) n is_ack (Some a) = Some
    (if n < 4 then (MCL_LINK_ERR_TRUNCATED, Some a)
     else if 4 < n then (MCL_LINK_ERR_RANGE, Some a)
     else if d ! 0 \<noteq> 0 then (MCL_LINK_ERR_INCOMPATIBLE_VERSION, Some a)
     else if \<not> ack_reason_ok is_ack (d ! 1) then (MCL_LINK_ERR_RANGE, Some a)
     else (MCL_LINK_OK, Some \<lparr>ack_control_version = 0, ack_reason = d ! 1,
                             ack_acked_sequence = word16_at d 2\<rparr>))
    \<and> mcl_link_close_decode (Some d) n (Some c) = Some
    (if n < 2 then (MCL_LINK_ERR_TRUNCATED, Some c)
     else if 2 < n then (MCL_LINK_ERR_RANGE, Some c)
     else if d ! 0 \<noteq> 0 then (MCL_LINK_ERR_INCOMPATIBLE_VERSION, Some c)
     else if \<not> close_reason_ok (d ! 1) then (MCL_LINK_ERR_RANGE, Some c)
     else (MCL_LINK_OK, Some \<lparr>close_control_version = 0, close_reason = d ! 1\<rparr>))"
  using ack_decode_eq [OF assms] close_decode_eq [OF assms] by blast

theorem control_decode_branches_witness:
  "\<forall>a c. mcl_link_ack_decode (Some [0, 5, 1, 2, 9]) 4 0 (Some a)
      = Some (MCL_LINK_OK, Some \<lparr>ack_control_version = 0, ack_reason = 5, ack_acked_sequence = 0x0102\<rparr>)
    \<and> mcl_link_close_decode (Some [0, 5, 1, 2, 9]) 4 (Some c) = Some (MCL_LINK_ERR_RANGE, Some c)"
  using control_decode_branches [of 4 "[0, 5, 1, 2, 9]" 0]
  by (simp add: ack_reason_ok_def word16_at_def of_be16_def)

text \<open>Every control the constructors build is valid, and every valid control is built by them:
  a NACK or CLOSE with a reserved or unassigned reason can be neither built nor encoded.\<close>

lemma control_made_valid:
  "(mcl_link_make_ack (Some a) s = (MCL_LINK_OK, Some b) \<longrightarrow> ack_valid 1 b \<and> ack_acked_sequence b = s)
    \<and> (mcl_link_make_nack (Some a) s r = (MCL_LINK_OK, Some b)
        \<longleftrightarrow> ack_reason_ok 0 r \<and> b = \<lparr>ack_control_version = 0, ack_reason = r, ack_acked_sequence = s\<rparr>)
    \<and> (mcl_link_make_close (Some c) r = (MCL_LINK_OK, Some e)
        \<longleftrightarrow> close_reason_ok r \<and> e = \<lparr>close_control_version = 0, close_reason = r\<rparr>)"
proof (intro conjI)
  show "mcl_link_make_ack (Some a) s = (MCL_LINK_OK, Some b) \<longrightarrow> ack_valid 1 b \<and> ack_acked_sequence b = s"
    by (auto simp: mcl_link_make_ack_def ack_valid_def ack_reason_ok_def)
  show "mcl_link_make_nack (Some a) s r = (MCL_LINK_OK, Some b)
      \<longleftrightarrow> ack_reason_ok 0 r \<and> b = \<lparr>ack_control_version = 0, ack_reason = r, ack_acked_sequence = s\<rparr>"
    using ack_guard [of 0 r] by (auto simp: mcl_link_make_nack_def)
  show "mcl_link_make_close (Some c) r = (MCL_LINK_OK, Some e)
      \<longleftrightarrow> close_reason_ok r \<and> e = \<lparr>close_control_version = 0, close_reason = r\<rparr>"
    using close_guard [of r] by (auto simp: mcl_link_make_close_def)
qed

theorem control_made_valid_witness:
  "\<forall>a b. ack_valid 1 \<lparr>ack_control_version = 0, ack_reason = 0, ack_acked_sequence = 7\<rparr>
    \<and> mcl_link_make_nack (Some a) 7 6 \<noteq> (MCL_LINK_OK, Some b)"
proof (intro allI)
  fix a b
  show "ack_valid 1 \<lparr>ack_control_version = 0, ack_reason = 0, ack_acked_sequence = 7\<rparr>
      \<and> mcl_link_make_nack (Some a) 7 6 \<noteq> (MCL_LINK_OK, Some b)"
    using control_made_valid [of a 7 "\<lparr>ack_control_version = 0, ack_reason = 0, ack_acked_sequence = 7\<rparr>" 6]
      control_made_valid [of a 7 b 6]
    by (simp add: mcl_link_make_ack_def ack_reason_ok_def)
qed

text \<open>C31: The acknowledgement window. Let \<open>H\<close> be the unbounded ordinal of the last frame sent, whose
  sequence number is \<open>H\<close> modulo 65536. A 16-bit sequence number is reported live exactly if there is
  one and only one frame among the last 16384 that carries it: the wrap-around arithmetic never
  confuses two outstanding frames and never revives an older one.\<close>

theorem sequence_window_exact:
  "mcl_link_sequence_is_live (of_int H) s (Some x) = (MCL_LINK_OK,
     Some (if \<exists>!A. H - 16384 < A \<and> A \<le> H \<and> of_int A = s then 1 else 0))"
proof -
  define d where "d = uint ((of_int H :: u16) - s)"
  have "0 \<le> d" "d < 65536" using uint_bounded [of "(of_int H :: u16) - s"] by (simp_all add: d_def)
  have "of_int d = (of_int H :: u16) - s" by (simp add: d_def)
  then have at: "of_int (H - d) = s" by simp
  have near: "of_int A = s \<longleftrightarrow> A = H - d" if "H - 16384 < A" "A \<le> H" for A
    using of_int_near16 [of A "H - d"] at that \<open>0 \<le> d\<close> \<open>d < 65536\<close> by simp
  have "(\<exists>!A. H - 16384 < A \<and> A \<le> H \<and> of_int A = s) \<longleftrightarrow> d < 16384"
  proof (cases "d < 16384")
    case True
    then have "H - 16384 < H - d \<and> H - d \<le> H \<and> of_int (H - d) = s"
      using near [of "H - d"] \<open>0 \<le> d\<close> by auto
    then show ?thesis using True near by (auto intro!: ex1I [of _ "H - d"])
  next
    case False
    then show ?thesis using near by auto
  qed
  moreover have "(of_int H - s :: u16) < 16384 \<longleftrightarrow> d < 16384"
    by (simp add: d_def word_less_def)
  ultimately show ?thesis
    by (simp add: mcl_link_sequence_is_live_def distance_eq Let_def)
qed

end
