(* ===== verification/Mcl_Handoff.thy ===== *)
theory Mcl_Handoff
  imports Mcl_Codec
begin

text \<open>
  The handoff controls of \<open>src/handoff.c\<close>: path challenge, path response, commit and confirm, each
  naming the migration transaction and the session it belongs to. Which operations carry a
  challenge is a function of the operation, never of the bytes.

  The constructors take a pointer to the challenge that may point into the very control being
  built (a peer that reuses the control it has just decoded); \<open>challenge_ptr\<close> keeps that case apart.
\<close>

abbreviation (input) MCL_HANDOFF_CONTROL_VERSION :: byte where "MCL_HANDOFF_CONTROL_VERSION \<equiv> 0"
abbreviation (input) MCL_HANDOFF_HEADER_SIZE :: nat where "MCL_HANDOFF_HEADER_SIZE \<equiv> 10"

definition MCL_HANDOFF_CONTROL_MAX_SIZE :: nat where
  "MCL_HANDOFF_CONTROL_MAX_SIZE = MCL_HANDOFF_HEADER_SIZE + MCL_CONTACT_CHALLENGE_SIZE"

abbreviation (input) MCL_HANDOFF_OP_PATH_CHALLENGE :: byte where "MCL_HANDOFF_OP_PATH_CHALLENGE \<equiv> 1"
abbreviation (input) MCL_HANDOFF_OP_PATH_RESPONSE :: byte where "MCL_HANDOFF_OP_PATH_RESPONSE \<equiv> 2"
abbreviation (input) MCL_HANDOFF_OP_COMMIT :: byte where "MCL_HANDOFF_OP_COMMIT \<equiv> 3"
abbreviation (input) MCL_HANDOFF_OP_CONFIRM :: byte where "MCL_HANDOFF_OP_CONFIRM \<equiv> 4"

record mcl_handoff_control =
  control_operation :: byte
  control_migration_ref :: u32
  control_session_ref :: u32
  control_challenge :: "byte list"
  control_challenge_present :: byte

datatype challenge_ptr =
    Challenge_Null
  | Challenge_At "byte list"
  | Challenge_Of_Control

section \<open>Operations\<close>

definition mcl_handoff_put_u32 :: "byte list \<Rightarrow> nat \<Rightarrow> u32 \<Rightarrow> byte list option" where
  "mcl_handoff_put_u32 buf off v = do {
     b1 \<leftarrow> wr buf off (ucast (drop_bit 24 v AND 0xFF));
     b2 \<leftarrow> wr b1 (off + 1) (ucast (drop_bit 16 v AND 0xFF));
     b3 \<leftarrow> wr b2 (off + 2) (ucast (drop_bit 8 v AND 0xFF));
     wr b3 (off + 3) (ucast (v AND 0xFF)) }"

definition mcl_handoff_get_u32 :: "byte list \<Rightarrow> u32 option" where
  "mcl_handoff_get_u32 p = do {
     a \<leftarrow> rd p 0;
     b \<leftarrow> rd p 1;
     c \<leftarrow> rd p 2;
     d \<leftarrow> rd p 3;
     Some (push_bit 24 (ucast a) OR push_bit 16 (ucast b) OR push_bit 8 (ucast c) OR ucast d) }"

interpretation handoff32: be_port mcl_handoff_put_u32 mcl_handoff_get_u32 be32 4
  by (rule be_port_32) (simp_all add: mcl_handoff_put_u32_def mcl_handoff_get_u32_def of_be32_def)

definition mcl_handoff_copy_challenge :: "byte list \<Rightarrow> nat \<Rightarrow> byte list \<Rightarrow> byte list option" where
  "mcl_handoff_copy_challenge dst off src = copy_loop dst off src 0 MCL_CONTACT_CHALLENGE_SIZE"

definition mcl_handoff_clear_challenge :: "byte list \<Rightarrow> byte list option" where
  "mcl_handoff_clear_challenge dst = zero_loop dst 0 0 MCL_CONTACT_CHALLENGE_SIZE"

definition mcl_handoff_op_assigned :: "byte \<Rightarrow> bool" where
  "mcl_handoff_op_assigned operation \<longleftrightarrow>
     operation = MCL_HANDOFF_OP_PATH_CHALLENGE \<or> operation = MCL_HANDOFF_OP_PATH_RESPONSE
     \<or> operation = MCL_HANDOFF_OP_COMMIT \<or> operation = MCL_HANDOFF_OP_CONFIRM"

definition mcl_handoff_op_carries_challenge :: "byte \<Rightarrow> byte" where
  "mcl_handoff_op_carries_challenge operation =
     (if operation = MCL_HANDOFF_OP_PATH_CHALLENGE \<or> operation = MCL_HANDOFF_OP_PATH_RESPONSE
      then 1 else 0)"

definition mcl_handoff_control_encoded_size :: "byte \<Rightarrow> nat" where
  "mcl_handoff_control_encoded_size operation =
     (if \<not> mcl_handoff_op_assigned operation then 0
      else if mcl_handoff_op_carries_challenge operation \<noteq> 0 then MCL_HANDOFF_CONTROL_MAX_SIZE
      else MCL_HANDOFF_HEADER_SIZE)"

definition mcl_handoff_control_encode ::
  "mcl_handoff_control option \<Rightarrow> byte list option \<Rightarrow> nat \<Rightarrow> nat option
    \<Rightarrow> (mcl_link_status \<times> byte list option \<times> nat option) option" where
  "mcl_handoff_control_encode control out out_capacity written = (case (control, out, written) of
     (Some c, Some buf, Some _) \<Rightarrow>
       let sz = mcl_handoff_control_encoded_size (control_operation c) in
       if sz = 0 then Some (MCL_LINK_ERR_RANGE, out, written)
       else if control_migration_ref c = MCL_CONTACT_MIGRATION_NONE
       then Some (MCL_LINK_ERR_RANGE, out, written)
       else if control_session_ref c = MCL_CONTACT_SESSION_NONE
       then Some (MCL_LINK_ERR_RANGE, out, written)
       else let carries = mcl_handoff_op_carries_challenge (control_operation c) in
         if control_challenge_present c \<noteq> carries
         then Some (MCL_LINK_ERR_INVALID_ARGUMENT, out, written)
         else if out_capacity < sz then Some (MCL_LINK_ERR_RANGE, out, written)
         else do {
           buf \<leftarrow> wr buf 0 MCL_HANDOFF_CONTROL_VERSION;
           buf \<leftarrow> wr buf 1 (control_operation c);
           buf \<leftarrow> mcl_handoff_put_u32 buf 2 (control_migration_ref c);
           buf \<leftarrow> mcl_handoff_put_u32 buf 6 (control_session_ref c);
           buf \<leftarrow> (if carries \<noteq> 0
                   then mcl_handoff_copy_challenge buf MCL_HANDOFF_HEADER_SIZE (control_challenge c)
                   else Some buf);
           Some (MCL_LINK_OK, Some buf, Some sz) }
   | _ \<Rightarrow> Some (MCL_LINK_ERR_INVALID_ARGUMENT, out, written))"

definition mcl_handoff_control_decode ::
  "byte list option \<Rightarrow> nat \<Rightarrow> mcl_handoff_control option
    \<Rightarrow> (mcl_link_status \<times> mcl_handoff_control option) option" where
  "mcl_handoff_control_decode inp in_size control = (case (inp, control) of
     (Some inb, Some c) \<Rightarrow>
       if in_size < MCL_HANDOFF_HEADER_SIZE then Some (MCL_LINK_ERR_TRUNCATED, control)
       else do {
         version \<leftarrow> rd inb 0;
         if version \<noteq> MCL_HANDOFF_CONTROL_VERSION
         then Some (MCL_LINK_ERR_INCOMPATIBLE_VERSION, control)
         else do {
           operation \<leftarrow> rd inb 1;
           if \<not> mcl_handoff_op_assigned operation then Some (MCL_LINK_ERR_RANGE, control)
           else let expected = mcl_handoff_control_encoded_size operation in
             if in_size < expected then Some (MCL_LINK_ERR_TRUNCATED, control)
             else if in_size > expected then Some (MCL_LINK_ERR_RANGE, control)
             else do {
               migration_ref \<leftarrow> mcl_handoff_get_u32 (drop 2 inb);
               session_ref \<leftarrow> mcl_handoff_get_u32 (drop 6 inb);
               if migration_ref = MCL_CONTACT_MIGRATION_NONE then Some (MCL_LINK_ERR_RANGE, control)
               else if session_ref = MCL_CONTACT_SESSION_NONE then Some (MCL_LINK_ERR_RANGE, control)
               else do {
                 let present = mcl_handoff_op_carries_challenge operation;
                 challenge \<leftarrow>
                   (if present \<noteq> 0
                    then mcl_handoff_copy_challenge (control_challenge c) 0
                           (drop MCL_HANDOFF_HEADER_SIZE inb)
                    else mcl_handoff_clear_challenge (control_challenge c));
                 Some (MCL_LINK_OK, Some (c\<lparr>control_operation := operation,
                   control_migration_ref := migration_ref, control_session_ref := session_ref,
                   control_challenge_present := present, control_challenge := challenge\<rparr>)) } } } }
   | _ \<Rightarrow> Some (MCL_LINK_ERR_INVALID_ARGUMENT, control))"

definition mcl_handoff_make_common ::
  "mcl_handoff_control option \<Rightarrow> byte \<Rightarrow> u32 \<Rightarrow> u32
    \<Rightarrow> (mcl_link_status \<times> mcl_handoff_control option) option" where
  "mcl_handoff_make_common control operation migration_ref session_ref = (case control of
     None \<Rightarrow> Some (MCL_LINK_ERR_INVALID_ARGUMENT, None)
   | Some c \<Rightarrow>
       if migration_ref = MCL_CONTACT_MIGRATION_NONE then Some (MCL_LINK_ERR_RANGE, control)
       else if session_ref = MCL_CONTACT_SESSION_NONE then Some (MCL_LINK_ERR_RANGE, control)
       else do {
         challenge \<leftarrow> mcl_handoff_clear_challenge (control_challenge c);
         Some (MCL_LINK_OK, Some (c\<lparr>control_operation := operation,
           control_migration_ref := migration_ref, control_session_ref := session_ref,
           control_challenge_present := 0, control_challenge := challenge\<rparr>)) })"

text \<open>The bytes the challenge pointer refers to at the moment they are copied.\<close>

definition challenge_source :: "challenge_ptr \<Rightarrow> mcl_handoff_control \<Rightarrow> byte list" where
  "challenge_source p c = (case p of
     Challenge_Null \<Rightarrow> []
   | Challenge_At bs \<Rightarrow> bs
   | Challenge_Of_Control \<Rightarrow> control_challenge c)"

definition mcl_handoff_make_with_challenge ::
  "mcl_handoff_control option \<Rightarrow> byte \<Rightarrow> u32 \<Rightarrow> u32 \<Rightarrow> challenge_ptr
    \<Rightarrow> (mcl_link_status \<times> mcl_handoff_control option) option" where
  "mcl_handoff_make_with_challenge control operation migration_ref session_ref challenge =
    (if challenge = Challenge_Null then Some (MCL_LINK_ERR_INVALID_ARGUMENT, control)
     else do {
       (status, made) \<leftarrow> mcl_handoff_make_common control operation migration_ref session_ref;
       if status \<noteq> MCL_LINK_OK then Some (status, made)
       else (case made of
         None \<Rightarrow> None
       | Some c \<Rightarrow> do {
           copied \<leftarrow> mcl_handoff_copy_challenge (control_challenge c) 0 (challenge_source challenge c);
           Some (MCL_LINK_OK, Some (c\<lparr>control_challenge := copied,
             control_challenge_present := 1\<rparr>)) }) })"

definition mcl_handoff_make_path_challenge ::
  "mcl_handoff_control option \<Rightarrow> u32 \<Rightarrow> u32 \<Rightarrow> challenge_ptr
    \<Rightarrow> (mcl_link_status \<times> mcl_handoff_control option) option" where
  "mcl_handoff_make_path_challenge control migration_ref session_ref challenge =
     mcl_handoff_make_with_challenge control MCL_HANDOFF_OP_PATH_CHALLENGE
       migration_ref session_ref challenge"

definition mcl_handoff_make_path_response ::
  "mcl_handoff_control option \<Rightarrow> u32 \<Rightarrow> u32 \<Rightarrow> challenge_ptr
    \<Rightarrow> (mcl_link_status \<times> mcl_handoff_control option) option" where
  "mcl_handoff_make_path_response control migration_ref session_ref echo =
     mcl_handoff_make_with_challenge control MCL_HANDOFF_OP_PATH_RESPONSE
       migration_ref session_ref echo"

definition mcl_handoff_make_commit ::
  "mcl_handoff_control option \<Rightarrow> u32 \<Rightarrow> u32
    \<Rightarrow> (mcl_link_status \<times> mcl_handoff_control option) option" where
  "mcl_handoff_make_commit control migration_ref session_ref =
     mcl_handoff_make_common control MCL_HANDOFF_OP_COMMIT migration_ref session_ref"

definition mcl_handoff_make_confirm ::
  "mcl_handoff_control option \<Rightarrow> u32 \<Rightarrow> u32
    \<Rightarrow> (mcl_link_status \<times> mcl_handoff_control option) option" where
  "mcl_handoff_make_confirm control migration_ref session_ref =
     mcl_handoff_make_common control MCL_HANDOFF_OP_CONFIRM migration_ref session_ref"

section \<open>What a control deserves\<close>

definition carries :: "byte \<Rightarrow> bool" where
  "carries operation \<longleftrightarrow> operation = 1 \<or> operation = 2"

definition handoff_valid :: "mcl_handoff_control \<Rightarrow> bool" where
  "handoff_valid c \<longleftrightarrow> control_operation c \<in> {1, 2, 3, 4}
     \<and> control_migration_ref c \<noteq> 0 \<and> control_session_ref c \<noteq> 0
     \<and> length (control_challenge c) = 8
     \<and> control_challenge_present c = (if carries (control_operation c) then 1 else 0)
     \<and> (carries (control_operation c) \<or> control_challenge c = replicate 8 0)"

definition handoff_bytes :: "mcl_handoff_control \<Rightarrow> byte list" where
  "handoff_bytes c = [0, control_operation c] @ be32 (control_migration_ref c)
     @ be32 (control_session_ref c) @ (if carries (control_operation c) then control_challenge c else [])"

definition handoff_parsed :: "byte list \<Rightarrow> mcl_handoff_control" where
  "handoff_parsed B = \<lparr>control_operation = B ! 1, control_migration_ref = word32_at B 2,
     control_session_ref = word32_at B 6,
     control_challenge = (if carries (B ! 1) then take 8 (drop 10 B) else replicate 8 0),
     control_challenge_present = (if carries (B ! 1) then 1 else 0)\<rparr>"

lemma carries_eq: "mcl_handoff_op_carries_challenge b = (if carries b then 1 else 0)"
  by (simp add: mcl_handoff_op_carries_challenge_def carries_def)

lemma encoded_size_cases: "mcl_handoff_control_encoded_size b =
    (if b = 1 \<or> b = 2 then 18 else if b = 3 \<or> b = 4 then 10 else 0)"
  by (simp add: mcl_handoff_control_encoded_size_def mcl_handoff_op_assigned_def
      MCL_HANDOFF_CONTROL_MAX_SIZE_def mcl_handoff_op_carries_challenge_def)

lemma assigned_size: "mcl_handoff_op_assigned b \<longleftrightarrow> mcl_handoff_control_encoded_size b \<noteq> 0"
  by (auto simp: encoded_size_cases mcl_handoff_op_assigned_def)

lemma handoff_encode_eq:
  assumes cap: "cap \<le> length buf" and len: "length (control_challenge c) = 8"
  shows "mcl_handoff_control_encode (Some c) (Some buf) cap (Some w) = Some
    (if mcl_handoff_control_encoded_size (control_operation c) = 0
        \<or> control_migration_ref c = 0 \<or> control_session_ref c = 0 then (MCL_LINK_ERR_RANGE, Some buf, Some w)
     else if control_challenge_present c \<noteq> (if carries (control_operation c) then 1 else 0)
     then (MCL_LINK_ERR_INVALID_ARGUMENT, Some buf, Some w)
     else if cap < mcl_handoff_control_encoded_size (control_operation c)
     then (MCL_LINK_ERR_RANGE, Some buf, Some w)
     else (MCL_LINK_OK, Some (over (handoff_bytes c) buf),
           Some (mcl_handoff_control_encoded_size (control_operation c))))"
proof (cases "mcl_handoff_control_encoded_size (control_operation c) = 0
    \<or> cap < mcl_handoff_control_encoded_size (control_operation c)")
  case True
  then show ?thesis by (auto simp: mcl_handoff_control_encode_def Let_def carries_eq)
next
  case False
  let ?o = "control_operation c"
  have big: "10 \<le> length buf" "carries ?o \<longrightarrow> 18 \<le> length buf"
    using False cap by (auto simp: encoded_size_cases carries_def split: if_splits)
  have w0: "wr buf 0 0 = Some (over [0] buf)" by (rule wr_first) (use big in auto)
  have w1: "wr (over [0] buf) 1 ?o = Some (over ([0] @ [?o]) buf)" by (rule wr_over) (use big in auto)
  have w2: "mcl_handoff_put_u32 (over ([0] @ [?o]) buf) 2 m = Some (over (([0] @ [?o]) @ be32 m) buf)" for m
    by (rule handoff32.put_over) (use big in auto)
  have w3: "mcl_handoff_put_u32 (over (([0] @ [?o]) @ be32 m) buf) 6 s
      = Some (over ((([0] @ [?o]) @ be32 m) @ be32 s) buf)" for m s
    by (rule handoff32.put_over) (use big in auto)
  have w4: "copy_loop (over ((([0] @ [?o]) @ be32 m) @ be32 s) buf) 10 (control_challenge c) 0 8
      = Some (over (((([0] @ [?o]) @ be32 m) @ be32 s) @ control_challenge c) buf)" if "carries ?o" for m s
    using copy_loop_over [of 10 0 "((([0] @ [?o]) @ be32 m) @ be32 s)" 8 buf "control_challenge c"]
      big len that by simp
  show ?thesis
    using False w0 w1 w2 w3 w4
    by (auto simp: mcl_handoff_control_encode_def Let_def carries_eq handoff_bytes_def
        mcl_handoff_copy_challenge_def)
qed

lemma handoff_decode_eq:
  assumes n: "n \<le> length B" and len: "length (control_challenge c) = 8"
  shows "mcl_handoff_control_decode (Some B) n (Some c) = Some
    (if n < 10 then (MCL_LINK_ERR_TRUNCATED, Some c)
     else if B ! 0 \<noteq> 0 then (MCL_LINK_ERR_INCOMPATIBLE_VERSION, Some c)
     else if mcl_handoff_control_encoded_size (B ! 1) = 0 then (MCL_LINK_ERR_RANGE, Some c)
     else if n < mcl_handoff_control_encoded_size (B ! 1) then (MCL_LINK_ERR_TRUNCATED, Some c)
     else if mcl_handoff_control_encoded_size (B ! 1) < n \<or> word32_at B 2 = 0 \<or> word32_at B 6 = 0
     then (MCL_LINK_ERR_RANGE, Some c)
     else (MCL_LINK_OK, Some (handoff_parsed B)))"
proof (cases "n < 10 \<or> B ! 0 \<noteq> 0 \<or> n \<noteq> mcl_handoff_control_encoded_size (B ! 1)")
  case True
  then show ?thesis using n
    by (auto simp: mcl_handoff_control_decode_def Let_def rd_def assigned_size)
next
  case False
  have g: "mcl_handoff_get_u32 (drop 2 B) = Some (word32_at B 2)"
      "mcl_handoff_get_u32 (drop 6 B) = Some (word32_at B 6)"
    by (rule handoff32.get_at; use False n in \<open>simp add: be32_word32_at\<close>)+
  have k: "mcl_handoff_copy_challenge (control_challenge c) 0 (drop 10 B) = Some (take 8 (drop 10 B))"
    if "carries (B ! 1)"
    unfolding mcl_handoff_copy_challenge_def
    by (rule copy_loop_all) (use False that n len in \<open>auto simp: encoded_size_cases carries_def\<close>)
  have z: "mcl_handoff_clear_challenge (control_challenge c) = Some (replicate 8 0)"
    unfolding mcl_handoff_clear_challenge_def by (rule zero_loop_all [OF len])
  show ?thesis
    using False n g k z
    by (auto simp: mcl_handoff_control_decode_def Let_def rd_def assigned_size carries_eq
        handoff_parsed_def)
qed

section \<open>The codec\<close>

definition blank_control :: mcl_handoff_control where
  "blank_control = \<lparr>control_operation = 0, control_migration_ref = 0, control_session_ref = 0,
     control_challenge = replicate 8 0, control_challenge_present = 0\<rparr>"

definition handoff_emit :: "mcl_handoff_control \<Rightarrow> byte list" where
  "handoff_emit c = (case mcl_handoff_control_encode (Some c) (Some (replicate 18 0)) 18 (Some 0) of
     Some (MCL_LINK_OK, Some out, Some n) \<Rightarrow> take n out
   | _ \<Rightarrow> [])"

definition handoff_accept :: "byte list \<Rightarrow> mcl_handoff_control option" where
  "handoff_accept B = (case mcl_handoff_control_decode (Some B) (length B) (Some blank_control) of
     Some (MCL_LINK_OK, c) \<Rightarrow> c
   | _ \<Rightarrow> None)"

lemma handoff_valid_size: "handoff_valid c \<Longrightarrow>
    length (handoff_bytes c) = mcl_handoff_control_encoded_size (control_operation c)"
  by (auto simp: handoff_valid_def handoff_bytes_def encoded_size_cases carries_def)

lemma handoff_valid_size_le: "handoff_valid c \<Longrightarrow> length (handoff_bytes c) \<le> 18"
  by (simp add: handoff_valid_size) (simp add: encoded_size_cases)

lemma handoff_emit_eq: "handoff_valid c \<Longrightarrow> handoff_emit c = handoff_bytes c"
proof -
  assume v: "handoff_valid c"
  then have "length (control_challenge c) = 8" by (simp add: handoff_valid_def)
  from handoff_encode_eq [of 18 "replicate 18 0" c 0, OF _ this] v show ?thesis
    using handoff_valid_size [OF v] handoff_valid_size_le [OF v]
    by (auto simp: handoff_emit_def handoff_valid_def encoded_size_cases over_def carries_def)
qed

lemma handoff_accept_iff: "handoff_accept B = Some c \<longleftrightarrow> c = handoff_parsed B
    \<and> B ! 0 = 0 \<and> 10 \<le> length B \<and> length B = mcl_handoff_control_encoded_size (B ! 1)
    \<and> word32_at B 2 \<noteq> 0 \<and> word32_at B 6 \<noteq> 0"
  using handoff_decode_eq [of "length B" B blank_control]
  by (auto simp: handoff_accept_def blank_control_def)

lemma handoff_bytes_parts:
  "word32_at (handoff_bytes c) 2 = control_migration_ref c" "word32_at (handoff_bytes c) 6 = control_session_ref c"
  "handoff_bytes c ! 0 = 0" "handoff_bytes c ! 1 = control_operation c" "10 \<le> length (handoff_bytes c)"
  "drop 10 (handoff_bytes c) = (if carries (control_operation c) then control_challenge c else [])"
proof -
  let ?ch = "if carries (control_operation c) then control_challenge c else []"
  have "word32_at ([0, control_operation c] @ be32 (control_migration_ref c) @ be32 (control_session_ref c) @ ?ch) 2
      = control_migration_ref c"
    by (rule word32_at_append) simp
  then show "word32_at (handoff_bytes c) 2 = control_migration_ref c" by (simp only: handoff_bytes_def)
  have "word32_at (([0, control_operation c] @ be32 (control_migration_ref c)) @ be32 (control_session_ref c) @ ?ch) 6
      = control_session_ref c"
    by (rule word32_at_append) simp
  then show "word32_at (handoff_bytes c) 6 = control_session_ref c" by (simp only: handoff_bytes_def append_assoc)
qed (simp_all add: handoff_bytes_def)

lemma handoff_parsed_bytes: "handoff_valid c \<Longrightarrow> handoff_parsed (handoff_bytes c) = c"
  unfolding handoff_parsed_def handoff_bytes_parts by (cases c) (auto simp: handoff_valid_def)

lemma handoff_bytes_parsed:
  assumes B: "B ! 0 = 0" "10 \<le> length B" "length B = mcl_handoff_control_encoded_size (B ! 1)"
  shows "handoff_bytes (handoff_parsed B) = B"
proof -
  have t1: "take (2 + 4) B = take 2 B @ be32 (word32_at B 2)" by (rule take_word32) (use B in simp)
  have t2: "take (6 + 4) B = take 6 B @ be32 (word32_at B 6)" by (rule take_word32) (use B in simp)
  have t0: "take 2 B = [0, B ! 1]"
    using B(1,2) by (cases B; cases "tl B") auto
  have rest: "(if carries (B ! 1) then take 8 (drop 10 B) else []) = drop 10 B"
    using B(3) by (auto simp: encoded_size_cases carries_def split: if_splits)
  have "B = take 10 B @ drop 10 B" by simp
  also have "take 10 B = [0, B ! 1] @ be32 (word32_at B 2) @ be32 (word32_at B 6)"
    using t0 t1 t2 by simp
  finally have "B = [0, B ! 1] @ be32 (word32_at B 2) @ be32 (word32_at B 6)
      @ (if carries (B ! 1) then take 8 (drop 10 B) else [])" unfolding rest by simp
  then show ?thesis by (simp add: handoff_bytes_def handoff_parsed_def split: if_splits del: One_nat_def)
qed

interpretation handoff: message_codec handoff_emit handoff_valid handoff_accept
proof
  fix c assume v: "handoff_valid c"
  have "handoff_accept (handoff_bytes c) = Some c"
    unfolding handoff_accept_iff handoff_bytes_parts
    using handoff_parsed_bytes [OF v] handoff_valid_size [OF v] handoff_bytes_parts(5) [of c] v
    by (simp add: handoff_valid_def)
  then show "handoff_accept (handoff_emit c) = Some c" by (simp add: handoff_emit_eq [OF v])
next
  fix B c assume "handoff_accept B = Some c"
  then have c: "c = handoff_parsed B" and B: "B ! 0 = 0" "10 \<le> length B"
      "length B = mcl_handoff_control_encoded_size (B ! 1)" "word32_at B 2 \<noteq> 0" "word32_at B 6 \<noteq> 0"
    by (simp_all add: handoff_accept_iff)
  have v: "handoff_valid c"
    using B by (auto simp: c handoff_parsed_def handoff_valid_def encoded_size_cases carries_def split: if_splits)
  then show "handoff_valid c \<and> handoff_emit c = B"
    using handoff_bytes_parsed [OF B(1-3)] by (simp add: handoff_emit_eq c)
qed

section \<open>Properties\<close>

lemma make_common_eq:
  assumes "length (control_challenge c) = 8"
  shows "mcl_handoff_make_common (Some c) operation m s = Some
    (if m = 0 \<or> s = 0 then (MCL_LINK_ERR_RANGE, Some c)
     else (MCL_LINK_OK, Some \<lparr>control_operation = operation, control_migration_ref = m,
       control_session_ref = s, control_challenge = replicate 8 0, control_challenge_present = 0\<rparr>))"
  using assms by (cases c) (simp add: mcl_handoff_make_common_def mcl_handoff_clear_challenge_def zero_loop_all)

lemma make_with_challenge_eq:
  assumes "length (control_challenge c) = 8" and "8 \<le> length bs"
  shows "mcl_handoff_make_with_challenge (Some c) operation m s (Challenge_At bs) = Some
    (if m = 0 \<or> s = 0 then (MCL_LINK_ERR_RANGE, Some c)
     else (MCL_LINK_OK, Some \<lparr>control_operation = operation, control_migration_ref = m,
       control_session_ref = s, control_challenge = take 8 bs, control_challenge_present = 1\<rparr>))"
  using assms copy_loop_all [of "replicate 8 0" 8 bs]
  by (simp add: mcl_handoff_make_with_challenge_def make_common_eq challenge_source_def
      mcl_handoff_copy_challenge_def)

text \<open>C32: The handoff codec. As a function of its bytes the decoder accepts exactly the byte strings
  the encoder produces from a valid control, and returns that control: references kept, the
  challenge present exactly for the two path operations and zeroed behind the others.\<close>

theorem handoff_controls_exact:
  "handoff_accept B = Some c \<longleftrightarrow> handoff_valid c \<and> B = handoff_emit c"
  by (rule handoff.accept_iff)

text \<open>The handoff decoder and encoder, on every branch and in the order of their checks. For a
  control object whose challenge array has its eight bytes neither one leaves its buffer, the
  encoder writes the bytes of the control and nothing after them, and a refusal changes nothing.\<close>

lemma handoff_branches:
  assumes "n \<le> length B" and "cap \<le> length buf" and "length (control_challenge c) = 8"
  shows "mcl_handoff_control_decode (Some B) n (Some c) = Some
    (if n < 10 then (MCL_LINK_ERR_TRUNCATED, Some c)
     else if B ! 0 \<noteq> 0 then (MCL_LINK_ERR_INCOMPATIBLE_VERSION, Some c)
     else if B ! 1 \<notin> {1, 2, 3, 4} then (MCL_LINK_ERR_RANGE, Some c)
     else if n < mcl_handoff_control_encoded_size (B ! 1) then (MCL_LINK_ERR_TRUNCATED, Some c)
     else if mcl_handoff_control_encoded_size (B ! 1) < n \<or> word32_at B 2 = 0 \<or> word32_at B 6 = 0
     then (MCL_LINK_ERR_RANGE, Some c)
     else (MCL_LINK_OK, Some (handoff_parsed B)))
    \<and> mcl_handoff_control_encode (Some c) (Some buf) cap (Some w) = Some
    (if control_operation c \<notin> {1, 2, 3, 4} \<or> control_migration_ref c = 0 \<or> control_session_ref c = 0
     then (MCL_LINK_ERR_RANGE, Some buf, Some w)
     else if control_challenge_present c \<noteq> (if carries (control_operation c) then 1 else 0)
     then (MCL_LINK_ERR_INVALID_ARGUMENT, Some buf, Some w)
     else if cap < mcl_handoff_control_encoded_size (control_operation c)
     then (MCL_LINK_ERR_RANGE, Some buf, Some w)
     else (MCL_LINK_OK, Some (handoff_bytes c @ drop (length (handoff_bytes c)) buf),
           Some (length (handoff_bytes c))))"
proof -
  have z: "mcl_handoff_control_encoded_size b = 0 \<longleftrightarrow> b \<notin> {1, 2, 3, 4}" for b
    by (auto simp: encoded_size_cases)
  have l: "length (handoff_bytes c) = mcl_handoff_control_encoded_size (control_operation c)"
    if "control_operation c \<in> {1, 2, 3, 4}"
    using that assms(3) by (auto simp: handoff_bytes_def encoded_size_cases carries_def)
  show ?thesis
    using handoff_decode_eq [OF assms(1,3)] handoff_encode_eq [OF assms(2,3), of w] l
    by (simp add: z over_def del: One_nat_def)
qed

text \<open>Exact length. Every proper prefix of an encoded control is reported as truncated, so that a
  carriage can wait, and every proper extension of one is refused as out of range, so that it does
  not; in both cases the control object is left as it was.\<close>

lemma handoff_length_exact:
  assumes v: "handoff_valid c" and h: "length (control_challenge h) = 8"
    and k: "k < length (handoff_emit c)" and rest: "rest \<noteq> []"
  shows "mcl_handoff_control_decode (Some (handoff_emit c)) k (Some h) = Some (MCL_LINK_ERR_TRUNCATED, Some h)
    \<and> mcl_handoff_control_decode (Some (handoff_emit c @ rest)) (length (handoff_emit c @ rest)) (Some h)
        = Some (MCL_LINK_ERR_RANGE, Some h)"
proof -
  have b: "handoff_emit c ! 0 = 0" "handoff_emit c ! 1 = control_operation c"
    "length (handoff_emit c) = mcl_handoff_control_encoded_size (control_operation c)"
    using v by (simp_all add: handoff_emit_eq handoff_valid_size) (simp_all add: handoff_bytes_def)
  have nz: "mcl_handoff_control_encoded_size (control_operation c) \<ge> 10"
    using v by (auto simp: handoff_valid_def encoded_size_cases)
  show ?thesis
    using k rest b nz handoff_decode_eq [of k "handoff_emit c" h, OF _ h]
      handoff_decode_eq [of "length (handoff_emit c @ rest)" "handoff_emit c @ rest" h, OF _ h]
    by (simp add: nth_append)
qed

theorem handoff_length_exact_witness:
  "mcl_handoff_control_decode (Some (handoff_emit (handoff_parsed [0, 3, 0, 0, 0, 1, 0, 0, 0, 2]))) 9
      (Some blank_control) = Some (MCL_LINK_ERR_TRUNCATED, Some blank_control)
    \<and> mcl_handoff_control_decode (Some (handoff_emit (handoff_parsed [0, 3, 0, 0, 0, 1, 0, 0, 0, 2]) @ [0]))
      (length (handoff_emit (handoff_parsed [0, 3, 0, 0, 0, 1, 0, 0, 0, 2]) @ [0 :: byte]))
      (Some blank_control) = Some (MCL_LINK_ERR_RANGE, Some blank_control)"
proof -
  let ?c = "handoff_parsed [0, 3, 0, 0, 0, 1, 0, 0, 0, 2]"
  have v: "handoff_valid ?c"
    by (simp add: handoff_parsed_def handoff_valid_def carries_def word32_at_def of_be32_def)
  show ?thesis
    by (rule handoff_length_exact [OF v])
      (simp_all add: handoff_emit_eq [OF v] handoff_bytes_def blank_control_def)
qed

text \<open>The constructors build valid controls. With non-zero references and an eight-byte challenge
  that lives outside the control, each of the four returns a control that is valid, has its own
  operation and carries that challenge (or none); a zero reference is refused with nothing changed.\<close>

lemma handoff_made_valid:
  assumes c: "length (control_challenge c) = 8" and bs: "length bs = 8" and r: "m \<noteq> 0" "s \<noteq> 0"
  shows "\<exists>a b d e. mcl_handoff_make_path_challenge (Some c) m s (Challenge_At bs) = Some (MCL_LINK_OK, Some a)
    \<and> mcl_handoff_make_path_response (Some c) m s (Challenge_At bs) = Some (MCL_LINK_OK, Some b)
    \<and> mcl_handoff_make_commit (Some c) m s = Some (MCL_LINK_OK, Some d)
    \<and> mcl_handoff_make_confirm (Some c) m s = Some (MCL_LINK_OK, Some e)
    \<and> handoff_bytes a = [0, 1] @ be32 m @ be32 s @ bs \<and> handoff_bytes b = [0, 2] @ be32 m @ be32 s @ bs
    \<and> handoff_bytes d = [0, 3] @ be32 m @ be32 s \<and> handoff_bytes e = [0, 4] @ be32 m @ be32 s
    \<and> handoff_valid a \<and> handoff_valid b \<and> handoff_valid d \<and> handoff_valid e
    \<and> mcl_handoff_make_commit (Some c) 0 s = Some (MCL_LINK_ERR_RANGE, Some c)"
  using c bs r
  by (simp add: mcl_handoff_make_path_challenge_def mcl_handoff_make_path_response_def
      mcl_handoff_make_commit_def mcl_handoff_make_confirm_def make_with_challenge_eq make_common_eq
      handoff_valid_def handoff_bytes_def carries_def)

theorem handoff_made_valid_witness:
  "\<exists>b. mcl_handoff_make_path_response (Some blank_control) 1 2 (Challenge_At [1, 2, 3, 4, 5, 6, 7, 8])
      = Some (MCL_LINK_OK, Some b) \<and> handoff_bytes b = [0, 2, 0, 0, 0, 1, 0, 0, 0, 2, 1, 2, 3, 4, 5, 6, 7, 8]"
  using handoff_made_valid [of blank_control "[1, 2, 3, 4, 5, 6, 7, 8]" 1 2]
  by (auto simp: blank_control_def be32_def)

text \<open>C33: A challenge pointer into the control itself is lost. When a peer answers a path challenge by
  passing the challenge inside the control it is rebuilding, the constructor clears that challenge
  before copying it: whatever the challenge was, the call succeeds and the response it builds
  echoes eight zero bytes.\<close>

theorem handoff_response_self_echo:
  "length (control_challenge c) = 8 \<and> m \<noteq> 0 \<and> s \<noteq> 0
    \<longrightarrow> mcl_handoff_make_path_response (Some c) m s Challenge_Of_Control = Some (MCL_LINK_OK,
      Some \<lparr>control_operation = 2, control_migration_ref = m, control_session_ref = s,
        control_challenge = replicate 8 0, control_challenge_present = 1\<rparr>)"
  using copy_loop_all [of "replicate 8 0" 8 "replicate 8 0"]
  by (simp add: mcl_handoff_make_path_response_def mcl_handoff_make_with_challenge_def make_common_eq
      challenge_source_def mcl_handoff_copy_challenge_def)

theorem handoff_response_self_echo_witness:
  "\<exists>r. mcl_handoff_make_path_response (Some (handoff_parsed
        [0, 1, 0, 0, 0, 1, 0, 0, 0, 2, 1, 2, 3, 4, 5, 6, 7, 8])) 1 2 Challenge_Of_Control
      = Some (MCL_LINK_OK, Some r) \<and> control_challenge r = replicate 8 0
        \<and> control_challenge (handoff_parsed [0, 1, 0, 0, 0, 1, 0, 0, 0, 2, 1, 2, 3, 4, 5, 6, 7, 8])
          = [1, 2, 3, 4, 5, 6, 7, 8]"
  using handoff_response_self_echo [of "handoff_parsed [0, 1, 0, 0, 0, 1, 0, 0, 0, 2, 1, 2, 3, 4, 5, 6, 7, 8]" 1 2]
  by (simp add: handoff_parsed_def carries_def)

end
