(* ===== verification/Mcl_Negotiation.thy ===== *)
theory Mcl_Negotiation
  imports Mcl_Frame Mcl_Control Mcl_Handoff
begin

text \<open>
  Capability and version negotiation: \<open>src/negotiation.c\<close>. A capability advertises two bitmaps of
  majors, a receive limit and feature bits; a selection is computed from two of them, and a received
  proposal is checked against the local computation (or, without the peer's capability, against the
  local capability alone).

  The two codecs are interpretations of \<open>message_codec\<close>. The selection is compared with the greatest
  common element of the two bitmaps read as sets of numbers.
\<close>

abbreviation (input) MCL_LINK_CAPABILITY_SIZE :: nat where "MCL_LINK_CAPABILITY_SIZE \<equiv> 9"
abbreviation (input) MCL_LINK_NEGOTIATION_SIZE :: nat where "MCL_LINK_NEGOTIATION_SIZE \<equiv> 7"

definition MCL_LINK_NEGOTIATED_FRAME_FLOOR :: nat where
  "MCL_LINK_NEGOTIATED_FRAME_FLOOR =
     MCL_LINK_FRAME_MIN_SIZE + MCL_LINK_FRAME_MAX_OPTIONAL + MCL_HANDOFF_CONTROL_MAX_SIZE"

record mcl_link_capability =
  cap_control_version :: byte
  cap_wire_majors :: u16
  cap_link_majors :: u16
  cap_max_frame :: u16
  cap_features :: u16

record mcl_link_negotiation =
  neg_control_version :: byte
  neg_wire_major :: byte
  neg_link_major :: byte
  neg_max_frame :: u16
  neg_features :: u16

section \<open>Operations\<close>

definition mcl_neg_put_u8 :: "byte list \<Rightarrow> nat \<Rightarrow> byte \<Rightarrow> byte list option" where
  "mcl_neg_put_u8 buf off v = wr buf off v"

definition mcl_neg_put_u16 :: "byte list \<Rightarrow> nat \<Rightarrow> u16 \<Rightarrow> byte list option" where
  "mcl_neg_put_u16 buf off v = do {
     b1 \<leftarrow> wr buf off (ucast (drop_bit 8 v AND 0xFF));
     wr b1 (off + 1) (ucast (v AND 0xFF)) }"

definition mcl_neg_get_u16 :: "byte list \<Rightarrow> u16 option" where
  "mcl_neg_get_u16 p = do {
     a \<leftarrow> rd p 0;
     b \<leftarrow> rd p 1;
     Some (push_bit 8 (ucast a) OR ucast b) }"

interpretation neg16: be_port mcl_neg_put_u16 mcl_neg_get_u16 be16 2
  by (rule be_port_16) (simp_all add: mcl_neg_put_u16_def mcl_neg_get_u16_def of_be16_def)

definition mcl_neg_exact_length :: "nat \<Rightarrow> nat \<Rightarrow> mcl_link_status" where
  "mcl_neg_exact_length data_size expected =
     (if data_size < expected then MCL_LINK_ERR_TRUNCATED
      else if data_size > expected then MCL_LINK_ERR_RANGE
      else MCL_LINK_OK)"

text \<open>The loop of \<open>mcl_neg_highest_bit\<close>; the counter is one above the index, so that it can reach -1.\<close>

primrec highest_bit_loop :: "u16 \<Rightarrow> nat \<Rightarrow> int" where
  "highest_bit_loop bits 0 = -1"
| "highest_bit_loop bits (Suc index) =
     (if bits AND ucast (push_bit index (1 :: u32)) \<noteq> 0 then int index else highest_bit_loop bits index)"

definition mcl_neg_highest_bit :: "u16 \<Rightarrow> int" where
  "mcl_neg_highest_bit bits = highest_bit_loop bits 16"

definition mcl_link_make_capability ::
  "mcl_link_capability option \<Rightarrow> u16 \<Rightarrow> u16 \<Rightarrow> u16 \<Rightarrow> u16
    \<Rightarrow> mcl_link_status \<times> mcl_link_capability option" where
  "mcl_link_make_capability capability wire_majors link_majors max_frame features =
    (case capability of
      None \<Rightarrow> (MCL_LINK_ERR_INVALID_ARGUMENT, None)
    | Some c \<Rightarrow>
        if wire_majors = 0 \<or> link_majors = 0 then (MCL_LINK_ERR_INVALID_ARGUMENT, capability)
        else if unat max_frame < MCL_LINK_NEGOTIATED_FRAME_FLOOR then (MCL_LINK_ERR_RANGE, capability)
        else (MCL_LINK_OK, Some (c\<lparr>cap_control_version := MCL_LINK_CONTROL_VERSION,
          cap_wire_majors := wire_majors, cap_link_majors := link_majors,
          cap_max_frame := max_frame, cap_features := features\<rparr>)))"

definition mcl_link_capability_encode ::
  "mcl_link_capability option \<Rightarrow> byte list option \<Rightarrow> nat \<Rightarrow> nat option
    \<Rightarrow> (mcl_link_status \<times> byte list option \<times> nat option) option" where
  "mcl_link_capability_encode capability out out_size written = (case (capability, out, written) of
     (Some c, Some buf, Some _) \<Rightarrow>
       if cap_control_version c \<noteq> MCL_LINK_CONTROL_VERSION
       then Some (MCL_LINK_ERR_INCOMPATIBLE_VERSION, out, written)
       else if cap_wire_majors c = 0 \<or> cap_link_majors c = 0
       then Some (MCL_LINK_ERR_INVALID_ARGUMENT, out, written)
       else if unat (cap_max_frame c) < MCL_LINK_NEGOTIATED_FRAME_FLOOR
       then Some (MCL_LINK_ERR_RANGE, out, written)
       else if out_size < MCL_LINK_CAPABILITY_SIZE then Some (MCL_LINK_ERR_RANGE, out, written)
       else do {
         buf \<leftarrow> mcl_neg_put_u8 buf 0 (cap_control_version c);
         buf \<leftarrow> mcl_neg_put_u16 buf 1 (cap_wire_majors c);
         buf \<leftarrow> mcl_neg_put_u16 buf 3 (cap_link_majors c);
         buf \<leftarrow> mcl_neg_put_u16 buf 5 (cap_max_frame c);
         buf \<leftarrow> mcl_neg_put_u16 buf 7 (cap_features c);
         Some (MCL_LINK_OK, Some buf, Some MCL_LINK_CAPABILITY_SIZE) }
   | _ \<Rightarrow> Some (MCL_LINK_ERR_INVALID_ARGUMENT, out, written))"

definition mcl_link_capability_decode ::
  "byte list option \<Rightarrow> nat \<Rightarrow> mcl_link_capability option
    \<Rightarrow> (mcl_link_status \<times> mcl_link_capability option) option" where
  "mcl_link_capability_decode inp in_size capability = (case (inp, capability) of
     (Some inb, Some c) \<Rightarrow>
       let status = mcl_neg_exact_length in_size MCL_LINK_CAPABILITY_SIZE in
       if status \<noteq> MCL_LINK_OK then Some (status, capability)
       else do {
         version \<leftarrow> rd inb 0;
         if version \<noteq> MCL_LINK_CONTROL_VERSION
         then Some (MCL_LINK_ERR_INCOMPATIBLE_VERSION, capability)
         else do {
           wire_majors \<leftarrow> mcl_neg_get_u16 (drop 1 inb);
           link_majors \<leftarrow> mcl_neg_get_u16 (drop 3 inb);
           max_frame \<leftarrow> mcl_neg_get_u16 (drop 5 inb);
           if wire_majors = 0 \<or> link_majors = 0 then Some (MCL_LINK_ERR_RANGE, capability)
           else if unat max_frame < MCL_LINK_NEGOTIATED_FRAME_FLOOR
           then Some (MCL_LINK_ERR_RANGE, capability)
           else do {
             features \<leftarrow> mcl_neg_get_u16 (drop 7 inb);
             Some (MCL_LINK_OK, Some (c\<lparr>cap_control_version := version,
               cap_wire_majors := wire_majors, cap_link_majors := link_majors,
               cap_max_frame := max_frame, cap_features := features\<rparr>)) } } }
   | _ \<Rightarrow> Some (MCL_LINK_ERR_INVALID_ARGUMENT, capability))"

definition mcl_link_negotiation_encode ::
  "mcl_link_negotiation option \<Rightarrow> byte list option \<Rightarrow> nat \<Rightarrow> nat option
    \<Rightarrow> (mcl_link_status \<times> byte list option \<times> nat option) option" where
  "mcl_link_negotiation_encode negotiation out out_size written = (case (negotiation, out, written) of
     (Some n, Some buf, Some _) \<Rightarrow>
       if neg_control_version n \<noteq> MCL_LINK_CONTROL_VERSION
       then Some (MCL_LINK_ERR_INCOMPATIBLE_VERSION, out, written)
       else if neg_wire_major n > 15 \<or> neg_link_major n > 15
       then Some (MCL_LINK_ERR_RANGE, out, written)
       else if unat (neg_max_frame n) < MCL_LINK_NEGOTIATED_FRAME_FLOOR
       then Some (MCL_LINK_ERR_RANGE, out, written)
       else if out_size < MCL_LINK_NEGOTIATION_SIZE then Some (MCL_LINK_ERR_RANGE, out, written)
       else do {
         buf \<leftarrow> mcl_neg_put_u8 buf 0 (neg_control_version n);
         buf \<leftarrow> mcl_neg_put_u8 buf 1 (neg_wire_major n);
         buf \<leftarrow> mcl_neg_put_u8 buf 2 (neg_link_major n);
         buf \<leftarrow> mcl_neg_put_u16 buf 3 (neg_max_frame n);
         buf \<leftarrow> mcl_neg_put_u16 buf 5 (neg_features n);
         Some (MCL_LINK_OK, Some buf, Some MCL_LINK_NEGOTIATION_SIZE) }
   | _ \<Rightarrow> Some (MCL_LINK_ERR_INVALID_ARGUMENT, out, written))"

definition mcl_link_negotiation_decode ::
  "byte list option \<Rightarrow> nat \<Rightarrow> mcl_link_negotiation option
    \<Rightarrow> (mcl_link_status \<times> mcl_link_negotiation option) option" where
  "mcl_link_negotiation_decode inp in_size negotiation = (case (inp, negotiation) of
     (Some inb, Some n) \<Rightarrow>
       let status = mcl_neg_exact_length in_size MCL_LINK_NEGOTIATION_SIZE in
       if status \<noteq> MCL_LINK_OK then Some (status, negotiation)
       else do {
         version \<leftarrow> rd inb 0;
         if version \<noteq> MCL_LINK_CONTROL_VERSION
         then Some (MCL_LINK_ERR_INCOMPATIBLE_VERSION, negotiation)
         else do {
           wire_major \<leftarrow> rd inb 1;
           link_major \<leftarrow> rd inb 2;
           max_frame \<leftarrow> mcl_neg_get_u16 (drop 3 inb);
           if wire_major > 15 \<or> link_major > 15 then Some (MCL_LINK_ERR_RANGE, negotiation)
           else if unat max_frame < MCL_LINK_NEGOTIATED_FRAME_FLOOR
           then Some (MCL_LINK_ERR_RANGE, negotiation)
           else do {
             features \<leftarrow> mcl_neg_get_u16 (drop 5 inb);
             Some (MCL_LINK_OK, Some (n\<lparr>neg_control_version := version,
               neg_wire_major := wire_major, neg_link_major := link_major,
               neg_max_frame := max_frame, neg_features := features\<rparr>)) } } }
   | _ \<Rightarrow> Some (MCL_LINK_ERR_INVALID_ARGUMENT, negotiation))"

definition mcl_link_negotiation_select ::
  "mcl_link_capability option \<Rightarrow> mcl_link_capability option \<Rightarrow> mcl_link_negotiation option
    \<Rightarrow> mcl_link_status \<times> mcl_link_negotiation option" where
  "mcl_link_negotiation_select local peer selection = (case (local, peer, selection) of
     (Some l, Some p, Some s) \<Rightarrow>
       let common_wire = cap_wire_majors l AND cap_wire_majors p;
           common_link = cap_link_majors l AND cap_link_majors p;
           wire_major = mcl_neg_highest_bit common_wire;
           link_major = mcl_neg_highest_bit common_link in
       if wire_major < 0 \<or> link_major < 0 then (MCL_LINK_ERR_RANGE, selection)
       else let frame = (if cap_max_frame l < cap_max_frame p then cap_max_frame l else cap_max_frame p) in
         if unat frame < MCL_LINK_NEGOTIATED_FRAME_FLOOR then (MCL_LINK_ERR_RANGE, selection)
         else (MCL_LINK_OK, Some (s\<lparr>neg_control_version := MCL_LINK_CONTROL_VERSION,
           neg_wire_major := of_int wire_major, neg_link_major := of_int link_major,
           neg_max_frame := frame, neg_features := cap_features l AND cap_features p\<rparr>))
   | _ \<Rightarrow> (MCL_LINK_ERR_INVALID_ARGUMENT, selection))"

definition blank_negotiation :: mcl_link_negotiation where
  "blank_negotiation = \<lparr>neg_control_version = 0, neg_wire_major = 0, neg_link_major = 0,
     neg_max_frame = 0, neg_features = 0\<rparr>"

text \<open>The local \<open>expected\<close> of the strong branch has no initial value in C; it is read only after the
  selection has filled it, so a blank one stands for it.\<close>

definition mcl_link_negotiation_check ::
  "mcl_link_negotiation option \<Rightarrow> mcl_link_capability option \<Rightarrow> mcl_link_capability option
    \<Rightarrow> mcl_link_status" where
  "mcl_link_negotiation_check proposal local peer = (case (proposal, local) of
     (Some n, Some l) \<Rightarrow>
       if neg_control_version n \<noteq> MCL_LINK_CONTROL_VERSION then MCL_LINK_ERR_INCOMPATIBLE_VERSION
       else if neg_wire_major n > 15 \<or> neg_link_major n > 15 then MCL_LINK_ERR_RANGE
       else (case peer of
         Some p \<Rightarrow> (case mcl_link_negotiation_select local peer (Some blank_negotiation) of
             (status, selected) \<Rightarrow>
               if status \<noteq> MCL_LINK_OK then status
               else let e = the selected in
                 if neg_wire_major n \<noteq> neg_wire_major e \<or> neg_link_major n \<noteq> neg_link_major e
                   \<or> neg_max_frame n \<noteq> neg_max_frame e \<or> neg_features n \<noteq> neg_features e
                 then MCL_LINK_ERR_RANGE else MCL_LINK_OK)
       | None \<Rightarrow>
           if cap_wire_majors l AND ucast (push_bit (unat (neg_wire_major n)) (1 :: u32)) = 0
           then MCL_LINK_ERR_RANGE
           else if cap_link_majors l AND ucast (push_bit (unat (neg_link_major n)) (1 :: u32)) = 0
           then MCL_LINK_ERR_RANGE
           else if neg_max_frame n > cap_max_frame l
             \<or> unat (neg_max_frame n) < MCL_LINK_NEGOTIATED_FRAME_FLOOR then MCL_LINK_ERR_RANGE
           else if neg_features n AND NOT (cap_features l) \<noteq> 0 then MCL_LINK_ERR_RANGE
           else MCL_LINK_OK)
   | _ \<Rightarrow> MCL_LINK_ERR_INVALID_ARGUMENT)"

section \<open>The highest common major\<close>

lemma FLOOR_eq: "MCL_LINK_NEGOTIATED_FRAME_FLOOR = 42"
  by (simp add: MCL_LINK_NEGOTIATED_FRAME_FLOOR_def MCL_HANDOFF_CONTROL_MAX_SIZE_def)

definition top_bit :: "u16 \<Rightarrow> nat" where
  "top_bit w = Max {i. bit w i}"

lemma bits_finite [simp]: "finite {i. bit (w :: 'a::len word) i}"
  by (rule finite_subset [of _ "{..<LENGTH('a)}"]) (auto dest: bit_imp_le_length)

lemma bits_empty: "{i. bit (w :: 'a::len word) i} = {} \<longleftrightarrow> w = 0"
  by (auto intro: bit_word_eqI)

lemma top_bit_in: "w \<noteq> 0 \<Longrightarrow> bit w (top_bit w)"
  unfolding top_bit_def using Max_in [OF bits_finite, of w] bits_empty [of w] by simp

lemma top_bit_max: "bit w i \<Longrightarrow> i \<le> top_bit w"
  by (simp add: top_bit_def)

lemma top_bit_lt: "w \<noteq> 0 \<Longrightarrow> top_bit w < 16"
  using top_bit_in [of w] bit_imp_le_length [of w "top_bit w"] by simp

lemma one_bit_test: "i < 16 \<Longrightarrow> (w :: u16) AND ucast (push_bit i (1 :: u32)) \<noteq> 0 \<longleftrightarrow> bit w i"
  using mask_test_eq [of "of_nat i" w]
  by (simp add: unat_of_nat mask_has_def word_le_nat_alt del: push_bit_of_1)

lemma one_bit_test_exp: "i < 16 \<Longrightarrow> (w :: u16) AND ucast (2 ^ i :: u32) = 0 \<longleftrightarrow> \<not> bit w i"
  using one_bit_test [of i w] unfolding push_bit_of_1 by blast

lemma highest_bit_loop_eq:
  "n \<le> 16 \<Longrightarrow> (\<And>i. bit w i \<Longrightarrow> i < n) \<Longrightarrow>
    highest_bit_loop w n = (if w = 0 then -1 else int (top_bit w))"
proof (induction n)
  case 0
  then have "w = 0" using bits_empty [of w] by auto
  then show ?case by simp
next
  case (Suc n)
  show ?case
  proof (cases "bit w n")
    case True
    then have nz: "w \<noteq> 0" by auto
    then have "top_bit w = n"
      using Suc.prems(2) [OF top_bit_in] top_bit_max [OF True] by simp
    with nz True Suc.prems show ?thesis by (simp add: one_bit_test_exp)
  next
    case False
    then have "bit w i \<Longrightarrow> i < n" for i using Suc.prems(2) [of i] by (cases "i = n") auto
    with False Suc show ?thesis by (simp add: one_bit_test_exp)
  qed
qed

lemma highest_bit_eq: "mcl_neg_highest_bit w = (if w = 0 then -1 else int (top_bit w))"
  unfolding mcl_neg_highest_bit_def
  by (rule highest_bit_loop_eq) (auto dest: bit_imp_le_length)

definition selectable :: "mcl_link_capability \<Rightarrow> mcl_link_capability \<Rightarrow> bool" where
  "selectable l p \<longleftrightarrow> cap_wire_majors l AND cap_wire_majors p \<noteq> 0
     \<and> cap_link_majors l AND cap_link_majors p \<noteq> 0
     \<and> 42 \<le> unat (min (cap_max_frame l) (cap_max_frame p))"

definition selected :: "mcl_link_capability \<Rightarrow> mcl_link_capability \<Rightarrow> mcl_link_negotiation" where
  "selected l p = \<lparr>neg_control_version = 0,
     neg_wire_major = of_nat (top_bit (cap_wire_majors l AND cap_wire_majors p)),
     neg_link_major = of_nat (top_bit (cap_link_majors l AND cap_link_majors p)),
     neg_max_frame = min (cap_max_frame l) (cap_max_frame p),
     neg_features = cap_features l AND cap_features p\<rparr>"

lemma select_eq: "mcl_link_negotiation_select (Some l) (Some p) (Some s) =
    (if selectable l p then (MCL_LINK_OK, Some (selected l p)) else (MCL_LINK_ERR_RANGE, Some s))"
  by (auto simp: mcl_link_negotiation_select_def Let_def highest_bit_eq selectable_def selected_def
      FLOOR_eq min_def not_less not_le split: if_splits)

lemma selected_commute: "selected l p = selected p l" "selectable l p = selectable p l"
  by (simp_all add: selected_def selectable_def and.commute min.commute)

lemma top_bit_byte: "w \<noteq> 0 \<Longrightarrow> unat (of_nat (top_bit w) :: byte) = top_bit w"
  using top_bit_lt [of w] by (simp add: unat_of_nat)

section \<open>The two codecs\<close>

definition capability_valid :: "mcl_link_capability \<Rightarrow> bool" where
  "capability_valid c \<longleftrightarrow> cap_control_version c = 0 \<and> cap_wire_majors c \<noteq> 0
     \<and> cap_link_majors c \<noteq> 0 \<and> 42 \<le> unat (cap_max_frame c)"

definition negotiation_valid :: "mcl_link_negotiation \<Rightarrow> bool" where
  "negotiation_valid n \<longleftrightarrow> neg_control_version n = 0 \<and> neg_wire_major n \<le> 15
     \<and> neg_link_major n \<le> 15 \<and> 42 \<le> unat (neg_max_frame n)"

definition capability_bytes :: "mcl_link_capability \<Rightarrow> byte list" where
  "capability_bytes c = [cap_control_version c] @ be16 (cap_wire_majors c) @ be16 (cap_link_majors c)
     @ be16 (cap_max_frame c) @ be16 (cap_features c)"

definition negotiation_bytes :: "mcl_link_negotiation \<Rightarrow> byte list" where
  "negotiation_bytes n = [neg_control_version n, neg_wire_major n, neg_link_major n]
     @ be16 (neg_max_frame n) @ be16 (neg_features n)"

definition capability_parsed :: "byte list \<Rightarrow> mcl_link_capability" where
  "capability_parsed B = \<lparr>cap_control_version = B ! 0, cap_wire_majors = word16_at B 1,
     cap_link_majors = word16_at B 3, cap_max_frame = word16_at B 5, cap_features = word16_at B 7\<rparr>"

definition negotiation_parsed :: "byte list \<Rightarrow> mcl_link_negotiation" where
  "negotiation_parsed B = \<lparr>neg_control_version = B ! 0, neg_wire_major = B ! 1, neg_link_major = B ! 2,
     neg_max_frame = word16_at B 3, neg_features = word16_at B 5\<rparr>"

lemma length_capability_bytes [simp]: "length (capability_bytes c) = 9"
  and length_negotiation_bytes [simp]: "length (negotiation_bytes n) = 7"
  by (simp_all add: capability_bytes_def negotiation_bytes_def)

lemma capability_encode_eq:
  assumes cap: "cap \<le> length buf"
  shows "mcl_link_capability_encode (Some c) (Some buf) cap (Some w) = Some
    (if cap_control_version c \<noteq> 0 then (MCL_LINK_ERR_INCOMPATIBLE_VERSION, Some buf, Some w)
     else if cap_wire_majors c = 0 \<or> cap_link_majors c = 0
     then (MCL_LINK_ERR_INVALID_ARGUMENT, Some buf, Some w)
     else if unat (cap_max_frame c) < 42 \<or> cap < 9 then (MCL_LINK_ERR_RANGE, Some buf, Some w)
     else (MCL_LINK_OK, Some (over (capability_bytes c) buf), Some 9))"
proof (cases "cap < 9")
  case True
  then show ?thesis by (simp add: mcl_link_capability_encode_def FLOOR_eq)
next
  case False
  let ?x1 = "[cap_control_version c]"
  let ?x2 = "?x1 @ be16 (cap_wire_majors c)"
  let ?x3 = "?x2 @ be16 (cap_link_majors c)"
  let ?x4 = "?x3 @ be16 (cap_max_frame c)"
  let ?x5 = "?x4 @ be16 (cap_features c)"
  have big: "9 \<le> length buf" using False cap by simp
  have "mcl_neg_put_u8 buf 0 (cap_control_version c) = Some (over ?x1 buf)"
    "mcl_neg_put_u16 (over ?x1 buf) 1 (cap_wire_majors c) = Some (over ?x2 buf)"
    "mcl_neg_put_u16 (over ?x2 buf) 3 (cap_link_majors c) = Some (over ?x3 buf)"
    "mcl_neg_put_u16 (over ?x3 buf) 5 (cap_max_frame c) = Some (over ?x4 buf)"
    "mcl_neg_put_u16 (over ?x4 buf) 7 (cap_features c) = Some (over ?x5 buf)"
    unfolding mcl_neg_put_u8_def by (rule wr_first neg16.put_over; use big in auto)+
  moreover have "?x5 = capability_bytes c" by (simp add: capability_bytes_def)
  ultimately show ?thesis
    using False by (cases "cap_control_version c = 0")
      (simp_all add: mcl_link_capability_encode_def FLOOR_eq del: One_nat_def)
qed

lemma negotiation_encode_eq:
  assumes cap: "cap \<le> length buf"
  shows "mcl_link_negotiation_encode (Some n) (Some buf) cap (Some w) = Some
    (if neg_control_version n \<noteq> 0 then (MCL_LINK_ERR_INCOMPATIBLE_VERSION, Some buf, Some w)
     else if 15 < neg_wire_major n \<or> 15 < neg_link_major n \<or> unat (neg_max_frame n) < 42 \<or> cap < 7
     then (MCL_LINK_ERR_RANGE, Some buf, Some w)
     else (MCL_LINK_OK, Some (over (negotiation_bytes n) buf), Some 7))"
proof (cases "cap < 7")
  case True
  then show ?thesis by (simp add: mcl_link_negotiation_encode_def FLOOR_eq)
next
  case False
  let ?x1 = "[neg_control_version n]"
  let ?x2 = "?x1 @ [neg_wire_major n]"
  let ?x3 = "?x2 @ [neg_link_major n]"
  let ?x4 = "?x3 @ be16 (neg_max_frame n)"
  let ?x5 = "?x4 @ be16 (neg_features n)"
  have big: "7 \<le> length buf" using False cap by simp
  have "mcl_neg_put_u8 buf 0 (neg_control_version n) = Some (over ?x1 buf)"
    "mcl_neg_put_u8 (over ?x1 buf) 1 (neg_wire_major n) = Some (over ?x2 buf)"
    "mcl_neg_put_u8 (over ?x2 buf) 2 (neg_link_major n) = Some (over ?x3 buf)"
    "mcl_neg_put_u16 (over ?x3 buf) 3 (neg_max_frame n) = Some (over ?x4 buf)"
    "mcl_neg_put_u16 (over ?x4 buf) 5 (neg_features n) = Some (over ?x5 buf)"
    unfolding mcl_neg_put_u8_def by (rule wr_first wr_over neg16.put_over; use big in auto)+
  moreover have "?x5 = negotiation_bytes n" by (simp add: negotiation_bytes_def)
  ultimately show ?thesis
    using False by (cases "neg_control_version n = 0")
      (simp_all add: mcl_link_negotiation_encode_def FLOOR_eq del: One_nat_def)
qed

lemma capability_decode_eq:
  assumes n: "n \<le> length B"
  shows "mcl_link_capability_decode (Some B) n (Some c) = Some
    (if n < 9 then (MCL_LINK_ERR_TRUNCATED, Some c)
     else if 9 < n then (MCL_LINK_ERR_RANGE, Some c)
     else if B ! 0 \<noteq> 0 then (MCL_LINK_ERR_INCOMPATIBLE_VERSION, Some c)
     else if word16_at B 1 = 0 \<or> word16_at B 3 = 0 \<or> unat (word16_at B 5) < 42
     then (MCL_LINK_ERR_RANGE, Some c)
     else (MCL_LINK_OK, Some (capability_parsed B)))"
proof (cases "n = 9")
  case True
  have "mcl_neg_get_u16 (drop k B) = Some (word16_at B k)" if "k \<le> 7" for k
    by (rule neg16.get_at) (use that n True in \<open>simp add: be16_word16_at\<close>)
  then show ?thesis using n True
    by (auto simp: mcl_link_capability_decode_def mcl_neg_exact_length_def rd_def FLOOR_eq
        capability_parsed_def simp del: One_nat_def)
next
  case False
  then show ?thesis by (auto simp: mcl_link_capability_decode_def mcl_neg_exact_length_def)
qed

lemma negotiation_decode_eq:
  assumes n: "n \<le> length B"
  shows "mcl_link_negotiation_decode (Some B) n (Some c) = Some
    (if n < 7 then (MCL_LINK_ERR_TRUNCATED, Some c)
     else if 7 < n then (MCL_LINK_ERR_RANGE, Some c)
     else if B ! 0 \<noteq> 0 then (MCL_LINK_ERR_INCOMPATIBLE_VERSION, Some c)
     else if 15 < B ! 1 \<or> 15 < B ! 2 \<or> unat (word16_at B 3) < 42 then (MCL_LINK_ERR_RANGE, Some c)
     else (MCL_LINK_OK, Some (negotiation_parsed B)))"
proof (cases "n = 7")
  case True
  have "mcl_neg_get_u16 (drop k B) = Some (word16_at B k)" if "k \<le> 5" for k
    by (rule neg16.get_at) (use that n True in \<open>simp add: be16_word16_at\<close>)
  then show ?thesis using n True
    by (auto simp: mcl_link_negotiation_decode_def mcl_neg_exact_length_def rd_def FLOOR_eq
        negotiation_parsed_def simp del: One_nat_def)
next
  case False
  then show ?thesis by (auto simp: mcl_link_negotiation_decode_def mcl_neg_exact_length_def)
qed

definition blank_capability :: mcl_link_capability where
  "blank_capability = \<lparr>cap_control_version = 0, cap_wire_majors = 0, cap_link_majors = 0,
     cap_max_frame = 0, cap_features = 0\<rparr>"

definition capability_emit :: "mcl_link_capability \<Rightarrow> byte list" where
  "capability_emit c = (case mcl_link_capability_encode (Some c) (Some (replicate 9 0)) 9 (Some 0) of
     Some (MCL_LINK_OK, Some out, Some n) \<Rightarrow> take n out
   | _ \<Rightarrow> [])"

definition capability_accept :: "byte list \<Rightarrow> mcl_link_capability option" where
  "capability_accept B = (case mcl_link_capability_decode (Some B) (length B) (Some blank_capability) of
     Some (MCL_LINK_OK, c) \<Rightarrow> c
   | _ \<Rightarrow> None)"

definition negotiation_emit :: "mcl_link_negotiation \<Rightarrow> byte list" where
  "negotiation_emit c = (case mcl_link_negotiation_encode (Some c) (Some (replicate 7 0)) 7 (Some 0) of
     Some (MCL_LINK_OK, Some out, Some n) \<Rightarrow> take n out
   | _ \<Rightarrow> [])"

definition negotiation_accept :: "byte list \<Rightarrow> mcl_link_negotiation option" where
  "negotiation_accept B = (case mcl_link_negotiation_decode (Some B) (length B) (Some blank_negotiation) of
     Some (MCL_LINK_OK, c) \<Rightarrow> c
   | _ \<Rightarrow> None)"

lemma capability_emit_eq: "capability_valid c \<Longrightarrow> capability_emit c = capability_bytes c"
  by (simp add: capability_emit_def capability_encode_eq capability_valid_def over_full not_less)

lemma negotiation_emit_eq: "negotiation_valid c \<Longrightarrow> negotiation_emit c = negotiation_bytes c"
  by (simp add: negotiation_emit_def negotiation_encode_eq negotiation_valid_def over_full
      not_le [symmetric])

lemma capability_accept_iff: "capability_accept B = Some c \<longleftrightarrow> length B = 9
    \<and> capability_valid (capability_parsed B) \<and> c = capability_parsed B"
  by (auto simp: capability_accept_def capability_decode_eq capability_valid_def capability_parsed_def
      not_less)

lemma negotiation_accept_iff: "negotiation_accept B = Some c \<longleftrightarrow> length B = 7
    \<and> negotiation_valid (negotiation_parsed B) \<and> c = negotiation_parsed B"
  by (auto simp: negotiation_accept_def negotiation_decode_eq negotiation_valid_def negotiation_parsed_def
      not_less)

lemma capability_parsed_bytes: "capability_parsed (capability_bytes c) = c"
proof -
  let ?v = "[cap_control_version c]"
  have "word16_at (?v @ be16 (cap_wire_majors c) @ ys) 1 = cap_wire_majors c" for ys
    by (rule word16_at_append) simp
  moreover have "word16_at ((?v @ be16 (cap_wire_majors c)) @ be16 (cap_link_majors c) @ ys) 3
      = cap_link_majors c" for ys by (rule word16_at_append) simp
  moreover have "word16_at ((?v @ be16 (cap_wire_majors c) @ be16 (cap_link_majors c))
      @ be16 (cap_max_frame c) @ ys) 5 = cap_max_frame c" for ys by (rule word16_at_append) simp
  moreover have "word16_at ((?v @ be16 (cap_wire_majors c) @ be16 (cap_link_majors c) @ be16 (cap_max_frame c))
      @ be16 (cap_features c) @ []) 7 = cap_features c" by (rule word16_at_append) simp
  moreover have "capability_bytes c ! 0 = cap_control_version c" by (simp add: capability_bytes_def)
  ultimately show ?thesis
    by (simp add: capability_parsed_def capability_bytes_def del: One_nat_def)
qed

lemma negotiation_parsed_bytes: "negotiation_parsed (negotiation_bytes c) = c"
proof -
  let ?v = "[neg_control_version c, neg_wire_major c, neg_link_major c]"
  have "word16_at (?v @ be16 (neg_max_frame c) @ ys) 3 = neg_max_frame c" for ys
    by (rule word16_at_append) simp
  moreover have "word16_at ((?v @ be16 (neg_max_frame c)) @ be16 (neg_features c) @ []) 5 = neg_features c"
    by (rule word16_at_append) simp
  ultimately show ?thesis
    by (simp add: negotiation_parsed_def negotiation_bytes_def)
qed

lemma capability_bytes_parsed:
  assumes "length B = 9" shows "capability_bytes (capability_parsed B) = B"
proof -
  have t: "take (k + 2) B = take k B @ be16 (word16_at B k)" if "k \<le> 7" for k
    by (rule take_word16) (use that assms in simp)
  have "take 1 B = [B ! 0]" using assms by (cases B) auto
  moreover have "take 3 B = take 1 B @ be16 (word16_at B 1)" using t [of 1] by (simp add: numeral_3_eq_3)
  moreover have "take 5 B = take 3 B @ be16 (word16_at B 3)" using t [of 3] by simp
  moreover have "take 7 B = take 5 B @ be16 (word16_at B 5)" using t [of 5] by simp
  moreover have "take 9 B = take 7 B @ be16 (word16_at B 7)" using t [of 7] by simp
  ultimately have "take 9 B = capability_bytes (capability_parsed B)"
    by (simp add: capability_bytes_def capability_parsed_def del: One_nat_def)
  then show ?thesis using assms by simp
qed

lemma negotiation_bytes_parsed:
  assumes "length B = 7" shows "negotiation_bytes (negotiation_parsed B) = B"
proof -
  have t: "take (k + 2) B = take k B @ be16 (word16_at B k)" if "k \<le> 5" for k
    by (rule take_word16) (use that assms in simp)
  have "take 3 B = [B ! 0, B ! 1, B ! 2]"
    using assms by (auto simp: numeral_eq_Suc length_Suc_conv)
  moreover have "take 5 B = take 3 B @ be16 (word16_at B 3)" using t [of 3] by simp
  moreover have "take 7 B = take 5 B @ be16 (word16_at B 5)" using t [of 5] by simp
  ultimately have "take 7 B = negotiation_bytes (negotiation_parsed B)"
    by (simp add: negotiation_bytes_def negotiation_parsed_def del: One_nat_def)
  then show ?thesis using assms by simp
qed

interpretation capability: message_codec capability_emit capability_valid capability_accept
proof
  show "capability_accept (capability_emit c) = Some c" if "capability_valid c" for c
    using that by (simp add: capability_emit_eq capability_accept_iff capability_parsed_bytes)
  show "capability_valid c \<and> capability_emit c = B" if "capability_accept B = Some c" for B c
    using that by (auto simp: capability_emit_eq capability_accept_iff capability_bytes_parsed)
qed

interpretation negotiation: message_codec negotiation_emit negotiation_valid negotiation_accept
proof
  show "negotiation_accept (negotiation_emit c) = Some c" if "negotiation_valid c" for c
    using that by (simp add: negotiation_emit_eq negotiation_accept_iff negotiation_parsed_bytes)
  show "negotiation_valid c \<and> negotiation_emit c = B" if "negotiation_accept B = Some c" for B c
    using that by (auto simp: negotiation_emit_eq negotiation_accept_iff negotiation_bytes_parsed)
qed

section \<open>Properties\<close>

text \<open>C34: The capability and negotiation codecs. As functions of their bytes both decoders accept
  exactly what the matching encoder produces from a valid structure: non-empty major sets (or majors
  that fit a nibble), a receive limit at or above the floor, version zero, and the exact length.\<close>

theorem negotiation_bodies_exact:
  "(capability_accept B = Some c \<longleftrightarrow> capability_valid c \<and> B = capability_emit c)
    \<and> (negotiation_accept C = Some n \<longleftrightarrow> negotiation_valid n \<and> C = negotiation_emit n)
    \<and> (mcl_link_make_capability (Some d) w l m f = (MCL_LINK_OK, Some c)
        \<longleftrightarrow> capability_valid c \<and> c = \<lparr>cap_control_version = 0, cap_wire_majors = w,
              cap_link_majors = l, cap_max_frame = m, cap_features = f\<rparr>)"
proof (intro conjI)
  show "capability_accept B = Some c \<longleftrightarrow> capability_valid c \<and> B = capability_emit c"
    by (rule capability.accept_iff)
  show "negotiation_accept C = Some n \<longleftrightarrow> negotiation_valid n \<and> C = negotiation_emit n"
    by (rule negotiation.accept_iff)
  show "mcl_link_make_capability (Some d) w l m f = (MCL_LINK_OK, Some c)
      \<longleftrightarrow> capability_valid c \<and> c = \<lparr>cap_control_version = 0, cap_wire_majors = w,
            cap_link_majors = l, cap_max_frame = m, cap_features = f\<rparr>"
    by (cases d) (auto simp: mcl_link_make_capability_def FLOOR_eq capability_valid_def not_less)
qed

lemma common_bit: "a AND b \<noteq> 0 \<longleftrightarrow> (\<exists>i. bit a i \<and> bit b i)" for a b :: u16
  using bits_empty [of "a AND b"] by (auto simp: bit_and_iff)

lemma common_features: "x = a AND b \<longleftrightarrow> (\<forall>i. bit x i \<longleftrightarrow> bit a i \<and> bit b i)" for x a b :: u16
  by (auto simp: bit_and_iff intro: bit_word_eqI)

lemma common_limit: "42 \<le> unat (min x y) \<longleftrightarrow> 42 \<le> unat x \<and> 42 \<le> unat y" for x y :: u16
  by (auto simp: min_def word_le_nat_alt)

text \<open>A byte that holds the highest common bit holds the greatest common version.\<close>

lemma common_top_byte:
  fixes a b :: u16
  assumes "\<exists>i. bit a i \<and> bit b i"
  shows "n = (of_nat (top_bit (a AND b)) :: byte) \<longleftrightarrow> unat n = (GREATEST i. bit a i \<and> bit b i)"
proof -
  have nz: "a AND b \<noteq> 0" using assms common_bit by blast
  have "(GREATEST i. bit a i \<and> bit b i) = top_bit (a AND b)"
  proof (rule Greatest_equality)
    show "bit a (top_bit (a AND b)) \<and> bit b (top_bit (a AND b))"
      using top_bit_in [OF nz] by (simp add: bit_and_iff)
    show "\<And>i. bit a i \<and> bit b i \<Longrightarrow> i \<le> top_bit (a AND b)"
      using top_bit_max [of "a AND b"] by (simp add: bit_and_iff)
  qed
  then show ?thesis using top_bit_byte [OF nz] by (metis word_unat_eq_iff)
qed

lemma selected_iff:
  "n = selected l p \<longleftrightarrow> neg_control_version n = 0
    \<and> neg_wire_major n = of_nat (top_bit (cap_wire_majors l AND cap_wire_majors p))
    \<and> neg_link_major n = of_nat (top_bit (cap_link_majors l AND cap_link_majors p))
    \<and> neg_max_frame n = min (cap_max_frame l) (cap_max_frame p)
    \<and> neg_features n = cap_features l AND cap_features p"
  by (cases n) (auto simp: selected_def)

text \<open>C29: What two peers select. The selection succeeds exactly if they share a wire major, share a
  link major and the smaller receive limit reaches the floor; then both majors are common to the two
  peers and no common major is higher, the limit is the smaller one, a feature is on exactly if
  both offered it, and the two peers, each computing from its own side, obtain the same result.\<close>

theorem selection_is_greatest_common:
  "mcl_link_negotiation_select l' p' s' = mcl_link_negotiation_select p' l' s'
   \<and> (mcl_link_negotiation_select (Some l) (Some p) (Some s) = (MCL_LINK_OK, Some n)) =
     ((\<exists>i. bit (cap_wire_majors l) i \<and> bit (cap_wire_majors p) i)
      \<and> (\<exists>i. bit (cap_link_majors l) i \<and> bit (cap_link_majors p) i)
      \<and> 42 \<le> unat (cap_max_frame l) \<and> 42 \<le> unat (cap_max_frame p)
      \<and> neg_control_version n = 0
      \<and> unat (neg_wire_major n) = (GREATEST i. bit (cap_wire_majors l) i \<and> bit (cap_wire_majors p) i)
      \<and> unat (neg_link_major n) = (GREATEST i. bit (cap_link_majors l) i \<and> bit (cap_link_majors p) i)
      \<and> neg_max_frame n = min (cap_max_frame l) (cap_max_frame p)
      \<and> (\<forall>i. bit (neg_features n) i \<longleftrightarrow> bit (cap_features l) i \<and> bit (cap_features p) i))"
proof (rule conjI)
  show "mcl_link_negotiation_select l' p' s' = mcl_link_negotiation_select p' l' s'"
    by (cases l'; cases p'; cases s') (simp_all add: select_eq selected_commute,
      simp_all add: mcl_link_negotiation_select_def)
  let ?w = "\<exists>i. bit (cap_wire_majors l) i \<and> bit (cap_wire_majors p) i"
  let ?k = "\<exists>i. bit (cap_link_majors l) i \<and> bit (cap_link_majors p) i"
  show "(mcl_link_negotiation_select (Some l) (Some p) (Some s) = (MCL_LINK_OK, Some n)) =
     (?w \<and> ?k \<and> 42 \<le> unat (cap_max_frame l) \<and> 42 \<le> unat (cap_max_frame p)
      \<and> neg_control_version n = 0
      \<and> unat (neg_wire_major n) = (GREATEST i. bit (cap_wire_majors l) i \<and> bit (cap_wire_majors p) i)
      \<and> unat (neg_link_major n) = (GREATEST i. bit (cap_link_majors l) i \<and> bit (cap_link_majors p) i)
      \<and> neg_max_frame n = min (cap_max_frame l) (cap_max_frame p)
      \<and> (\<forall>i. bit (neg_features n) i \<longleftrightarrow> bit (cap_features l) i \<and> bit (cap_features p) i))"
  proof (cases "?w \<and> ?k")
    case True
    then show ?thesis
      using selected_iff [of n l p] common_top_byte [OF conjunct1 [OF True], of "neg_wire_major n"]
        common_top_byte [OF conjunct2 [OF True], of "neg_link_major n"]
      unfolding select_eq selectable_def common_bit common_limit common_features by auto
  next
    case False
    then show ?thesis by (auto simp: select_eq selectable_def common_bit)
  qed
qed

lemma features_subset: "(a :: u16) AND NOT b = 0 \<longleftrightarrow> (\<forall>i. bit a i \<longrightarrow> bit b i)"
proof
  assume "a AND NOT b = 0"
  then have "bit (a AND NOT b) i \<longleftrightarrow> False" for i by simp
  then show "\<forall>i. bit a i \<longrightarrow> bit b i" using bit_imp_le_length [of a] by (auto simp: bit_simps)
next
  assume "\<forall>i. bit a i \<longrightarrow> bit b i"
  then show "a AND NOT b = 0" by (intro bit_word_eqI) (auto simp: bit_simps)
qed

lemma selected_valid:
  assumes "selectable l p" shows "negotiation_valid (selected l p)"
proof -
  have "(of_nat (top_bit (a AND b)) :: byte) \<le> 15" if "a AND b \<noteq> 0" for a b :: u16
    using top_bit_lt [OF that] top_bit_byte [OF that] by (simp add: word_le_nat_alt)
  with assms show ?thesis by (simp add: selectable_def negotiation_valid_def selected_def)
qed

definition weakly_acceptable :: "mcl_link_negotiation \<Rightarrow> mcl_link_capability \<Rightarrow> bool" where
  "weakly_acceptable n l \<longleftrightarrow> negotiation_valid n
     \<and> bit (cap_wire_majors l) (unat (neg_wire_major n)) \<and> bit (cap_link_majors l) (unat (neg_link_major n))
     \<and> neg_max_frame n \<le> cap_max_frame l \<and> (\<forall>i. bit (neg_features n) i \<longrightarrow> bit (cap_features l) i)"

lemma strong_check_eq: "mcl_link_negotiation_check (Some n) (Some l) (Some p) = MCL_LINK_OK
    \<longleftrightarrow> selectable l p \<and> n = selected l p"
proof (cases "selectable l p")
  case True
  have "neg_control_version n = 0 \<and> neg_wire_major n = neg_wire_major (selected l p)
      \<and> neg_link_major n = neg_link_major (selected l p) \<and> neg_max_frame n = neg_max_frame (selected l p)
      \<and> neg_features n = neg_features (selected l p) \<longleftrightarrow> n = selected l p"
    by (cases n) (auto simp: selected_def)
  with True selected_valid [OF True] show ?thesis
    by (auto simp: mcl_link_negotiation_check_def select_eq Let_def negotiation_valid_def
        not_le [symmetric])
next
  case False
  then show ?thesis by (auto simp: mcl_link_negotiation_check_def select_eq Let_def)
qed

lemma weak_check_eq: "mcl_link_negotiation_check (Some n) (Some l) None = MCL_LINK_OK
    \<longleftrightarrow> weakly_acceptable n l"
proof (cases "neg_wire_major n \<le> 15 \<and> neg_link_major n \<le> 15")
  case True
  then have "unat (neg_wire_major n) < 16" "unat (neg_link_major n) < 16"
    by (simp_all add: word_le_nat_alt)
  with True show ?thesis
    by (simp add: mcl_link_negotiation_check_def weakly_acceptable_def negotiation_valid_def
        one_bit_test_exp features_subset FLOOR_eq not_le [symmetric])
next
  case False
  then show ?thesis
    by (auto simp: mcl_link_negotiation_check_def weakly_acceptable_def negotiation_valid_def not_le)
qed

lemma selected_weak: "selectable l p \<Longrightarrow> weakly_acceptable (selected l p) l"
  using selected_valid [of l p] top_bit_in [of "cap_wire_majors l AND cap_wire_majors p"]
    top_bit_in [of "cap_link_majors l AND cap_link_majors p"]
  by (simp add: weakly_acceptable_def) (auto simp: selectable_def selected_def top_bit_byte bit_and_iff)

text \<open>What a received proposal has to be. With the peer's capability at hand the check accepts
  exactly the one proposal that the local selection computes, in every field. Without it, the
  check accepts exactly the well-formed proposals that stay within the local capability: a major
  of each kind that this node supports, a limit between the floor and its own, and no feature it
  did not offer.\<close>

lemma negotiation_check_exact:
  "(mcl_link_negotiation_check (Some n) (Some l) (Some p) = MCL_LINK_OK
      \<longleftrightarrow> mcl_link_negotiation_select (Some l) (Some p) (Some s) = (MCL_LINK_OK, Some n))
    \<and> (mcl_link_negotiation_check (Some n) (Some l) None = MCL_LINK_OK \<longleftrightarrow> weakly_acceptable n l)"
  using strong_check_eq [of n l p] weak_check_eq [of n l] by (auto simp: select_eq)

text \<open>One negotiation, over the wire. Two valid capabilities with something in common are sent,
  decoded and fed to the selection by each peer from its own side: both compute the same outcome;
  it survives its own encoding; and when either peer sends it, the other accepts it, whether or not
  it has already seen the sender's capability. Any other proposal fails the strong check.\<close>

lemma negotiation_converges:
  assumes v: "capability_valid l" "capability_valid p"
    and common: "cap_wire_majors l AND cap_wire_majors p \<noteq> 0" "cap_link_majors l AND cap_link_majors p \<noteq> 0"
  shows "\<exists>n. mcl_link_negotiation_select (Some l) (capability_accept (capability_emit p)) (Some s) = (MCL_LINK_OK, Some n)
    \<and> mcl_link_negotiation_select (Some p) (capability_accept (capability_emit l)) (Some t) = (MCL_LINK_OK, Some n)
    \<and> negotiation_accept (negotiation_emit n) = Some n
    \<and> (\<forall>q. mcl_link_negotiation_check (Some q) (Some l) (Some p) = MCL_LINK_OK \<longleftrightarrow> q = n)
    \<and> (\<forall>q. mcl_link_negotiation_check (Some q) (Some p) (Some l) = MCL_LINK_OK \<longleftrightarrow> q = n)
    \<and> mcl_link_negotiation_check (Some n) (Some l) None = MCL_LINK_OK
    \<and> mcl_link_negotiation_check (Some n) (Some p) None = MCL_LINK_OK"
proof -
  have sel: "selectable l p" "selectable p l" "selected p l = selected l p"
    using v common by (auto simp: selectable_def capability_valid_def min_def and.commute selected_commute)
  then have "negotiation_accept (negotiation_emit (selected l p)) = Some (selected l p)"
    by (intro negotiation.accept_emit selected_valid)
  with sel selected_weak [of l p] selected_weak [of p l] show ?thesis
    by (simp add: capability.accept_emit v select_eq strong_check_eq weak_check_eq)
qed

end
