(* ===== verification/Mcl_Rendezvous.thy ===== *)
theory Mcl_Rendezvous
  imports Mcl_Codec
begin

text \<open>
  The rendezvous beacon of \<open>src/endpoint_rendezvous.c\<close>: eight bytes with a magic, a version, a
  transport and the 32-bit endpoint token of an offer. The decoder looks at the first eight bytes
  of whatever a scanner has captured and ignores the rest, so the codec is an interpretation of
  \<open>stream_codec\<close>.
\<close>

abbreviation (input) MCL_RENDEZVOUS_BEACON_SIZE :: nat where "MCL_RENDEZVOUS_BEACON_SIZE \<equiv> 8"
abbreviation (input) MCL_RENDEZVOUS_MAGIC_0 :: byte where "MCL_RENDEZVOUS_MAGIC_0 \<equiv> 0x4D"
abbreviation (input) MCL_RENDEZVOUS_MAGIC_1 :: byte where "MCL_RENDEZVOUS_MAGIC_1 \<equiv> 0x43"
abbreviation (input) MCL_RENDEZVOUS_BEACON_VERSION :: byte where "MCL_RENDEZVOUS_BEACON_VERSION \<equiv> 0"

section \<open>Operations\<close>

definition mcl_rendezvous_put_u32 :: "byte list \<Rightarrow> nat \<Rightarrow> u32 \<Rightarrow> byte list option" where
  "mcl_rendezvous_put_u32 buf off v = do {
     b1 \<leftarrow> wr buf off (ucast (drop_bit 24 v AND 0xFF));
     b2 \<leftarrow> wr b1 (off + 1) (ucast (drop_bit 16 v AND 0xFF));
     b3 \<leftarrow> wr b2 (off + 2) (ucast (drop_bit 8 v AND 0xFF));
     wr b3 (off + 3) (ucast (v AND 0xFF)) }"

definition mcl_rendezvous_get_u32 :: "byte list \<Rightarrow> u32 option" where
  "mcl_rendezvous_get_u32 p = do {
     a \<leftarrow> rd p 0;
     b \<leftarrow> rd p 1;
     c \<leftarrow> rd p 2;
     d \<leftarrow> rd p 3;
     Some (push_bit 24 (ucast a) OR push_bit 16 (ucast b) OR push_bit 8 (ucast c) OR ucast d) }"

interpretation rendezvous32: be_port mcl_rendezvous_put_u32 mcl_rendezvous_get_u32 be32 4
  by (rule be_port_32) (simp_all add: mcl_rendezvous_put_u32_def mcl_rendezvous_get_u32_def of_be32_def)

definition mcl_rendezvous_beacon_encode ::
  "byte \<Rightarrow> u32 \<Rightarrow> byte list option \<Rightarrow> nat \<Rightarrow> nat option
    \<Rightarrow> (mcl_link_status \<times> byte list option \<times> nat option) option" where
  "mcl_rendezvous_beacon_encode transport_id endpoint_token out out_capacity written =
    (case (out, written) of
      (Some buf, Some _) \<Rightarrow>
        if transport_id = MCL_CONTACT_TRANSPORT_RESERVED
        then Some (MCL_LINK_ERR_INVALID_ARGUMENT, out, written)
        else if endpoint_token = 0 then Some (MCL_LINK_ERR_INVALID_ARGUMENT, out, written)
        else if out_capacity < MCL_RENDEZVOUS_BEACON_SIZE
        then Some (MCL_LINK_ERR_RANGE, out, written)
        else do {
          buf \<leftarrow> wr buf 0 MCL_RENDEZVOUS_MAGIC_0;
          buf \<leftarrow> wr buf 1 MCL_RENDEZVOUS_MAGIC_1;
          buf \<leftarrow> wr buf 2 MCL_RENDEZVOUS_BEACON_VERSION;
          buf \<leftarrow> wr buf 3 transport_id;
          buf \<leftarrow> mcl_rendezvous_put_u32 buf 4 endpoint_token;
          Some (MCL_LINK_OK, Some buf, Some MCL_RENDEZVOUS_BEACON_SIZE) }
    | _ \<Rightarrow> Some (MCL_LINK_ERR_INVALID_ARGUMENT, out, written))"

definition mcl_rendezvous_beacon_decode ::
  "byte list option \<Rightarrow> nat \<Rightarrow> byte option \<Rightarrow> u32 option
    \<Rightarrow> (mcl_link_status \<times> byte option \<times> u32 option) option" where
  "mcl_rendezvous_beacon_decode inp in_size transport_id endpoint_token =
    (case (inp, transport_id, endpoint_token) of
      (Some inb, Some _, Some _) \<Rightarrow>
        if in_size < MCL_RENDEZVOUS_BEACON_SIZE
        then Some (MCL_LINK_ERR_TRUNCATED, transport_id, endpoint_token)
        else do {
          m0 \<leftarrow> rd inb 0;
          m1 \<leftarrow> rd inb 1;
          if m0 \<noteq> MCL_RENDEZVOUS_MAGIC_0 \<or> m1 \<noteq> MCL_RENDEZVOUS_MAGIC_1
          then Some (MCL_LINK_ERR_CONTEXT_MISMATCH, transport_id, endpoint_token)
          else do {
            version \<leftarrow> rd inb 2;
            if version \<noteq> MCL_RENDEZVOUS_BEACON_VERSION
            then Some (MCL_LINK_ERR_INCOMPATIBLE_VERSION, transport_id, endpoint_token)
            else do {
              transport \<leftarrow> rd inb 3;
              if transport = MCL_CONTACT_TRANSPORT_RESERVED
              then Some (MCL_LINK_ERR_RANGE, transport_id, endpoint_token)
              else do {
                token \<leftarrow> mcl_rendezvous_get_u32 (drop 4 inb);
                if token = 0 then Some (MCL_LINK_ERR_RANGE, transport_id, endpoint_token)
                else Some (MCL_LINK_OK, Some transport, Some token) } } } }
    | _ \<Rightarrow> Some (MCL_LINK_ERR_INVALID_ARGUMENT, transport_id, endpoint_token))"

definition mcl_rendezvous_beacon_matches ::
  "byte list option \<Rightarrow> nat \<Rightarrow> byte \<Rightarrow> u32 \<Rightarrow> byte option" where
  "mcl_rendezvous_beacon_matches data data_size expected_transport_id expected_token = do {
     (status, transport_id, token) \<leftarrow> mcl_rendezvous_beacon_decode data data_size (Some 0) (Some 0);
     if status \<noteq> MCL_LINK_OK then Some 0
     else if transport_id \<noteq> Some expected_transport_id then Some 0
     else if token \<noteq> Some expected_token then Some 0
     else Some 1 }"

section \<open>What a captured buffer deserves\<close>

definition beacon_bytes :: "byte \<Rightarrow> u32 \<Rightarrow> byte list" where
  "beacon_bytes transport token = [0x4D, 0x43, 0, transport] @ be32 token"

lemma length_beacon_bytes [simp]: "length (beacon_bytes t k) = 8"
  by (simp add: beacon_bytes_def)

lemma beacon_encode_eq:
  assumes "cap \<le> length buf"
  shows "mcl_rendezvous_beacon_encode t k (Some buf) cap (Some w) = Some
    (if t = 0 \<or> k = 0 then (MCL_LINK_ERR_INVALID_ARGUMENT, Some buf, Some w)
     else if cap < 8 then (MCL_LINK_ERR_RANGE, Some buf, Some w)
     else (MCL_LINK_OK, Some (over (beacon_bytes t k) buf), Some 8))"
proof -
  have "mcl_rendezvous_put_u32 (over [x, y, z, u] buf) 4 v = Some (over ([x, y, z, u] @ be32 v) buf)"
    if "8 \<le> cap" for x y z u v
    by (rule rendezvous32.put_over) (use that assms in auto)
  moreover have "buf \<noteq> []" if "8 \<le> cap" using that assms by auto
  ultimately show ?thesis
    using assms
    by (auto simp: mcl_rendezvous_beacon_encode_def wr_first wr_over beacon_bytes_def)
qed

lemma beacon_decode_eq:
  assumes "n \<le> length B"
  shows "mcl_rendezvous_beacon_decode (Some B) n (Some t) (Some k) = Some
    (if n < 8 then (MCL_LINK_ERR_TRUNCATED, Some t, Some k)
     else if B ! 0 \<noteq> 0x4D \<or> B ! 1 \<noteq> 0x43 then (MCL_LINK_ERR_CONTEXT_MISMATCH, Some t, Some k)
     else if B ! 2 \<noteq> 0 then (MCL_LINK_ERR_INCOMPATIBLE_VERSION, Some t, Some k)
     else if B ! 3 = 0 \<or> word32_at B 4 = 0 then (MCL_LINK_ERR_RANGE, Some t, Some k)
     else (MCL_LINK_OK, Some (B ! 3), Some (word32_at B 4)))"
proof -
  have "mcl_rendezvous_get_u32 (drop 4 B) = Some (word32_at B 4)" if "8 \<le> n"
    by (rule rendezvous32.get_at) (use that assms in \<open>simp add: be32_word32_at\<close>)
  then show ?thesis
    using assms by (auto simp: mcl_rendezvous_beacon_decode_def rd_def)
qed

section \<open>The codec\<close>

definition beacon_emit :: "byte \<times> u32 \<Rightarrow> byte list" where
  "beacon_emit x = (case mcl_rendezvous_beacon_encode (fst x) (snd x) (Some (replicate 8 0)) 8 (Some 0) of
     Some (MCL_LINK_OK, Some out, Some n) \<Rightarrow> take n out
   | _ \<Rightarrow> [])"

definition beacon_accept :: "byte list \<Rightarrow> ((byte \<times> u32) \<times> nat) option" where
  "beacon_accept B = (case mcl_rendezvous_beacon_decode (Some B) (length B) (Some 0) (Some 0) of
     Some (MCL_LINK_OK, Some t, Some k) \<Rightarrow> Some ((t, k), 8)
   | _ \<Rightarrow> None)"

definition beacon_valid :: "byte \<times> u32 \<Rightarrow> bool" where
  "beacon_valid x \<longleftrightarrow> fst x \<noteq> 0 \<and> snd x \<noteq> 0"

lemma beacon_emit_eq: "beacon_emit x = (if beacon_valid x then beacon_bytes (fst x) (snd x) else [])"
  by (simp add: beacon_emit_def beacon_encode_eq beacon_valid_def over_full)

lemma beacon_taken:
  assumes "8 \<le> length B" "B ! 0 = 0x4D" "B ! 1 = 0x43" "B ! 2 = 0"
  shows "take 8 B = beacon_bytes (B ! 3) (word32_at B 4)"
proof -
  obtain b0 b1 b2 b3 ys where B: "B = b0 # b1 # b2 # b3 # ys"
    using assms(1) by (auto simp: numeral_eq_Suc Suc_le_length_iff)
  have "take (4 + 4) B = take 4 B @ be32 (word32_at B 4)"
    by (rule take_word32) (use assms(1) in simp)
  then show ?thesis using assms B by (simp add: beacon_bytes_def)
qed

interpretation beacon: stream_codec beacon_emit beacon_valid beacon_accept
proof
  fix x rest assume v: "beacon_valid x"
  have "word32_at ([0x4D, 0x43, 0, fst x] @ be32 (snd x) @ rest) 4 = snd x"
    by (rule word32_at_append) simp
  with v show "beacon_accept (beacon_emit x @ rest) = Some (x, length (beacon_emit x))"
    by (simp add: beacon_emit_eq beacon_accept_def beacon_decode_eq beacon_valid_def beacon_bytes_def)
  from v show "beacon_emit x \<noteq> []" by (simp add: beacon_emit_eq beacon_bytes_def)
next
  fix B x k assume "beacon_accept B = Some (x, k)"
  then have B: "8 \<le> length B" "B ! 0 = 0x4D" "B ! 1 = 0x43" "B ! 2 = 0"
    and x: "x = (B ! 3, word32_at B 4)" "k = 8" "beacon_valid x"
    by (auto simp: beacon_accept_def beacon_decode_eq beacon_valid_def split: if_splits)
  show "beacon_valid x \<and> k \<le> length B \<and> beacon_emit x = take k B"
    using x beacon_taken [OF B] B(1) by (simp add: beacon_emit_eq)
qed

section \<open>Properties\<close>

text \<open>C36: What a scanner looking for one beacon answers. On any captured buffer the match is total
  and reads inside it, and it is positive exactly if the capture starts with the eight bytes the
  encoder writes for that transport and token: no other traffic, no other transport, no other token,
  and neither the reserved transport nor the reserved token can ever match.\<close>

theorem beacon_match_exact:
  "mcl_rendezvous_beacon_matches (Some B) (length B) t k
    = Some (if beacon_valid (t, k) \<and> (\<exists>rest. B = beacon_emit (t, k) @ rest) then 1 else 0)"
proof -
  have d: "mcl_rendezvous_beacon_matches (Some B) (length B) t k
      = Some (if \<exists>n. beacon_accept B = Some ((t, k), n) then 1 else 0)"
    by (auto simp: mcl_rendezvous_beacon_matches_def beacon_accept_def beacon_decode_eq)
  have "(\<exists>n. beacon_accept B = Some ((t, k), n))
      \<longleftrightarrow> beacon_valid (t, k) \<and> (\<exists>rest. B = beacon_emit (t, k) @ rest)"
    using beacon.emit_accept [of B "(t, k)"] beacon.accept_emit [of "(t, k)"]
    by (metis append_take_drop_id)
  with d show ?thesis by simp
qed

text \<open>The beacon decoder, on every branch and in the order of its checks, for every number of
  captured bytes; a refusal leaves both out-parameters as they were. The encoder writes its eight
  bytes and nothing beyond them, and a zeroed buffer is never a beacon.\<close>

lemma beacon_branches:
  assumes "n \<le> length B" and "cap \<le> length buf"
  shows "mcl_rendezvous_beacon_decode (Some B) n (Some t) (Some k) = Some
    (if n < 8 then (MCL_LINK_ERR_TRUNCATED, Some t, Some k)
     else if B ! 0 \<noteq> 0x4D \<or> B ! 1 \<noteq> 0x43 then (MCL_LINK_ERR_CONTEXT_MISMATCH, Some t, Some k)
     else if B ! 2 \<noteq> 0 then (MCL_LINK_ERR_INCOMPATIBLE_VERSION, Some t, Some k)
     else if B ! 3 = 0 \<or> word32_at B 4 = 0 then (MCL_LINK_ERR_RANGE, Some t, Some k)
     else (MCL_LINK_OK, Some (B ! 3), Some (word32_at B 4)))
    \<and> mcl_rendezvous_beacon_encode t k (Some buf) cap (Some w) = Some
    (if t = 0 \<or> k = 0 then (MCL_LINK_ERR_INVALID_ARGUMENT, Some buf, Some w)
     else if cap < 8 then (MCL_LINK_ERR_RANGE, Some buf, Some w)
     else (MCL_LINK_OK, Some (beacon_bytes t k @ drop 8 buf), Some 8))"
  using beacon_decode_eq [OF assms(1)] beacon_encode_eq [OF assms(2)] by (simp add: over_def)

theorem beacon_branches_witness:
  "mcl_rendezvous_beacon_decode (Some [0, 0, 0, 0, 0, 0, 0, 0, 0]) 9 (Some 1) (Some 2)
      = Some (MCL_LINK_ERR_CONTEXT_MISMATCH, Some 1, Some 2)
    \<and> mcl_rendezvous_beacon_encode 1 2 (Some [9, 9, 9, 9, 9, 9, 9, 9, 9]) 9 (Some 0)
      = Some (MCL_LINK_OK, Some [0x4D, 0x43, 0, 1, 0, 0, 0, 2, 9], Some 8)"
  using beacon_branches [of 9 "[0, 0, 0, 0, 0, 0, 0, 0, 0]" 9 "[9, 9, 9, 9, 9, 9, 9, 9, 9]" 1 2 0]
  by (simp add: beacon_bytes_def be32_def)

end
