(* ===== verification/Mcl_Contact.thy ===== *)
theory Mcl_Contact
  imports Mcl_Calls
begin

text \<open>
  The contact state machine of \<open>src/contact.c\<close>: which medium carries a contact, and the stages of a
  change of medium (offer, agreement, validation of the candidate path, commit). The state is the
  record \<open>mcl_contact\<close>; every function of the source is a definition over it, with its guards and
  early returns in their order and its arrays as memory.

  \<open>contact_call\<close> and \<open>contact_exec\<close> make the state-changing API calls a machine; \<open>contact_inv\<close> is its
  invariant, and the interpretation \<open>contact\<close> of \<open>call_machine\<close> at the end of this theory makes the
  facts about runs available. The abstract view of a contact is in \<open>Mcl_Contact_Spec\<close>.
\<close>

section \<open>Types and constants\<close>

abbreviation (input) MCL_CONTACT_ROLE_INITIATOR :: byte where "MCL_CONTACT_ROLE_INITIATOR \<equiv> 0"
abbreviation (input) MCL_CONTACT_ROLE_RESPONDER :: byte where "MCL_CONTACT_ROLE_RESPONDER \<equiv> 1"

abbreviation (input) MCL_CONTACT_STATE_NONE :: byte where "MCL_CONTACT_STATE_NONE \<equiv> 0"
abbreviation (input) MCL_CONTACT_STATE_ACTIVE :: byte where "MCL_CONTACT_STATE_ACTIVE \<equiv> 1"
abbreviation (input) MCL_CONTACT_STATE_OFFERED :: byte where "MCL_CONTACT_STATE_OFFERED \<equiv> 2"
abbreviation (input) MCL_CONTACT_STATE_AGREED :: byte where "MCL_CONTACT_STATE_AGREED \<equiv> 3"
abbreviation (input) MCL_CONTACT_STATE_VALIDATING :: byte where "MCL_CONTACT_STATE_VALIDATING \<equiv> 4"
abbreviation (input) MCL_CONTACT_STATE_VALIDATED :: byte where "MCL_CONTACT_STATE_VALIDATED \<equiv> 5"
abbreviation (input) MCL_CONTACT_STATE_COMMITTING :: byte where "MCL_CONTACT_STATE_COMMITTING \<equiv> 6"
abbreviation (input) MCL_CONTACT_STATE_CLOSED :: byte where "MCL_CONTACT_STATE_CLOSED \<equiv> 7"

abbreviation (input) MCL_CONTACT_COLLISION_LOCAL_WINS :: byte where "MCL_CONTACT_COLLISION_LOCAL_WINS \<equiv> 0"
abbreviation (input) MCL_CONTACT_COLLISION_PEER_WINS :: byte where "MCL_CONTACT_COLLISION_PEER_WINS \<equiv> 1"
abbreviation (input) MCL_CONTACT_COLLISION_TIE_ABORT :: byte where "MCL_CONTACT_COLLISION_TIE_ABORT \<equiv> 2"

record mcl_contact =
  contact_local_ref :: u32
  contact_peer_ref :: u32
  contact_session_ref :: u32
  contact_role :: byte
  contact_state :: byte
  contact_active_transport :: byte
  contact_pending_migration_ref :: u32
  contact_pending_transport :: byte
  contact_pending_profile :: byte
  contact_pending_endpoint_token :: u32
  contact_pending_validity :: byte
  contact_challenge :: "byte list"
  contact_challenge_valid :: byte
  contact_peer_ref_valid :: byte
  contact_session_valid :: byte
  contact_migration_count :: u16
  contact_completed_migration_ref :: u32

section \<open>Static helpers\<close>

definition mcl_contact_clear_challenge :: "mcl_contact \<Rightarrow> mcl_contact option" where
  "mcl_contact_clear_challenge c = do {
     challenge \<leftarrow> zero_loop (contact_challenge c) 0 0 MCL_CONTACT_CHALLENGE_SIZE;
     Some (c\<lparr>contact_challenge := challenge, contact_challenge_valid := 0\<rparr>) }"

definition mcl_contact_store_challenge :: "mcl_contact \<Rightarrow> byte list \<Rightarrow> mcl_contact option" where
  "mcl_contact_store_challenge c challenge = do {
     stored \<leftarrow> copy_loop (contact_challenge c) 0 challenge 0 MCL_CONTACT_CHALLENGE_SIZE;
     Some (c\<lparr>contact_challenge := stored, contact_challenge_valid := 1\<rparr>) }"

fun challenge_diff_loop :: "byte list \<Rightarrow> byte list \<Rightarrow> nat \<Rightarrow> nat \<Rightarrow> u32 \<Rightarrow> u32 option" where
  "challenge_diff_loop a e i 0 differing = Some differing"
| "challenge_diff_loop a e i (Suc n) differing = do {
     x \<leftarrow> rd a i;
     y \<leftarrow> rd e i;
     challenge_diff_loop a e (Suc i) n (differing OR ucast (x XOR y)) }"

definition mcl_contact_challenge_equals :: "mcl_contact \<Rightarrow> byte list \<Rightarrow> bool option" where
  "mcl_contact_challenge_equals c echo = do {
     differing \<leftarrow> challenge_diff_loop (contact_challenge c) echo 0 MCL_CONTACT_CHALLENGE_SIZE 0;
     Some (differing = 0) }"

definition mcl_contact_clear_pending :: "mcl_contact \<Rightarrow> mcl_contact option" where
  "mcl_contact_clear_pending c = mcl_contact_clear_challenge
     (c\<lparr>contact_pending_migration_ref := MCL_CONTACT_MIGRATION_NONE,
        contact_pending_transport := MCL_CONTACT_TRANSPORT_RESERVED,
        contact_pending_profile := 0, contact_pending_endpoint_token := 0,
        contact_pending_validity := 0\<rparr>)"

definition mcl_contact_clear :: "mcl_contact \<Rightarrow> mcl_contact option" where
  "mcl_contact_clear c = mcl_contact_clear_pending
     (c\<lparr>contact_local_ref := 0, contact_peer_ref := 0,
        contact_session_ref := MCL_CONTACT_SESSION_NONE, contact_role := MCL_CONTACT_ROLE_INITIATOR,
        contact_state := MCL_CONTACT_STATE_NONE,
        contact_active_transport := MCL_CONTACT_TRANSPORT_RESERVED,
        contact_peer_ref_valid := 0, contact_session_valid := 0, contact_migration_count := 0,
        contact_completed_migration_ref := MCL_CONTACT_MIGRATION_NONE\<rparr>)"

definition mcl_contact_migration_in_progress :: "mcl_contact \<Rightarrow> bool" where
  "mcl_contact_migration_in_progress c \<longleftrightarrow>
     contact_state c = MCL_CONTACT_STATE_OFFERED \<or> contact_state c = MCL_CONTACT_STATE_AGREED
     \<or> contact_state c = MCL_CONTACT_STATE_VALIDATING \<or> contact_state c = MCL_CONTACT_STATE_VALIDATED
     \<or> contact_state c = MCL_CONTACT_STATE_COMMITTING"

definition mcl_contact_migration_is_revocable :: "mcl_contact \<Rightarrow> bool" where
  "mcl_contact_migration_is_revocable c \<longleftrightarrow>
     contact_state c = MCL_CONTACT_STATE_OFFERED \<or> contact_state c = MCL_CONTACT_STATE_AGREED
     \<or> contact_state c = MCL_CONTACT_STATE_VALIDATING \<or> contact_state c = MCL_CONTACT_STATE_VALIDATED"

definition mcl_contact_settle_commit :: "mcl_contact \<Rightarrow> u32 \<Rightarrow> mcl_contact option" where
  "mcl_contact_settle_commit c migration_ref = do {
     c1 \<leftarrow> mcl_contact_clear_pending
            (c\<lparr>contact_active_transport := contact_pending_transport c,
               contact_completed_migration_ref := migration_ref\<rparr>);
     let c2 = c1\<lparr>contact_state := MCL_CONTACT_STATE_ACTIVE\<rparr>;
     Some (if contact_migration_count c2 < 0xFFFF
           then c2\<lparr>contact_migration_count := contact_migration_count c2 + 1\<rparr> else c2) }"

definition mcl_contact_check_transaction :: "mcl_contact \<Rightarrow> u32 \<Rightarrow> u32 \<Rightarrow> mcl_link_status" where
  "mcl_contact_check_transaction c migration_ref session_ref =
     (if contact_session_valid c = 0 then MCL_LINK_ERR_INVALID_STATE
      else if migration_ref \<noteq> contact_pending_migration_ref c then MCL_LINK_ERR_CONTEXT_MISMATCH
      else if session_ref \<noteq> contact_session_ref c then MCL_LINK_ERR_CONTEXT_MISMATCH
      else MCL_LINK_OK)"

section \<open>Calls that change the contact\<close>

type_synonym contact_result = "(mcl_link_status \<times> mcl_contact option) option"

definition mcl_contact_begin :: "mcl_contact option \<Rightarrow> byte \<Rightarrow> u32 \<Rightarrow> byte \<Rightarrow> contact_result" where
  "mcl_contact_begin contact role local_ref transport_id = (case contact of
     None \<Rightarrow> Some (MCL_LINK_ERR_INVALID_ARGUMENT, None)
   | Some c \<Rightarrow>
       if role \<noteq> MCL_CONTACT_ROLE_INITIATOR \<and> role \<noteq> MCL_CONTACT_ROLE_RESPONDER
       then Some (MCL_LINK_ERR_INVALID_ARGUMENT, contact)
       else if transport_id = MCL_CONTACT_TRANSPORT_RESERVED
       then Some (MCL_LINK_ERR_INVALID_ARGUMENT, contact)
       else do {
         c' \<leftarrow> mcl_contact_clear c;
         Some (MCL_LINK_OK, Some (c'\<lparr>contact_role := role, contact_local_ref := local_ref,
           contact_active_transport := transport_id, contact_state := MCL_CONTACT_STATE_ACTIVE\<rparr>)) })"

definition mcl_contact_set_peer_ref :: "mcl_contact option \<Rightarrow> u32 \<Rightarrow> contact_result" where
  "mcl_contact_set_peer_ref contact peer_ref = (case contact of
     None \<Rightarrow> Some (MCL_LINK_ERR_INVALID_ARGUMENT, None)
   | Some c \<Rightarrow>
       if contact_state c = MCL_CONTACT_STATE_NONE \<or> contact_state c = MCL_CONTACT_STATE_CLOSED
       then Some (MCL_LINK_ERR_INVALID_STATE, contact)
       else if contact_peer_ref_valid c \<noteq> 0
       then Some (if peer_ref = contact_peer_ref c then MCL_LINK_OK else MCL_LINK_ERR_CONTEXT_MISMATCH,
                  contact)
       else Some (MCL_LINK_OK, Some (c\<lparr>contact_peer_ref := peer_ref, contact_peer_ref_valid := 1\<rparr>)))"

definition mcl_contact_record_offer ::
  "mcl_contact option \<Rightarrow> u32 \<Rightarrow> byte \<Rightarrow> byte \<Rightarrow> u32 \<Rightarrow> byte \<Rightarrow> contact_result" where
  "mcl_contact_record_offer contact migration_ref transport_id profile_id endpoint_token validity =
    (case contact of
      None \<Rightarrow> Some (MCL_LINK_ERR_INVALID_ARGUMENT, None)
    | Some c \<Rightarrow>
        if migration_ref = MCL_CONTACT_MIGRATION_NONE
        then Some (MCL_LINK_ERR_INVALID_ARGUMENT, contact)
        else if transport_id = MCL_CONTACT_TRANSPORT_RESERVED
        then Some (MCL_LINK_ERR_INVALID_ARGUMENT, contact)
        else if profile_id = MCL_CONTACT_PROFILE_RESERVED
        then Some (MCL_LINK_ERR_INVALID_ARGUMENT, contact)
        else if contact_state c = MCL_CONTACT_STATE_OFFERED
             \<and> migration_ref = contact_pending_migration_ref c
        then (if transport_id \<noteq> contact_pending_transport c
                 \<or> profile_id \<noteq> contact_pending_profile c
                 \<or> endpoint_token \<noteq> contact_pending_endpoint_token c
                 \<or> validity \<noteq> contact_pending_validity c
              then Some (MCL_LINK_ERR_CONTEXT_MISMATCH, contact)
              else Some (MCL_LINK_OK, contact))
        else if contact_state c \<noteq> MCL_CONTACT_STATE_ACTIVE
        then Some (MCL_LINK_ERR_INVALID_STATE, contact)
        else if transport_id = contact_active_transport c
        then Some (MCL_LINK_ERR_INVALID_ARGUMENT, contact)
        else do {
          c' \<leftarrow> mcl_contact_clear_challenge
                 (c\<lparr>contact_pending_migration_ref := migration_ref,
                    contact_pending_transport := transport_id,
                    contact_pending_profile := profile_id,
                    contact_pending_endpoint_token := endpoint_token,
                    contact_pending_validity := validity\<rparr>);
          Some (MCL_LINK_OK, Some (c'\<lparr>contact_state := MCL_CONTACT_STATE_OFFERED\<rparr>)) })"

definition mcl_contact_resolve_offer_collision ::
  "mcl_contact option \<Rightarrow> u32 \<Rightarrow> u32 \<Rightarrow> byte \<Rightarrow> byte \<Rightarrow> u32 \<Rightarrow> byte \<Rightarrow> byte option
    \<Rightarrow> (mcl_link_status \<times> mcl_contact option \<times> byte option) option" where
  "mcl_contact_resolve_offer_collision contact peer_source_ref peer_migration_ref
     peer_transport_id peer_profile_id peer_endpoint_token peer_validity outcome =
    (case (contact, outcome) of
      (Some c, Some _) \<Rightarrow>
        if peer_migration_ref = MCL_CONTACT_MIGRATION_NONE
        then Some (MCL_LINK_ERR_INVALID_ARGUMENT, contact, outcome)
        else if peer_transport_id = MCL_CONTACT_TRANSPORT_RESERVED
        then Some (MCL_LINK_ERR_INVALID_ARGUMENT, contact, outcome)
        else if peer_profile_id = MCL_CONTACT_PROFILE_RESERVED
        then Some (MCL_LINK_ERR_INVALID_ARGUMENT, contact, outcome)
        else if contact_state c \<noteq> MCL_CONTACT_STATE_OFFERED
        then Some (MCL_LINK_ERR_INVALID_STATE, contact, outcome)
        else
          let (peer_wins, tie) =
            (if peer_source_ref \<noteq> contact_local_ref c
             then (peer_source_ref > contact_local_ref c, False)
             else if peer_migration_ref \<noteq> contact_pending_migration_ref c
             then (peer_migration_ref > contact_pending_migration_ref c, False)
             else (False, True)) in
          if tie then do {
            c' \<leftarrow> mcl_contact_clear_pending c;
            Some (MCL_LINK_OK, Some (c'\<lparr>contact_state := MCL_CONTACT_STATE_ACTIVE\<rparr>),
                  Some MCL_CONTACT_COLLISION_TIE_ABORT) }
          else if peer_wins then
            (if peer_transport_id = contact_active_transport c
             then Some (MCL_LINK_ERR_INVALID_ARGUMENT, contact, outcome)
             else do {
               c' \<leftarrow> mcl_contact_clear_challenge
                      (c\<lparr>contact_pending_migration_ref := peer_migration_ref,
                         contact_pending_transport := peer_transport_id,
                         contact_pending_profile := peer_profile_id,
                         contact_pending_endpoint_token := peer_endpoint_token,
                         contact_pending_validity := peer_validity\<rparr>);
               Some (MCL_LINK_OK, Some (c'\<lparr>contact_state := MCL_CONTACT_STATE_OFFERED\<rparr>),
                     Some MCL_CONTACT_COLLISION_PEER_WINS) })
          else Some (MCL_LINK_OK, contact, Some MCL_CONTACT_COLLISION_LOCAL_WINS)
    | _ \<Rightarrow> Some (MCL_LINK_ERR_INVALID_ARGUMENT, contact, outcome))"

definition mcl_contact_agree ::
  "mcl_contact option \<Rightarrow> u32 \<Rightarrow> byte \<Rightarrow> byte \<Rightarrow> u32 \<Rightarrow> contact_result" where
  "mcl_contact_agree contact migration_ref transport_id profile_id session_ref = (case contact of
     None \<Rightarrow> Some (MCL_LINK_ERR_INVALID_ARGUMENT, None)
   | Some c \<Rightarrow>
       if session_ref = MCL_CONTACT_SESSION_NONE then Some (MCL_LINK_ERR_INVALID_ARGUMENT, contact)
       else if contact_session_valid c \<noteq> 0 \<and> session_ref \<noteq> contact_session_ref c
       then Some (MCL_LINK_ERR_CONTEXT_MISMATCH, contact)
       else if contact_state c = MCL_CONTACT_STATE_AGREED
            \<or> contact_state c = MCL_CONTACT_STATE_VALIDATING
            \<or> contact_state c = MCL_CONTACT_STATE_VALIDATED
            \<or> contact_state c = MCL_CONTACT_STATE_COMMITTING
       then (if migration_ref \<noteq> contact_pending_migration_ref c
                \<or> transport_id \<noteq> contact_pending_transport c
                \<or> profile_id \<noteq> contact_pending_profile c
             then Some (MCL_LINK_ERR_CONTEXT_MISMATCH, contact)
             else Some (MCL_LINK_OK, contact))
       else if contact_state c \<noteq> MCL_CONTACT_STATE_OFFERED
       then Some (MCL_LINK_ERR_INVALID_STATE, contact)
       else if migration_ref \<noteq> contact_pending_migration_ref c
       then Some (MCL_LINK_ERR_CONTEXT_MISMATCH, contact)
       else if transport_id \<noteq> contact_pending_transport c
       then Some (MCL_LINK_ERR_CONTEXT_MISMATCH, contact)
       else if profile_id \<noteq> contact_pending_profile c
       then Some (MCL_LINK_ERR_CONTEXT_MISMATCH, contact)
       else Some (MCL_LINK_OK, Some (c\<lparr>contact_session_ref := session_ref, contact_session_valid := 1,
              contact_state := MCL_CONTACT_STATE_AGREED\<rparr>)))"

definition mcl_contact_validation_begin ::
  "mcl_contact option \<Rightarrow> byte list option \<Rightarrow> contact_result" where
  "mcl_contact_validation_begin contact challenge = (case (contact, challenge) of
     (Some c, Some ch) \<Rightarrow>
       if contact_state c \<noteq> MCL_CONTACT_STATE_AGREED then Some (MCL_LINK_ERR_INVALID_STATE, contact)
       else if contact_session_valid c = 0 then Some (MCL_LINK_ERR_INVALID_STATE, contact)
       else do {
         c' \<leftarrow> mcl_contact_store_challenge c ch;
         Some (MCL_LINK_OK, Some (c'\<lparr>contact_state := MCL_CONTACT_STATE_VALIDATING\<rparr>)) }
   | _ \<Rightarrow> Some (MCL_LINK_ERR_INVALID_ARGUMENT, contact))"

definition mcl_contact_validation_response ::
  "mcl_contact option \<Rightarrow> u32 \<Rightarrow> u32 \<Rightarrow> byte list option \<Rightarrow> contact_result" where
  "mcl_contact_validation_response contact migration_ref session_ref echo = (case (contact, echo) of
     (Some c, Some e) \<Rightarrow>
       if contact_state c = MCL_CONTACT_STATE_VALIDATED then
         (let status = mcl_contact_check_transaction c migration_ref session_ref in
          if status \<noteq> MCL_LINK_OK then Some (status, contact)
          else if contact_challenge_valid c = 0 then Some (MCL_LINK_ERR_CONTEXT_MISMATCH, contact)
          else do {
            eq \<leftarrow> mcl_contact_challenge_equals c e;
            if \<not> eq then Some (MCL_LINK_ERR_CONTEXT_MISMATCH, contact)
            else Some (MCL_LINK_OK, contact) })
       else if contact_state c \<noteq> MCL_CONTACT_STATE_VALIDATING
       then Some (MCL_LINK_ERR_INVALID_STATE, contact)
       else if contact_challenge_valid c = 0 then Some (MCL_LINK_ERR_INVALID_STATE, contact)
       else
         (let status = mcl_contact_check_transaction c migration_ref session_ref in
          if status \<noteq> MCL_LINK_OK then Some (status, contact)
          else do {
            eq \<leftarrow> mcl_contact_challenge_equals c e;
            if \<not> eq then Some (MCL_LINK_ERR_CONTEXT_MISMATCH, contact)
            else Some (MCL_LINK_OK, Some (c\<lparr>contact_state := MCL_CONTACT_STATE_VALIDATED\<rparr>)) })
   | _ \<Rightarrow> Some (MCL_LINK_ERR_INVALID_ARGUMENT, contact))"

definition mcl_contact_commit_begin :: "mcl_contact option \<Rightarrow> contact_result" where
  "mcl_contact_commit_begin contact = (case contact of
     None \<Rightarrow> Some (MCL_LINK_ERR_INVALID_ARGUMENT, None)
   | Some c \<Rightarrow>
       if contact_state c \<noteq> MCL_CONTACT_STATE_VALIDATED then Some (MCL_LINK_ERR_INVALID_STATE, contact)
       else Some (MCL_LINK_OK, Some (c\<lparr>contact_state := MCL_CONTACT_STATE_COMMITTING\<rparr>)))"

definition mcl_contact_commit_confirm :: "mcl_contact option \<Rightarrow> u32 \<Rightarrow> u32 \<Rightarrow> contact_result" where
  "mcl_contact_commit_confirm contact migration_ref session_ref = (case contact of
     None \<Rightarrow> Some (MCL_LINK_ERR_INVALID_ARGUMENT, None)
   | Some c \<Rightarrow>
       if contact_state c = MCL_CONTACT_STATE_ACTIVE then
         (if contact_session_valid c = 0 \<or> contact_completed_migration_ref c = MCL_CONTACT_MIGRATION_NONE
          then Some (MCL_LINK_ERR_INVALID_STATE, contact)
          else if migration_ref \<noteq> contact_completed_migration_ref c
               \<or> session_ref \<noteq> contact_session_ref c
          then Some (MCL_LINK_ERR_CONTEXT_MISMATCH, contact)
          else Some (MCL_LINK_OK, contact))
       else if contact_state c \<noteq> MCL_CONTACT_STATE_COMMITTING
       then Some (MCL_LINK_ERR_INVALID_STATE, contact)
       else
         (let status = mcl_contact_check_transaction c migration_ref session_ref in
          if status \<noteq> MCL_LINK_OK then Some (status, contact)
          else do {
            c' \<leftarrow> mcl_contact_settle_commit c migration_ref;
            Some (MCL_LINK_OK, Some c') }))"

definition mcl_contact_commit_accept :: "mcl_contact option \<Rightarrow> u32 \<Rightarrow> u32 \<Rightarrow> contact_result" where
  "mcl_contact_commit_accept contact migration_ref session_ref = (case contact of
     None \<Rightarrow> Some (MCL_LINK_ERR_INVALID_ARGUMENT, None)
   | Some c \<Rightarrow>
       if contact_state c \<noteq> MCL_CONTACT_STATE_VALIDATED then Some (MCL_LINK_ERR_INVALID_STATE, contact)
       else
         (let status = mcl_contact_check_transaction c migration_ref session_ref in
          if status \<noteq> MCL_LINK_OK then Some (status, contact)
          else do {
            c' \<leftarrow> mcl_contact_settle_commit c migration_ref;
            Some (MCL_LINK_OK, Some c') }))"

definition mcl_contact_abandon_migration :: "mcl_contact option \<Rightarrow> contact_result" where
  "mcl_contact_abandon_migration contact = (case contact of
     None \<Rightarrow> Some (MCL_LINK_ERR_INVALID_ARGUMENT, None)
   | Some c \<Rightarrow>
       if \<not> mcl_contact_migration_is_revocable c then Some (MCL_LINK_ERR_INVALID_STATE, contact)
       else do {
         c' \<leftarrow> mcl_contact_clear_pending c;
         Some (MCL_LINK_OK, Some (c'\<lparr>contact_state := MCL_CONTACT_STATE_ACTIVE\<rparr>)) })"

definition mcl_contact_close :: "mcl_contact option \<Rightarrow> contact_result" where
  "mcl_contact_close contact = (case contact of
     None \<Rightarrow> Some (MCL_LINK_ERR_INVALID_ARGUMENT, None)
   | Some c \<Rightarrow>
       if contact_state c = MCL_CONTACT_STATE_NONE then Some (MCL_LINK_ERR_INVALID_STATE, contact)
       else do {
         c' \<leftarrow> mcl_contact_clear_pending c;
         Some (MCL_LINK_OK, Some (c'\<lparr>contact_session_ref := MCL_CONTACT_SESSION_NONE,
           contact_session_valid := 0, contact_state := MCL_CONTACT_STATE_CLOSED\<rparr>)) })"

section \<open>Calls that only look\<close>

definition mcl_contact_challenge_repeat ::
  "mcl_contact option \<Rightarrow> u32 \<Rightarrow> u32 \<Rightarrow> byte list option \<Rightarrow> byte option
    \<Rightarrow> (mcl_link_status \<times> byte option) option" where
  "mcl_contact_challenge_repeat contact migration_ref session_ref challenge reecho =
    (case (contact, challenge, reecho) of
      (Some c, Some ch, Some _) \<Rightarrow>
        if contact_state c \<noteq> MCL_CONTACT_STATE_VALIDATED then Some (MCL_LINK_OK, Some 0)
        else if contact_challenge_valid c = 0 then Some (MCL_LINK_OK, Some 0)
        else if mcl_contact_check_transaction c migration_ref session_ref \<noteq> MCL_LINK_OK
        then Some (MCL_LINK_OK, Some 0)
        else do {
          eq \<leftarrow> mcl_contact_challenge_equals c ch;
          if \<not> eq then Some (MCL_LINK_OK, Some 0) else Some (MCL_LINK_OK, Some 1) }
    | _ \<Rightarrow> Some (MCL_LINK_ERR_INVALID_ARGUMENT, reecho))"

definition mcl_contact_commit_repeat ::
  "mcl_contact option \<Rightarrow> u32 \<Rightarrow> u32 \<Rightarrow> byte option \<Rightarrow> mcl_link_status \<times> byte option" where
  "mcl_contact_commit_repeat contact migration_ref session_ref reconfirm =
    (case (contact, reconfirm) of
      (Some c, Some _) \<Rightarrow>
        if contact_state c \<noteq> MCL_CONTACT_STATE_ACTIVE then (MCL_LINK_OK, Some 0)
        else if contact_completed_migration_ref c = MCL_CONTACT_MIGRATION_NONE
        then (MCL_LINK_OK, Some 0)
        else if contact_session_valid c = 0 then (MCL_LINK_OK, Some 0)
        else if migration_ref \<noteq> contact_completed_migration_ref c then (MCL_LINK_OK, Some 0)
        else if session_ref \<noteq> contact_session_ref c then (MCL_LINK_OK, Some 0)
        else (MCL_LINK_OK, Some 1)
    | _ \<Rightarrow> (MCL_LINK_ERR_INVALID_ARGUMENT, reconfirm))"

definition mcl_contact_active_transport ::
  "mcl_contact option \<Rightarrow> byte option \<Rightarrow> mcl_link_status \<times> byte option" where
  "mcl_contact_active_transport contact transport_id = (case (contact, transport_id) of
     (Some c, Some _) \<Rightarrow>
       if contact_state c = MCL_CONTACT_STATE_NONE \<or> contact_state c = MCL_CONTACT_STATE_CLOSED
       then (MCL_LINK_ERR_INVALID_STATE, transport_id)
       else (MCL_LINK_OK, Some (contact_active_transport c))
   | _ \<Rightarrow> (MCL_LINK_ERR_INVALID_ARGUMENT, transport_id))"

definition mcl_contact_migration_active ::
  "mcl_contact option \<Rightarrow> byte option \<Rightarrow> mcl_link_status \<times> byte option" where
  "mcl_contact_migration_active contact active = (case (contact, active) of
     (Some c, Some _) \<Rightarrow>
       (MCL_LINK_OK, Some (if mcl_contact_migration_in_progress c then 1 else 0))
   | _ \<Rightarrow> (MCL_LINK_ERR_INVALID_ARGUMENT, active))"

definition mcl_contact_control_transport ::
  "mcl_contact option \<Rightarrow> byte option \<Rightarrow> mcl_link_status \<times> byte option" where
  "mcl_contact_control_transport contact transport_id = (case (contact, transport_id) of
     (Some c, Some _) \<Rightarrow>
       if contact_state c = MCL_CONTACT_STATE_NONE \<or> contact_state c = MCL_CONTACT_STATE_CLOSED
       then (MCL_LINK_ERR_INVALID_STATE, transport_id)
       else if mcl_contact_migration_in_progress c
       then (MCL_LINK_OK, Some (contact_pending_transport c))
       else (MCL_LINK_OK, Some (contact_active_transport c))
   | _ \<Rightarrow> (MCL_LINK_ERR_INVALID_ARGUMENT, transport_id))"

definition mcl_contact_data_transport ::
  "mcl_contact option \<Rightarrow> byte option \<Rightarrow> byte option
    \<Rightarrow> mcl_link_status \<times> byte option \<times> byte option" where
  "mcl_contact_data_transport contact transport_id quiesced = (case (contact, transport_id, quiesced) of
     (Some c, Some _, Some _) \<Rightarrow>
       if contact_state c = MCL_CONTACT_STATE_NONE \<or> contact_state c = MCL_CONTACT_STATE_CLOSED
       then (MCL_LINK_ERR_INVALID_STATE, transport_id, quiesced)
       else (MCL_LINK_OK, Some (contact_active_transport c),
             Some (if contact_state c = MCL_CONTACT_STATE_COMMITTING then 1 else 0))
   | _ \<Rightarrow> (MCL_LINK_ERR_INVALID_ARGUMENT, transport_id, quiesced))"

section \<open>What the helpers compute\<close>

lemma or_zero: "(a :: 'a::len word) OR b = 0 \<longleftrightarrow> a = 0 \<and> b = 0"
proof
  assume "a OR b = 0"
  then have "\<And>n. \<not> bit (a OR b) n" by simp
  then show "a = 0 \<and> b = 0" by (auto simp: bit_or_iff intro!: bit_word_eqI)
qed simp

lemma ucast_xor_zero: "(ucast ((x :: byte) XOR y) :: u32) = 0 \<longleftrightarrow> x = y"
proof
  assume z: "(ucast (x XOR y) :: u32) = 0"
  show "x = y"
  proof (rule bit_word_eqI)
    fix n assume "n < LENGTH(8)"
    with arg_cong [OF z, of "\<lambda>w. bit w n"] show "bit x n = bit y n" by (simp add: bit_simps)
  qed
qed simp

lemma challenge_diff_loop_eq:
  "i + n \<le> length a \<Longrightarrow> i + n \<le> length e \<Longrightarrow>
    \<exists>d. challenge_diff_loop a e i n differing = Some d
      \<and> (d = 0 \<longleftrightarrow> differing = 0 \<and> take n (drop i a) = take n (drop i e))"
proof (induction n arbitrary: i differing)
  case 0
  then show ?case by simp
next
  case (Suc n)
  have "take (Suc n) (drop i a) = a ! i # take n (drop (Suc i) a)"
       "take (Suc n) (drop i e) = e ! i # take n (drop (Suc i) e)"
    using Suc.prems by (simp_all add: Cons_nth_drop_Suc [symmetric])
  then show ?case
    using Suc.IH [of "Suc i" "differing OR ucast (a ! i XOR e ! i)"] Suc.prems
    by (auto simp: mem_simps or_zero ucast_xor_zero)
qed

lemma challenge_equals_eq:
  assumes "length (contact_challenge c) = 8" "8 \<le> length e"
  shows "mcl_contact_challenge_equals c e = Some (contact_challenge c = take 8 e)"
  using challenge_diff_loop_eq [of 0 8 "contact_challenge c" e 0] assms
  by (auto simp: mcl_contact_challenge_equals_def)

lemma clear_challenge_eq: "length (contact_challenge c) = 8 \<Longrightarrow> mcl_contact_clear_challenge c
    = Some (c\<lparr>contact_challenge := replicate 8 0, contact_challenge_valid := 0\<rparr>)"
  by (simp add: mcl_contact_clear_challenge_def zero_loop_all)

lemma store_challenge_eq: "length (contact_challenge c) = 8 \<Longrightarrow> 8 \<le> length ch \<Longrightarrow>
    mcl_contact_store_challenge c ch
      = Some (c\<lparr>contact_challenge := take 8 ch, contact_challenge_valid := 1\<rparr>)"
  by (simp add: mcl_contact_store_challenge_def copy_loop_all)

lemma clear_pending_eq: "length (contact_challenge c) = 8 \<Longrightarrow> mcl_contact_clear_pending c
    = Some (c\<lparr>contact_pending_migration_ref := 0, contact_pending_transport := 0,
        contact_pending_profile := 0, contact_pending_endpoint_token := 0,
        contact_pending_validity := 0, contact_challenge := replicate 8 0, contact_challenge_valid := 0\<rparr>)"
  by (simp add: mcl_contact_clear_pending_def clear_challenge_eq)

definition count_up :: "u16 \<Rightarrow> u16" where
  "count_up n = (if n < 0xFFFF then n + 1 else n)"

lemma settle_commit_eq: "length (contact_challenge c) = 8 \<Longrightarrow> mcl_contact_settle_commit c m
    = Some (c\<lparr>contact_active_transport := contact_pending_transport c,
        contact_completed_migration_ref := m, contact_pending_migration_ref := 0,
        contact_pending_transport := 0, contact_pending_profile := 0,
        contact_pending_endpoint_token := 0, contact_pending_validity := 0,
        contact_challenge := replicate 8 0, contact_challenge_valid := 0,
        contact_state := 1, contact_migration_count := count_up (contact_migration_count c)\<rparr>)"
  by (simp add: mcl_contact_settle_commit_def clear_pending_eq count_up_def)

definition contact_start :: "byte \<Rightarrow> u32 \<Rightarrow> byte \<Rightarrow> mcl_contact" where
  "contact_start role local_ref transport = \<lparr>contact_local_ref = local_ref, contact_peer_ref = 0,
     contact_session_ref = 0, contact_role = role, contact_state = 1,
     contact_active_transport = transport, contact_pending_migration_ref = 0,
     contact_pending_transport = 0, contact_pending_profile = 0, contact_pending_endpoint_token = 0,
     contact_pending_validity = 0, contact_challenge = replicate 8 0, contact_challenge_valid = 0,
     contact_peer_ref_valid = 0, contact_session_valid = 0, contact_migration_count = 0,
     contact_completed_migration_ref = 0\<rparr>"

lemma begin_eq: "length (contact_challenge c) = 8 \<Longrightarrow> mcl_contact_begin (Some c) role l t = Some
    (if role \<noteq> 0 \<and> role \<noteq> 1 \<or> t = 0 then (MCL_LINK_ERR_INVALID_ARGUMENT, Some c)
     else (MCL_LINK_OK, Some (contact_start role l t)))"
  by (simp add: mcl_contact_begin_def mcl_contact_clear_def clear_pending_eq contact_start_def)

section \<open>The machine\<close>

text \<open>
  The calls a client makes between \<open>mcl_contact_begin\<close> and the next one. The arguments are those of
  the C functions; the outcome of a collision is an extra result and is dealt with separately.
\<close>

datatype contact_call =
    Set_Peer_Ref u32
  | Record_Offer u32 byte byte u32 byte
  | Resolve_Collision u32 u32 byte byte u32 byte
  | Agree u32 byte byte u32
  | Validation_Begin "byte list"
  | Validation_Response u32 u32 "byte list"
  | Commit_Begin
  | Commit_Confirm u32 u32
  | Commit_Accept u32 u32
  | Abandon_Migration
  | Close_Contact

fun contact_exec :: "(contact_call, mcl_contact) call_exec" where
  "contact_exec (Set_Peer_Ref r) c = on_object (mcl_contact_set_peer_ref (Some c) r)"
| "contact_exec (Record_Offer m t p k v) c = on_object (mcl_contact_record_offer (Some c) m t p k v)"
| "contact_exec (Resolve_Collision s m t p k v) c =
     on_object (map_option (\<lambda>(st, c', _). (st, c'))
       (mcl_contact_resolve_offer_collision (Some c) s m t p k v (Some 0)))"
| "contact_exec (Agree m t p s) c = on_object (mcl_contact_agree (Some c) m t p s)"
| "contact_exec (Validation_Begin ch) c = on_object (mcl_contact_validation_begin (Some c) (Some ch))"
| "contact_exec (Validation_Response m s e) c =
     on_object (mcl_contact_validation_response (Some c) m s (Some e))"
| "contact_exec Commit_Begin c = on_object (mcl_contact_commit_begin (Some c))"
| "contact_exec (Commit_Confirm m s) c = on_object (mcl_contact_commit_confirm (Some c) m s)"
| "contact_exec (Commit_Accept m s) c = on_object (mcl_contact_commit_accept (Some c) m s)"
| "contact_exec Abandon_Migration c = on_object (mcl_contact_abandon_migration (Some c))"
| "contact_exec Close_Contact c = on_object (mcl_contact_close (Some c))"

text \<open>A challenge or echo argument is an array of eight bytes, as its declaration says.\<close>

fun contact_legal :: "contact_call \<Rightarrow> bool" where
  "contact_legal (Validation_Begin ch) \<longleftrightarrow> 8 \<le> length ch"
| "contact_legal (Validation_Response m s e) \<longleftrightarrow> 8 \<le> length e"
| "contact_legal _ \<longleftrightarrow> True"

definition migrating :: "mcl_contact \<Rightarrow> bool" where
  "migrating c \<longleftrightarrow> contact_state c \<in> {2, 3, 4, 5, 6}"

definition contact_inv :: "mcl_contact \<Rightarrow> bool" where
  "contact_inv c \<longleftrightarrow>
     contact_state c \<in> {1, 2, 3, 4, 5, 6, 7}
     \<and> length (contact_challenge c) = 8
     \<and> contact_role c \<in> {0, 1} \<and> contact_active_transport c \<noteq> 0
     \<and> contact_peer_ref_valid c \<in> {0, 1}
     \<and> (contact_peer_ref_valid c = 0 \<longrightarrow> contact_peer_ref c = 0)
     \<and> contact_session_valid c = (if contact_session_ref c = 0 then 0 else 1)
     \<and> (contact_completed_migration_ref c = 0 \<longleftrightarrow> contact_migration_count c = 0)
     \<and> (contact_completed_migration_ref c \<noteq> 0 \<and> contact_state c \<noteq> 7 \<longrightarrow> contact_session_ref c \<noteq> 0)
     \<and> (contact_state c \<in> {3, 4, 5, 6} \<longrightarrow> contact_session_ref c \<noteq> 0)
     \<and> (contact_state c = 7 \<longrightarrow> contact_session_ref c = 0)
     \<and> contact_challenge_valid c = (if contact_state c \<in> {4, 5, 6} then 1 else 0)
     \<and> (contact_challenge_valid c = 0 \<longrightarrow> contact_challenge c = replicate 8 0)
     \<and> (if migrating c
        then contact_pending_migration_ref c \<noteq> 0 \<and> contact_pending_transport c \<noteq> 0
          \<and> contact_pending_profile c \<noteq> 0 \<and> contact_pending_transport c \<noteq> contact_active_transport c
        else contact_pending_migration_ref c = 0 \<and> contact_pending_transport c = 0
          \<and> contact_pending_profile c = 0 \<and> contact_pending_endpoint_token c = 0
          \<and> contact_pending_validity c = 0)"

lemma inv_length: "contact_inv c \<Longrightarrow> length (contact_challenge c) = 8"
  by (simp add: contact_inv_def)

text \<open>Where a successful call can lead, as facts about the invariant.\<close>

lemma inv_settled:
  assumes "contact_inv c" "contact_state c \<noteq> 7"
  shows "contact_inv (c\<lparr>contact_pending_migration_ref := 0, contact_pending_transport := 0,
      contact_pending_profile := 0, contact_pending_endpoint_token := 0, contact_pending_validity := 0,
      contact_challenge := replicate 8 0, contact_challenge_valid := 0, contact_state := 1\<rparr>)"
  using assms by (auto simp: contact_inv_def migrating_def)

lemma inv_closed:
  assumes "contact_inv c"
  shows "contact_inv (c\<lparr>contact_pending_migration_ref := 0, contact_pending_transport := 0,
      contact_pending_profile := 0, contact_pending_endpoint_token := 0, contact_pending_validity := 0,
      contact_challenge := replicate 8 0, contact_challenge_valid := 0, contact_session_ref := 0,
      contact_session_valid := 0, contact_state := 7\<rparr>)"
  using assms by (auto simp: contact_inv_def migrating_def)

lemma inv_offered:
  assumes "contact_inv c" "contact_state c \<in> {1, 2}" "m \<noteq> 0" "t \<noteq> 0" "p \<noteq> 0" "t \<noteq> contact_active_transport c"
  shows "contact_inv (c\<lparr>contact_pending_migration_ref := m, contact_pending_transport := t,
      contact_pending_profile := p, contact_pending_endpoint_token := k, contact_pending_validity := v,
      contact_challenge := replicate 8 0, contact_challenge_valid := 0, contact_state := 2\<rparr>)"
  using assms by (auto simp: contact_inv_def migrating_def)

text \<open>The same for a winning peer offer that reuses our reference.\<close>

lemma inv_offered_again:
  assumes "contact_inv c" "contact_state c = 2" "t \<noteq> 0" "p \<noteq> 0" "t \<noteq> contact_active_transport c"
  shows "contact_inv (c\<lparr>contact_pending_transport := t, contact_pending_profile := p,
      contact_pending_endpoint_token := k, contact_pending_validity := v,
      contact_challenge := replicate 8 0, contact_challenge_valid := 0, contact_state := 2\<rparr>)"
  using assms by (auto simp: contact_inv_def migrating_def)

lemma inv_agreed:
  assumes "contact_inv c" "contact_state c = 2" "s \<noteq> 0"
  shows "contact_inv (c\<lparr>contact_session_ref := s, contact_session_valid := 1, contact_state := 3\<rparr>)"
  using assms by (auto simp: contact_inv_def migrating_def)

lemma inv_agreed_again:
  assumes "contact_inv c" "contact_state c = 2" "contact_session_ref c \<noteq> 0"
  shows "contact_inv (c\<lparr>contact_session_valid := 1, contact_state := 3\<rparr>)"
  using assms by (auto simp: contact_inv_def migrating_def)

lemma inv_validating:
  assumes "contact_inv c" "contact_state c = 3" "length ch = 8"
  shows "contact_inv (c\<lparr>contact_challenge := ch, contact_challenge_valid := 1, contact_state := 4\<rparr>)"
  using assms by (auto simp: contact_inv_def migrating_def)

lemma inv_validated: "contact_inv c \<Longrightarrow> contact_state c = 4 \<Longrightarrow> contact_inv (c\<lparr>contact_state := 5\<rparr>)"
  by (auto simp: contact_inv_def migrating_def)

lemma inv_committing: "contact_inv c \<Longrightarrow> contact_state c = 5 \<Longrightarrow> contact_inv (c\<lparr>contact_state := 6\<rparr>)"
  by (auto simp: contact_inv_def migrating_def)

lemma count_up_nz: "count_up n \<noteq> 0"
proof -
  have "n + 1 \<noteq> 0" if "n < 0xFFFF"
    using that by (auto simp: word_less_nat_alt unat_word_ariths word_unat_eq_iff)
  then show ?thesis by (auto simp: count_up_def)
qed

lemma inv_committed:
  assumes "contact_inv c" "contact_state c \<in> {5, 6}" "m \<noteq> 0"
  shows "contact_inv (c\<lparr>contact_active_transport := contact_pending_transport c,
        contact_completed_migration_ref := m, contact_pending_migration_ref := 0,
        contact_pending_transport := 0, contact_pending_profile := 0,
        contact_pending_endpoint_token := 0, contact_pending_validity := 0,
        contact_challenge := replicate 8 0, contact_challenge_valid := 0,
        contact_state := 1, contact_migration_count := count_up (contact_migration_count c)\<rparr>)"
  using assms count_up_nz by (auto simp: contact_inv_def migrating_def)

lemma inv_peer:
  assumes "contact_inv c"
  shows "contact_inv (c\<lparr>contact_peer_ref := r, contact_peer_ref_valid := 1\<rparr>)"
  using assms by (auto simp: contact_inv_def migrating_def)

lemma inv_pending_nz: "contact_inv c \<Longrightarrow> contact_state c \<in> {2, 3, 4, 5, 6} \<Longrightarrow> contact_pending_migration_ref c \<noteq> 0"
  by (auto simp: contact_inv_def migrating_def)

lemmas contact_helpers = clear_challenge_eq store_challenge_eq clear_pending_eq settle_commit_eq
  challenge_equals_eq

lemmas contact_inv_targets = inv_settled inv_closed inv_offered inv_offered_again inv_agreed inv_agreed_again inv_validating
  inv_validated inv_committing inv_committed inv_peer

lemmas contact_defs = mcl_contact_set_peer_ref_def mcl_contact_record_offer_def
  mcl_contact_resolve_offer_collision_def mcl_contact_agree_def mcl_contact_validation_begin_def
  mcl_contact_validation_response_def mcl_contact_commit_begin_def mcl_contact_commit_confirm_def
  mcl_contact_commit_accept_def mcl_contact_abandon_migration_def mcl_contact_close_def
  mcl_contact_check_transaction_def mcl_contact_migration_is_revocable_def
  mcl_contact_migration_in_progress_def

lemma contact_step:
  assumes inv: "contact_inv c" and legal: "contact_legal call"
  shows "\<exists>st c'. contact_exec call c = Some (st, c') \<and> contact_inv c' \<and> (st \<noteq> MCL_LINK_OK \<longrightarrow> c' = c)"
proof -
  note l = inv_length [OF inv]
  show ?thesis
  proof (cases call)
    case (Commit_Confirm m s)
    then show ?thesis using inv l inv_pending_nz [OF inv]
      by (auto simp: contact_defs contact_helpers contact_inv_targets Let_def)
  next
    case (Commit_Accept m s)
    then show ?thesis using inv l inv_pending_nz [OF inv]
      by (auto simp: contact_defs contact_helpers contact_inv_targets Let_def)
  qed (use inv l legal in \<open>auto simp: contact_defs contact_helpers contact_inv_targets Let_def\<close>)+
qed

interpretation contact: call_machine contact_exec contact_inv contact_legal
  by unfold_locales (use contact_step in fastforce)+

end
