(* ===== verification/Mcl_Contact_Spec.thy ===== *)
theory Mcl_Contact_Spec
  imports Mcl_Contact
begin

text \<open>
  The abstract view of a contact: a phase that carries the offer (and the challenge) it is about,
  and optional references instead of fields with reserved values. \<open>contact_spec_exec\<close> says what
  every call does to it; \<open>contact_refines\<close> is the simulation. The tiebreak of simultaneous offers is
  the order of offer keys, an instance of \<open>linorder\<close>.
\<close>

section \<open>Offers and their keys\<close>

record offer =
  offer_ref :: u32
  offer_transport :: byte
  offer_profile :: byte
  offer_token :: u32
  offer_validity :: byte

datatype offer_key = Offer_Key (key_source: u32) (key_migration: u32)

instantiation offer_key :: linorder
begin

definition less_eq_offer_key :: "offer_key \<Rightarrow> offer_key \<Rightarrow> bool" where
  "less_eq_offer_key a b \<longleftrightarrow> key_source a < key_source b
     \<or> key_source a = key_source b \<and> key_migration a \<le> key_migration b"

definition less_offer_key :: "offer_key \<Rightarrow> offer_key \<Rightarrow> bool" where
  "less_offer_key a b \<longleftrightarrow> key_source a < key_source b
     \<or> key_source a = key_source b \<and> key_migration a < key_migration b"

instance
proof
  fix x y z :: offer_key
  show "x < y \<longleftrightarrow> x \<le> y \<and> \<not> y \<le> x"
    by (auto simp: less_eq_offer_key_def less_offer_key_def)
  show "x \<le> x" by (simp add: less_eq_offer_key_def)
  show "x \<le> z" if "x \<le> y" "y \<le> z" using that by (auto simp: less_eq_offer_key_def)
  show "x = y" if "x \<le> y" "y \<le> x"
    using that by (cases x; cases y) (auto simp: less_eq_offer_key_def)
  show "x \<le> y \<or> y \<le> x" by (auto simp: less_eq_offer_key_def)
qed

end

lemma Offer_Key_less: "Offer_Key a b < Offer_Key c d \<longleftrightarrow> a < c \<or> a = c \<and> b < d"
  by (simp add: less_offer_key_def)

section \<open>The abstract contact\<close>

datatype phase =
    Settled
  | Offered offer
  | Agreed offer
  | Validating offer "byte list"
  | Validated offer "byte list"
  | Committing offer "byte list"
  | Closed

record contact_spec =
  spec_local :: u32
  spec_role :: byte
  spec_peer :: "u32 option"
  spec_session :: "u32 option"
  spec_transport :: byte
  spec_phase :: phase
  spec_completed :: "u32 option"
  spec_count :: u16

definition nonzero :: "u32 \<Rightarrow> u32 option" where
  "nonzero w = (if w = 0 then None else Some w)"

definition pending_offer :: "mcl_contact \<Rightarrow> offer" where
  "pending_offer c = \<lparr>offer_ref = contact_pending_migration_ref c,
     offer_transport = contact_pending_transport c, offer_profile = contact_pending_profile c,
     offer_token = contact_pending_endpoint_token c, offer_validity = contact_pending_validity c\<rparr>"

definition phase_of :: "mcl_contact \<Rightarrow> phase" where
  "phase_of c =
    (if contact_state c = 1 then Settled
     else if contact_state c = 2 then Offered (pending_offer c)
     else if contact_state c = 3 then Agreed (pending_offer c)
     else if contact_state c = 4 then Validating (pending_offer c) (contact_challenge c)
     else if contact_state c = 5 then Validated (pending_offer c) (contact_challenge c)
     else if contact_state c = 6 then Committing (pending_offer c) (contact_challenge c)
     else Closed)"

definition contact_abs :: "mcl_contact \<Rightarrow> contact_spec" where
  "contact_abs c = \<lparr>spec_local = contact_local_ref c, spec_role = contact_role c,
     spec_peer = (if contact_peer_ref_valid c = 0 then None else Some (contact_peer_ref c)),
     spec_session = nonzero (contact_session_ref c), spec_transport = contact_active_transport c,
     spec_phase = phase_of c, spec_completed = nonzero (contact_completed_migration_ref c),
     spec_count = contact_migration_count c\<rparr>"

section \<open>What the calls mean\<close>

type_synonym spec_result = "mcl_link_status \<times> contact_spec"

definition spec_set_peer :: "u32 \<Rightarrow> contact_spec \<Rightarrow> spec_result" where
  "spec_set_peer r a =
    (if spec_phase a = Closed then (MCL_LINK_ERR_INVALID_STATE, a)
     else case spec_peer a of
       None \<Rightarrow> (MCL_LINK_OK, a\<lparr>spec_peer := Some r\<rparr>)
     | Some q \<Rightarrow> (if q = r then MCL_LINK_OK else MCL_LINK_ERR_CONTEXT_MISMATCH, a))"

definition offer_named :: "offer \<Rightarrow> bool" where
  "offer_named new \<longleftrightarrow> offer_ref new \<noteq> 0 \<and> offer_transport new \<noteq> 0 \<and> offer_profile new \<noteq> 0"

definition spec_offer :: "offer \<Rightarrow> contact_spec \<Rightarrow> spec_result" where
  "spec_offer new a =
    (if \<not> offer_named new then (MCL_LINK_ERR_INVALID_ARGUMENT, a)
     else case spec_phase a of
       Settled \<Rightarrow>
         if offer_transport new = spec_transport a then (MCL_LINK_ERR_INVALID_ARGUMENT, a)
         else (MCL_LINK_OK, a\<lparr>spec_phase := Offered new\<rparr>)
     | Offered old \<Rightarrow>
         if offer_ref new \<noteq> offer_ref old then (MCL_LINK_ERR_INVALID_STATE, a)
         else (if new = old then MCL_LINK_OK else MCL_LINK_ERR_CONTEXT_MISMATCH, a)
     | _ \<Rightarrow> (MCL_LINK_ERR_INVALID_STATE, a))"

definition spec_collide :: "u32 \<Rightarrow> offer \<Rightarrow> contact_spec \<Rightarrow> spec_result" where
  "spec_collide source theirs a =
    (if \<not> offer_named theirs then (MCL_LINK_ERR_INVALID_ARGUMENT, a)
     else case spec_phase a of
       Offered ours \<Rightarrow>
         let our_key = Offer_Key (spec_local a) (offer_ref ours);
             their_key = Offer_Key source (offer_ref theirs) in
         if their_key = our_key then (MCL_LINK_OK, a\<lparr>spec_phase := Settled\<rparr>)
         else if their_key < our_key then (MCL_LINK_OK, a)
         else if offer_transport theirs = spec_transport a then (MCL_LINK_ERR_INVALID_ARGUMENT, a)
         else (MCL_LINK_OK, a\<lparr>spec_phase := Offered theirs\<rparr>)
     | _ \<Rightarrow> (MCL_LINK_ERR_INVALID_STATE, a))"

fun phase_offer :: "phase \<Rightarrow> offer option" where
  "phase_offer Settled = None"
| "phase_offer (Offered w) = Some w"
| "phase_offer (Agreed w) = Some w"
| "phase_offer (Validating w ch) = Some w"
| "phase_offer (Validated w ch) = Some w"
| "phase_offer (Committing w ch) = Some w"
| "phase_offer Closed = None"

definition spec_agree :: "u32 \<Rightarrow> byte \<Rightarrow> byte \<Rightarrow> u32 \<Rightarrow> contact_spec \<Rightarrow> spec_result" where
  "spec_agree m t p s a =
    (if s = 0 then (MCL_LINK_ERR_INVALID_ARGUMENT, a)
     else if spec_session a \<noteq> None \<and> spec_session a \<noteq> Some s then (MCL_LINK_ERR_CONTEXT_MISMATCH, a)
     else case phase_offer (spec_phase a) of
       None \<Rightarrow> (MCL_LINK_ERR_INVALID_STATE, a)
     | Some w \<Rightarrow>
         if m \<noteq> offer_ref w \<or> t \<noteq> offer_transport w \<or> p \<noteq> offer_profile w
         then (MCL_LINK_ERR_CONTEXT_MISMATCH, a)
         else if spec_phase a = Offered w
         then (MCL_LINK_OK, a\<lparr>spec_session := Some s, spec_phase := Agreed w\<rparr>)
         else (MCL_LINK_OK, a))"

definition spec_challenge :: "byte list \<Rightarrow> contact_spec \<Rightarrow> spec_result" where
  "spec_challenge ch a = (case spec_phase a of
     Agreed w \<Rightarrow> (MCL_LINK_OK, a\<lparr>spec_phase := Validating w (take 8 ch)\<rparr>)
   | _ \<Rightarrow> (MCL_LINK_ERR_INVALID_STATE, a))"

definition spec_response :: "u32 \<Rightarrow> u32 \<Rightarrow> byte list \<Rightarrow> contact_spec \<Rightarrow> spec_result" where
  "spec_response m s e a = (case spec_phase a of
     Validating w ch \<Rightarrow>
       if m = offer_ref w \<and> spec_session a = Some s \<and> take 8 e = ch
       then (MCL_LINK_OK, a\<lparr>spec_phase := Validated w ch\<rparr>)
       else (MCL_LINK_ERR_CONTEXT_MISMATCH, a)
   | Validated w ch \<Rightarrow>
       (if m = offer_ref w \<and> spec_session a = Some s \<and> take 8 e = ch
        then MCL_LINK_OK else MCL_LINK_ERR_CONTEXT_MISMATCH, a)
   | _ \<Rightarrow> (MCL_LINK_ERR_INVALID_STATE, a))"

definition spec_settle :: "offer \<Rightarrow> contact_spec \<Rightarrow> contact_spec" where
  "spec_settle w a = a\<lparr>spec_transport := offer_transport w, spec_completed := Some (offer_ref w),
     spec_phase := Settled, spec_count := count_up (spec_count a)\<rparr>"

definition spec_commit :: "contact_spec \<Rightarrow> spec_result" where
  "spec_commit a = (case spec_phase a of
     Validated w ch \<Rightarrow> (MCL_LINK_OK, a\<lparr>spec_phase := Committing w ch\<rparr>)
   | _ \<Rightarrow> (MCL_LINK_ERR_INVALID_STATE, a))"

definition spec_confirm :: "u32 \<Rightarrow> u32 \<Rightarrow> contact_spec \<Rightarrow> spec_result" where
  "spec_confirm m s a = (case spec_phase a of
     Settled \<Rightarrow>
       if spec_session a = None \<or> spec_completed a = None then (MCL_LINK_ERR_INVALID_STATE, a)
       else (if spec_completed a = Some m \<and> spec_session a = Some s
             then MCL_LINK_OK else MCL_LINK_ERR_CONTEXT_MISMATCH, a)
   | Committing w ch \<Rightarrow>
       if m = offer_ref w \<and> spec_session a = Some s then (MCL_LINK_OK, spec_settle w a)
       else (MCL_LINK_ERR_CONTEXT_MISMATCH, a)
   | _ \<Rightarrow> (MCL_LINK_ERR_INVALID_STATE, a))"

definition spec_accept :: "u32 \<Rightarrow> u32 \<Rightarrow> contact_spec \<Rightarrow> spec_result" where
  "spec_accept m s a = (case spec_phase a of
     Validated w ch \<Rightarrow>
       if m = offer_ref w \<and> spec_session a = Some s then (MCL_LINK_OK, spec_settle w a)
       else (MCL_LINK_ERR_CONTEXT_MISMATCH, a)
   | _ \<Rightarrow> (MCL_LINK_ERR_INVALID_STATE, a))"

definition spec_abandon :: "contact_spec \<Rightarrow> spec_result" where
  "spec_abandon a = (case spec_phase a of
     Settled \<Rightarrow> (MCL_LINK_ERR_INVALID_STATE, a)
   | Committing w ch \<Rightarrow> (MCL_LINK_ERR_INVALID_STATE, a)
   | Closed \<Rightarrow> (MCL_LINK_ERR_INVALID_STATE, a)
   | _ \<Rightarrow> (MCL_LINK_OK, a\<lparr>spec_phase := Settled\<rparr>))"

definition spec_close :: "contact_spec \<Rightarrow> spec_result" where
  "spec_close a = (MCL_LINK_OK, a\<lparr>spec_session := None, spec_phase := Closed\<rparr>)"

fun contact_spec_exec :: "contact_call \<Rightarrow> contact_spec \<Rightarrow> spec_result" where
  "contact_spec_exec (Set_Peer_Ref r) a = spec_set_peer r a"
| "contact_spec_exec (Record_Offer m t p k v) a = spec_offer
     \<lparr>offer_ref = m, offer_transport = t, offer_profile = p, offer_token = k, offer_validity = v\<rparr> a"
| "contact_spec_exec (Resolve_Collision s m t p k v) a = spec_collide s
     \<lparr>offer_ref = m, offer_transport = t, offer_profile = p, offer_token = k, offer_validity = v\<rparr> a"
| "contact_spec_exec (Agree m t p s) a = spec_agree m t p s a"
| "contact_spec_exec (Validation_Begin ch) a = spec_challenge ch a"
| "contact_spec_exec (Validation_Response m s e) a = spec_response m s e a"
| "contact_spec_exec Commit_Begin a = spec_commit a"
| "contact_spec_exec (Commit_Confirm m s) a = spec_confirm m s a"
| "contact_spec_exec (Commit_Accept m s) a = spec_accept m s a"
| "contact_spec_exec Abandon_Migration a = spec_abandon a"
| "contact_spec_exec Close_Contact a = spec_close a"

section \<open>The simulation\<close>

lemmas spec_defs = spec_set_peer_def spec_offer_def spec_collide_def spec_agree_def
  spec_challenge_def spec_response_def spec_commit_def spec_confirm_def spec_accept_def
  spec_abandon_def spec_close_def spec_settle_def offer_named_def

lemmas abs_defs = contact_abs_def phase_of_def pending_offer_def nonzero_def

lemma state_cases [consumes 1, case_names active offered agreed validating validated committing closed]:
  assumes "contact_inv c"
  obtains "contact_state c = 1" | "contact_state c = 2" | "contact_state c = 3" | "contact_state c = 4"
    | "contact_state c = 5" | "contact_state c = 6" | "contact_state c = 7"
proof -
  have "contact_state c \<in> {1, 2, 3, 4, 5, 6, 7}" using assms by (simp add: contact_inv_def)
  then show thesis using that by auto
qed

lemma inv_session: "contact_inv c \<Longrightarrow> contact_session_valid c = (if contact_session_ref c = 0 then 0 else 1)"
  by (simp add: contact_inv_def)

lemma inv_session_nz: "contact_inv c \<Longrightarrow> contact_state c \<in> {3, 4, 5, 6} \<Longrightarrow> contact_session_ref c \<noteq> 0"
  unfolding contact_inv_def by blast

lemma inv_challenge_valid:
  "contact_inv c \<Longrightarrow> contact_challenge_valid c = (if contact_state c \<in> {4, 5, 6} then 1 else 0)"
  by (simp add: contact_inv_def)

lemma inv_session_closed: "contact_inv c \<Longrightarrow> contact_state c = 7 \<Longrightarrow> contact_session_ref c = 0"
  by (simp add: contact_inv_def)

lemma collision_simulation:
  assumes inv: "contact_inv c"
  shows "map_option (map_prod id contact_abs) (contact_exec (Resolve_Collision s m t p k v) c)
    = Some (contact_spec_exec (Resolve_Collision s m t p k v) (contact_abs c))"
proof -
  note l = inv_length [OF inv] inv_session [OF inv] inv_session_nz [OF inv] inv_pending_nz [OF inv]
  note defs = contact_defs contact_helpers spec_defs abs_defs Let_def Offer_Key_less
  let ?r = "contact_local_ref c" and ?n = "contact_pending_migration_ref c"
  show ?thesis
  proof (cases "contact_state c = 2")
    case False
    with l show ?thesis by (cases rule: state_cases [OF inv]) (simp_all add: defs)
  next
    case True
    consider (less) "s < ?r" "\<not> ?r < s" "s \<noteq> ?r" | (greater) "?r < s" "\<not> s < ?r" "s \<noteq> ?r"
      | (low) "s = ?r" "m < ?n" "\<not> ?n < m" "m \<noteq> ?n" | (high) "s = ?r" "?n < m" "\<not> m < ?n" "m \<noteq> ?n"
      | (tie) "s = ?r" "m = ?n"
      by (metis less_asym' linorder_less_linear order_less_irrefl)
    then show ?thesis using True l by cases (simp_all add: defs)
  qed
qed

lemma contact_simulation:
  assumes inv: "contact_inv c" and legal: "contact_legal call"
  shows "map_option (map_prod id contact_abs) (contact_exec call c)
    = Some (contact_spec_exec call (contact_abs c))"
proof -
  note l = inv_length [OF inv] inv_session [OF inv] inv_challenge_valid [OF inv]
    inv_session_nz [OF inv] inv_pending_nz [OF inv] inv_session_closed [OF inv] legal
  note defs = contact_defs contact_helpers spec_defs abs_defs Let_def Offer_Key_less
  show ?thesis
  proof (cases call)
    case (Resolve_Collision s m t p k v)
    then show ?thesis using collision_simulation [OF inv] by simp
  qed (cases rule: state_cases [OF inv]; use l in \<open>simp add: defs\<close>)+
qed

end
