(* ===== verification/Mcl_Contact_Runs.thy ===== *)
theory Mcl_Contact_Runs
  imports Mcl_Contact_Spec
begin

text \<open>
  What a contact guarantees, call by call and over whole runs: the facts of the interpretation
  \<open>contact\<close> of \<open>call_machine\<close>, combined with the simulation of \<open>Mcl_Contact_Spec\<close>.
\<close>

section \<open>From the abstract step back to the contact\<close>

lemma contact_refines:
  assumes "contact_inv c" "contact_legal call" "contact_exec call c = Some (st, c')"
  shows "contact_spec_exec call (contact_abs c) = (st, contact_abs c')"
  using contact_simulation [OF assms(1,2)] assms(3) by simp

lemma begin_inv: "role = 0 \<or> role = 1 \<Longrightarrow> t \<noteq> 0 \<Longrightarrow> contact_inv (contact_start role l t)"
  by (auto simp: contact_inv_def contact_start_def migrating_def)

lemma begin_start:
  assumes "length (contact_challenge c0) = 8"
    and "mcl_contact_begin (Some c0) role l t = Some (MCL_LINK_OK, Some c)"
  shows "c = contact_start role l t" and "contact_inv c"
  using assms by (auto simp: begin_eq split: if_splits intro: begin_inv)

lemma abs_simps [simp]:
  "spec_local (contact_abs c) = contact_local_ref c"
  "spec_role (contact_abs c) = contact_role c"
  "spec_transport (contact_abs c) = contact_active_transport c"
  "spec_phase (contact_abs c) = phase_of c"
  "spec_count (contact_abs c) = contact_migration_count c"
  by (simp_all add: contact_abs_def)

lemma abs_session: "spec_session (contact_abs c) = Some s \<longleftrightarrow> s \<noteq> 0 \<and> contact_session_ref c = s"
  by (auto simp: contact_abs_def nonzero_def)

section \<open>The path a switch has to take\<close>

text \<open>What the accepted calls so far must contain, phase by phase.\<close>

definition path_history :: "contact_spec \<Rightarrow> contact_call list \<Rightarrow> bool" where
  "path_history a h \<longleftrightarrow> (case spec_phase a of
     Agreed w \<Rightarrow> \<exists>s. spec_session a = Some s
       \<and> subseq [Agree (offer_ref w) (offer_transport w) (offer_profile w) s] h
   | Validating w ch \<Rightarrow> \<exists>s b. spec_session a = Some s \<and> take 8 b = ch
       \<and> subseq [Agree (offer_ref w) (offer_transport w) (offer_profile w) s, Validation_Begin b] h
   | Validated w ch \<Rightarrow> \<exists>s b e. spec_session a = Some s \<and> take 8 b = ch \<and> take 8 e = ch
       \<and> subseq [Agree (offer_ref w) (offer_transport w) (offer_profile w) s, Validation_Begin b,
                 Validation_Response (offer_ref w) s e] h
   | Committing w ch \<Rightarrow> \<exists>s b e. spec_session a = Some s \<and> take 8 b = ch \<and> take 8 e = ch
       \<and> subseq [Agree (offer_ref w) (offer_transport w) (offer_profile w) s, Validation_Begin b,
                 Validation_Response (offer_ref w) s e] h
   | _ \<Rightarrow> True)"

definition switch_history :: "byte \<Rightarrow> contact_spec \<Rightarrow> contact_call list \<Rightarrow> bool" where
  "switch_history t0 a h \<longleftrightarrow> spec_transport a = t0
     \<or> (\<exists>m p s b e k. take 8 e = take 8 b \<and> (k = Commit_Confirm m s \<or> k = Commit_Accept m s)
        \<and> subseq [Agree m (spec_transport a) p s, Validation_Begin b, Validation_Response m s e, k] h)"

lemma subseq_snoc:
  "subseq [] h \<Longrightarrow> subseq [c] (h @ [c])"
  "subseq [x] h \<Longrightarrow> subseq [x, c] (h @ [c])"
  "subseq [x, y] h \<Longrightarrow> subseq [x, y, c] (h @ [c])"
  "subseq [x, y, z] h \<Longrightarrow> subseq [x, y, z, c] (h @ [c])"
  using subseq_take_last [of "[]" h c] subseq_take_last [of "[x]" h c]
    subseq_take_last [of "[x, y]" h c] subseq_take_last [of "[x, y, z]" h c] by simp_all

lemma path_step:
  assumes "path_history a h" "contact_spec_exec call a = (MCL_LINK_OK, a')"
  shows "path_history a' (h @ [call])"
  using assms
  apply (cases call; cases "spec_phase a")
  apply (auto simp: path_history_def spec_defs Let_def split: if_splits option.splits)
  apply (blast intro: subseq_grow subseq_snoc)+
  done

text \<open>Only two calls change the transport, and what they need is in the history.\<close>

lemma transport_step:
  assumes "contact_spec_exec call a = (MCL_LINK_OK, a')" "spec_transport a' \<noteq> spec_transport a"
  obtains w ch s where "spec_phase a = Validated w ch \<or> spec_phase a = Committing w ch"
    "spec_session a = Some s" "spec_transport a' = offer_transport w"
    "call = Commit_Confirm (offer_ref w) s \<or> call = Commit_Accept (offer_ref w) s"
  using assms
  by (cases call; cases "spec_phase a")
    (auto simp: spec_defs Let_def split: if_splits option.splits)

lemma switch_step:
  assumes path: "path_history a h" and switch: "switch_history t0 a h"
    and step: "contact_spec_exec call a = (MCL_LINK_OK, a')"
  shows "switch_history t0 a' (h @ [call])"
proof (cases "spec_transport a' = spec_transport a")
  case True
  with switch show ?thesis unfolding switch_history_def by (metis subseq_grow)
next
  case False
  from transport_step [OF step False] obtain w ch s where
    w: "spec_phase a = Validated w ch \<or> spec_phase a = Committing w ch" "spec_session a = Some s"
      "spec_transport a' = offer_transport w"
      "call = Commit_Confirm (offer_ref w) s \<or> call = Commit_Accept (offer_ref w) s" .
  with path obtain b e where b: "take 8 b = ch" "take 8 e = ch"
    "subseq [Agree (offer_ref w) (offer_transport w) (offer_profile w) s, Validation_Begin b,
             Validation_Response (offer_ref w) s e] h"
    by (auto simp: path_history_def)
  have "subseq [Agree (offer_ref w) (spec_transport a') (offer_profile w) s, Validation_Begin b,
      Validation_Response (offer_ref w) s e, call] (h @ [call])"
    unfolding w(3) by (rule subseq_snoc(4) [OF b(3)])
  moreover have "take 8 e = take 8 b" using b(1,2) by simp
  ultimately show ?thesis using w(4) unfolding switch_history_def by blast
qed

lemma phase_state:
  "contact_state c = 1 \<Longrightarrow> phase_of c = Settled"
  "contact_state c = 2 \<Longrightarrow> phase_of c = Offered (pending_offer c)"
  "contact_state c = 3 \<Longrightarrow> phase_of c = Agreed (pending_offer c)"
  "contact_state c = 4 \<Longrightarrow> phase_of c = Validating (pending_offer c) (contact_challenge c)"
  "contact_state c = 5 \<Longrightarrow> phase_of c = Validated (pending_offer c) (contact_challenge c)"
  "contact_state c = 6 \<Longrightarrow> phase_of c = Committing (pending_offer c) (contact_challenge c)"
  "contact_state c = 7 \<Longrightarrow> phase_of c = Closed"
  by (simp_all add: phase_of_def)

lemma phase_closed: "contact_inv c \<Longrightarrow> phase_of c = Closed \<longleftrightarrow> contact_state c = 7"
  by (cases rule: state_cases) (auto simp: phase_state)

lemma phase_committing: "contact_inv c \<Longrightarrow> phase_of c = Committing w ch
    \<longleftrightarrow> contact_state c = 6 \<and> w = pending_offer c \<and> ch = contact_challenge c"
  by (cases rule: state_cases) (auto simp: phase_state)

lemma phase_settled: "contact_inv c \<Longrightarrow> phase_of c = Settled \<longleftrightarrow> contact_state c = 1"
  by (cases rule: state_cases) (auto simp: phase_state)

text \<open>On well-formed contacts the abstract view loses nothing.\<close>

definition pending_part :: "mcl_contact \<Rightarrow> offer \<times> byte list \<times> byte" where
  "pending_part c = (pending_offer c, contact_challenge c, contact_challenge_valid c)"

lemma inv_no_challenge: "contact_inv c \<Longrightarrow> contact_challenge_valid c = 0 \<Longrightarrow> contact_challenge c = replicate 8 0"
  unfolding contact_inv_def by blast

lemma inv_no_pending: "contact_inv c \<Longrightarrow> \<not> migrating c \<Longrightarrow> pending_offer c
    = \<lparr>offer_ref = 0, offer_transport = 0, offer_profile = 0, offer_token = 0, offer_validity = 0\<rparr>"
  unfolding contact_inv_def by (simp add: pending_offer_def)

lemma pending_part_eq:
  assumes "contact_inv x" "contact_inv y" "phase_of x = phase_of y"
  shows "contact_state x = contact_state y \<and> pending_part x = pending_part y"
  using assms(3) inv_challenge_valid [OF assms(1)] inv_challenge_valid [OF assms(2)]
    inv_no_challenge [OF assms(1)] inv_no_challenge [OF assms(2)]
    inv_no_pending [OF assms(1)] inv_no_pending [OF assms(2)]
  by (cases rule: state_cases [OF assms(1)]; cases rule: state_cases [OF assms(2)])
    (simp_all add: phase_state pending_part_def migrating_def)

lemma abs_inj:
  assumes "contact_inv x" "contact_inv y" "contact_abs x = contact_abs y"
  shows "x = y"
proof -
  have "phase_of x = phase_of y" using arg_cong [OF assms(3), of spec_phase] by simp
  from pending_part_eq [OF assms(1,2) this]
  have p: "contact_state x = contact_state y" "pending_offer x = pending_offer y"
    "contact_challenge x = contact_challenge y" "contact_challenge_valid x = contact_challenge_valid y"
    by (auto simp: pending_part_def)
  have n: "a = b" if "nonzero a = nonzero b" for a b using that by (auto simp: nonzero_def split: if_splits)
  have s: "contact_session_ref x = contact_session_ref y"
    "contact_completed_migration_ref x = contact_completed_migration_ref y"
    using assms(3) by (auto simp: contact_abs_def intro: n)
  have f: "contact_peer_ref_valid c \<in> {0, 1}" "contact_peer_ref_valid c = 0 \<longrightarrow> contact_peer_ref c = 0"
    if "contact_inv c" for c using that unfolding contact_inv_def by blast+
  have q: "contact_peer_ref x = contact_peer_ref y" "contact_peer_ref_valid x = contact_peer_ref_valid y"
    using f [OF assms(1)] f [OF assms(2)] arg_cong [OF assms(3), of spec_peer]
    by (auto simp: contact_abs_def split: if_splits)
  show ?thesis
    using p s q inv_session [OF assms(1)] inv_session [OF assms(2)] assms(3)
    by (cases x; cases y) (auto simp: contact_abs_def pending_offer_def)
qed

text \<open>A call that the specification answers without a change leaves the contact as it is.\<close>

lemma spec_unchanged:
  assumes "contact_inv c" "contact_legal call" "contact_spec_exec call (contact_abs c) = (st, contact_abs c)"
  shows "contact_exec call c = Some (st, c)"
proof -
  obtain st' c' where e: "contact_exec call c = Some (st', c')"
    using contact.exec_safe [OF assms(1,2)] by blast
  have "st' = st" "contact_abs c' = contact_abs c"
    using contact_refines [OF assms(1,2) e] assms(3) by auto
  moreover have "contact_inv c'" using contact.exec_inv [OF assms(1,2) e] .
  ultimately show ?thesis using e abs_inj [of c' c] assms(1) by simp
qed

section \<open>Every call and every run\<close>

text \<open>C15: on every reachable contact every call, whatever its arguments, returns without touching
  memory out of bounds, keeps the invariant, and does to the abstract contact exactly what the
  specification says, with the same status; a refused call leaves every field as it was.\<close>

theorem contact_refines_spec:
  assumes "contact_inv c" "contact_legal call"
  shows "\<exists>st c'. contact_exec call c = Some (st, c') \<and> contact_inv c'
    \<and> contact_spec_exec call (contact_abs c) = (st, contact_abs c') \<and> (st = MCL_LINK_OK \<or> c' = c)"
  using contact.exec_safe [OF assms] contact.exec_inv [OF assms] contact.exec_refused [OF assms]
    contact_refines [OF assms] by metis

text \<open>The whole life of a contact: it begins, is offered the medium 2, agrees on it, validates it and
  accepts the commit.\<close>

definition sample_switch :: "contact_call list" where
  "sample_switch = [Record_Offer 9 2 1 5 0, Agree 9 2 1 7, Validation_Begin [1, 2, 3, 4, 5, 6, 7, 8],
     Validation_Response 9 7 [1, 2, 3, 4, 5, 6, 7, 8], Commit_Accept 9 7]"

lemma sample_switch_run: "\<exists>c'. run_calls contact_exec sample_switch (contact_start 0 3 1) = Some c'
    \<and> contact_active_transport c' = 2"
  by (simp add: sample_switch_def contact_defs contact_helpers contact_start_def Let_def
      del: One_nat_def)

lemma start_length [simp]: "length (contact_challenge (contact_start role l t)) = 8"
  by (simp add: contact_start_def)

lemma begin_again: "mcl_contact_begin (Some (contact_start 1 0 9)) 0 3 1
    = Some (MCL_LINK_OK, Some (contact_start 0 3 1))"
  by (simp add: begin_eq)

lemma sample_switch_legal: "list_all contact_legal sample_switch"
  by (simp add: sample_switch_def)

lemma contact_refines_spec_witness:
  "\<exists>st c'. contact_exec (Record_Offer 9 2 1 5 0) (contact_start 0 3 1) = Some (st, c') \<and> contact_inv c'
    \<and> contact_spec_exec (Record_Offer 9 2 1 5 0) (contact_abs (contact_start 0 3 1)) = (st, contact_abs c')
    \<and> (st = MCL_LINK_OK \<or> c' = contact_start 0 3 1)"
  by (rule contact_refines_spec) (simp_all add: begin_inv)

text \<open>C19: a contact that \<open>mcl_contact_begin\<close> has set up, in a structure of any former contents, takes
  any sequence of calls without a fault, satisfies the invariant afterwards, and ends where the
  accepted calls alone would have taken it.\<close>

theorem contact_runs_total:
  assumes "length (contact_challenge c0) = 8"
    and "mcl_contact_begin (Some c0) role l t = Some (MCL_LINK_OK, Some c)"
    and "list_all contact_legal calls"
  shows "\<exists>c'. run_calls contact_exec calls c = Some c' \<and> contact_inv c'
    \<and> run_calls contact_exec (accepted_calls contact_exec calls c) c = Some c'"
  using contact.run_total [OF begin_start(2) [OF assms(1,2)] assms(3)]
    contact.run_accepted [OF begin_start(2) [OF assms(1,2)] assms(3)] by auto

lemma contact_runs_total_witness:
  "\<exists>c'. run_calls contact_exec sample_switch (contact_start 0 3 1) = Some c' \<and> contact_inv c'
    \<and> run_calls contact_exec (accepted_calls contact_exec sample_switch (contact_start 0 3 1))
        (contact_start 0 3 1) = Some c'"
  by (rule contact_runs_total [OF start_length begin_again sample_switch_legal])

section \<open>The medium only changes along a validated path\<close>

text \<open>C16: if the active medium of a contact is not the one it began with, then its accepted calls
  contain, in this order, an agreement on that medium, the start of its validation with a
  challenge, a response for the same migration and session that echoes the challenge, and a
  commit of that migration in that session.\<close>

theorem switch_needs_validated_path:
  assumes "length (contact_challenge c0) = 8"
    and "mcl_contact_begin (Some c0) role l t0 = Some (MCL_LINK_OK, Some c)"
    and "list_all contact_legal calls" "run_calls contact_exec calls c = Some c'"
    and "contact_active_transport c' \<noteq> t0"
  shows "\<exists>m p s b e k. take 8 e = take 8 b \<and> (k = Commit_Confirm m s \<or> k = Commit_Accept m s)
    \<and> subseq [Agree m (contact_active_transport c') p s, Validation_Begin b, Validation_Response m s e, k]
        (accepted_calls contact_exec calls c)"
proof -
  note c = begin_start [OF assms(1,2)]
  define J where "J = (\<lambda>c h. path_history (contact_abs c) h \<and> switch_history t0 (contact_abs c) h)"
  have start: "J c []"
    by (simp add: J_def c(1) path_history_def switch_history_def phase_of_def contact_start_def)
  have step: "J d' (h @ [call])"
    if "contact_inv d" "J d h" "contact_legal call" "contact_exec call d = Some (MCL_LINK_OK, d')" for d h call d'
    using that path_step switch_step contact_refines [OF that(1,3,4)] unfolding J_def by blast
  have "J c' ([] @ accepted_calls contact_exec calls c)"
    by (rule contact.history_induct [where J = J]) (use step c(2) start assms(3,4) in auto)
  then show ?thesis
    using assms(5) by (simp add: J_def switch_history_def)
qed

lemma switch_needs_validated_path_witness:
  "\<exists>m p s b e k. take 8 e = take 8 b \<and> (k = Commit_Confirm m s \<or> k = Commit_Accept m s)
    \<and> subseq [Agree m 2 p s, Validation_Begin b, Validation_Response m s e, k]
        (accepted_calls contact_exec sample_switch (contact_start 0 3 1))"
proof -
  obtain c' where c': "run_calls contact_exec sample_switch (contact_start 0 3 1) = Some c'"
      "contact_active_transport c' = 2"
    using sample_switch_run by blast
  have "contact_active_transport c' \<noteq> 1" using c'(2) by simp
  from switch_needs_validated_path [OF start_length begin_again sample_switch_legal c'(1) this]
  show ?thesis unfolding c'(2) .
qed

section \<open>A commit in flight\<close>

lemma committing_step:
  assumes "spec_phase a = Committing w ch" "contact_spec_exec call a = (MCL_LINK_OK, a')"
  shows "spec_phase a' = Committing w ch \<and> spec_transport a' = spec_transport a
      \<and> spec_session a' = spec_session a
    \<or> call = Close_Contact \<or> (\<exists>s. spec_session a = Some s \<and> call = Commit_Confirm (offer_ref w) s)"
  using assms by (cases call) (auto simp: spec_defs Let_def split: if_splits option.splits)

text \<open>C17: once a contact is committing, no call gives the migration up: after any run it is still
  committing with the same offer and the old medium, unless an accepted call was the close, or
  the confirmation of this migration in this session.\<close>

theorem commit_is_irrevocable:
  assumes "contact_inv c" "contact_state c = MCL_CONTACT_STATE_COMMITTING"
    and "list_all contact_legal calls" "run_calls contact_exec calls c = Some c'"
  shows "contact_state c' = MCL_CONTACT_STATE_COMMITTING \<and> pending_offer c' = pending_offer c
      \<and> contact_active_transport c' = contact_active_transport c
    \<or> Close_Contact \<in> set (accepted_calls contact_exec calls c)
    \<or> Commit_Confirm (contact_pending_migration_ref c) (contact_session_ref c)
        \<in> set (accepted_calls contact_exec calls c)"
proof -
  define w ch where "w = pending_offer c" and "ch = contact_challenge c"
  define m s where "m = contact_pending_migration_ref c" and "s = contact_session_ref c"
  have m: "offer_ref w = m" by (simp add: w_def m_def pending_offer_def)
  define J where "J = (\<lambda>d h. spec_phase (contact_abs d) = Committing w ch
      \<and> contact_active_transport d = contact_active_transport c \<and> spec_session (contact_abs d) = Some s
    \<or> Close_Contact \<in> set h \<or> Commit_Confirm m s \<in> set h)"
  have start: "J c []"
    using assms(2) inv_session_nz [OF assms(1)]
    by (simp add: J_def phase_state w_def ch_def s_def abs_session)
  have step: "J d' (h @ [call])"
    if "contact_inv d" "J d h" "contact_legal call" "contact_exec call d = Some (MCL_LINK_OK, d')" for d h call d'
    using committing_step [OF _ contact_refines [OF that(1,3,4)], of w ch] that(2) m
    by (auto simp: J_def)
  have "J c' ([] @ accepted_calls contact_exec calls c)"
    by (rule contact.history_induct [where J = J]) (use step assms start in auto)
  moreover have "contact_inv c'" by (rule contact.run_inv [OF assms(1,3,4)])
  ultimately show ?thesis
    by (auto simp: J_def w_def m_def s_def phase_committing)
qed

definition sample_committing :: mcl_contact where
  "sample_committing = (contact_start 0 3 1)\<lparr>contact_session_ref := 7, contact_session_valid := 1,
     contact_state := 6, contact_pending_migration_ref := 9, contact_pending_transport := 2,
     contact_pending_profile := 1, contact_challenge := [1, 2, 3, 4, 5, 6, 7, 8],
     contact_challenge_valid := 1\<rparr>"

lemma sample_committing_inv: "contact_inv sample_committing"
  by (simp add: sample_committing_def contact_inv_def contact_start_def migrating_def)

lemma commit_is_irrevocable_witness:
  "\<exists>c'. run_calls contact_exec [Abandon_Migration] sample_committing = Some c' \<and>
     (contact_state c' = 6 \<and> pending_offer c' = pending_offer sample_committing
        \<and> contact_active_transport c' = contact_active_transport sample_committing
      \<or> Close_Contact \<in> set (accepted_calls contact_exec [Abandon_Migration] sample_committing)
      \<or> Commit_Confirm (contact_pending_migration_ref sample_committing)
            (contact_session_ref sample_committing)
          \<in> set (accepted_calls contact_exec [Abandon_Migration] sample_committing))"
proof -
  have r: "run_calls contact_exec [Abandon_Migration] sample_committing = Some sample_committing"
    by (simp add: contact_defs sample_committing_def del: One_nat_def)
  have "contact_state sample_committing = 6" by (simp add: sample_committing_def)
  from commit_is_irrevocable [OF sample_committing_inv this _ r] r show ?thesis by auto
qed

section \<open>What never changes, and repeated messages\<close>

lemma count_up_mono: "n \<le> count_up n"
  by (auto simp: count_up_def word_le_nat_alt word_less_nat_alt unat_word_ariths)

definition same_identity :: "contact_spec \<Rightarrow> contact_spec \<Rightarrow> bool" where
  "same_identity a a' \<longleftrightarrow> spec_local a' = spec_local a \<and> spec_role a' = spec_role a
    \<and> (\<forall>r. spec_peer a = Some r \<longrightarrow> spec_peer a' = Some r)
    \<and> (\<forall>s. spec_session a = Some s \<longrightarrow> spec_session a' = Some s \<or> spec_phase a' = Closed)
    \<and> (spec_phase a = Closed \<longrightarrow> spec_phase a' = Closed) \<and> spec_count a \<le> spec_count a'"

lemma identity_step:
  assumes "contact_spec_exec call a = (MCL_LINK_OK, a')"
  shows "same_identity a a'"
  using assms count_up_mono unfolding same_identity_def
  by (cases call; cases "spec_phase a") (auto simp: spec_defs Let_def split: if_splits option.splits)

lemma identity_trans: "same_identity a b \<Longrightarrow> same_identity b c \<Longrightarrow> same_identity a c"
  by (auto simp: same_identity_def intro: order_trans)

text \<open>Over any run a contact keeps its own reference and its role, the peer reference once it is
  known, the session reference until it is closed, and its closed state for good; its count of
  completed migrations never falls, however many there are.\<close>

lemma contact_identity_persists:
  assumes "contact_inv c" "list_all contact_legal calls" "run_calls contact_exec calls c = Some c'"
  shows "contact_local_ref c' = contact_local_ref c \<and> contact_role c' = contact_role c
    \<and> (contact_peer_ref_valid c \<noteq> 0
        \<longrightarrow> contact_peer_ref_valid c' \<noteq> 0 \<and> contact_peer_ref c' = contact_peer_ref c)
    \<and> (contact_session_ref c \<noteq> 0
        \<longrightarrow> contact_session_ref c' = contact_session_ref c \<or> contact_state c' = MCL_CONTACT_STATE_CLOSED)
    \<and> (contact_state c = MCL_CONTACT_STATE_CLOSED \<longrightarrow> contact_state c' = MCL_CONTACT_STATE_CLOSED)
    \<and> contact_migration_count c \<le> contact_migration_count c'"
proof -
  have "same_identity (contact_abs c) (contact_abs c')"
  proof (rule contact.run_stable [where P = "\<lambda>d. same_identity (contact_abs c) (contact_abs d)"])
    show "same_identity (contact_abs c) (contact_abs d')"
      if "contact_inv d" "same_identity (contact_abs c) (contact_abs d)" "contact_legal call"
        "contact_exec call d = Some (MCL_LINK_OK, d')" for d call d'
      using identity_trans [OF that(2) identity_step [OF contact_refines [OF that(1,3,4)]]] .
    show "same_identity (contact_abs c) (contact_abs c)" by (simp add: same_identity_def)
  qed (use assms in auto)
  moreover have "spec_peer (contact_abs d) = Some r \<longleftrightarrow> contact_peer_ref_valid d \<noteq> 0 \<and> contact_peer_ref d = r"
    for d r by (auto simp: contact_abs_def)
  ultimately show ?thesis
    using phase_closed [OF assms(1)] phase_closed [OF contact.run_inv [OF assms]]
    by (auto simp: same_identity_def abs_session)
qed

section \<open>Simultaneous offers\<close>

definition offer_key_of :: "mcl_contact \<Rightarrow> offer_key" where
  "offer_key_of c = Offer_Key (contact_local_ref c) (contact_pending_migration_ref c)"

text \<open>One side of a collision: the contact \<open>c\<close> resolves the offer \<open>d\<close> has made.\<close>

definition resolve_with ::
  "mcl_contact \<Rightarrow> mcl_contact \<Rightarrow> (mcl_link_status \<times> mcl_contact option \<times> byte option) option" where
  "resolve_with c d = mcl_contact_resolve_offer_collision (Some c) (contact_local_ref d)
     (contact_pending_migration_ref d) (contact_pending_transport d) (contact_pending_profile d)
     (contact_pending_endpoint_token d) (contact_pending_validity d) (Some 0)"

definition resolved :: "mcl_contact \<Rightarrow> mcl_contact \<Rightarrow> mcl_contact" where
  "resolved c d =
    (if offer_key_of c = offer_key_of d
     then c\<lparr>contact_pending_migration_ref := 0, contact_pending_transport := 0,
        contact_pending_profile := 0, contact_pending_endpoint_token := 0,
        contact_pending_validity := 0, contact_challenge := replicate 8 0,
        contact_challenge_valid := 0, contact_state := 1\<rparr>
     else if offer_key_of d < offer_key_of c then c
     else c\<lparr>contact_pending_migration_ref := contact_pending_migration_ref d,
        contact_pending_transport := contact_pending_transport d,
        contact_pending_profile := contact_pending_profile d,
        contact_pending_endpoint_token := contact_pending_endpoint_token d,
        contact_pending_validity := contact_pending_validity d,
        contact_challenge := replicate 8 0, contact_challenge_valid := 0, contact_state := 2\<rparr>)"

lemma resolve_collision_eq:
  assumes "contact_inv c" "contact_inv d" "contact_state c = 2" "contact_state d = 2"
    and "contact_active_transport c = contact_active_transport d"
  shows "resolve_with c d = Some (MCL_LINK_OK, Some (resolved c d),
    Some (if offer_key_of c = offer_key_of d then MCL_CONTACT_COLLISION_TIE_ABORT
          else if offer_key_of d < offer_key_of c then MCL_CONTACT_COLLISION_LOCAL_WINS
          else MCL_CONTACT_COLLISION_PEER_WINS))"
proof -
  have d: "contact_pending_migration_ref d \<noteq> 0" "contact_pending_transport d \<noteq> 0"
    "contact_pending_profile d \<noteq> 0" "contact_pending_transport d \<noteq> contact_active_transport c"
    using assms(2,4,5) unfolding contact_inv_def by (simp_all add: migrating_def)
  show ?thesis
    using d assms(3) inv_length [OF assms(1)]
    by (auto simp: resolve_with_def resolved_def offer_key_of_def Offer_Key_less contact_helpers
        mcl_contact_resolve_offer_collision_def Let_def)
qed

text \<open>When both ends of a contact have offered a migration away from the same medium, and each
  resolves the collision with the offer of the other, they come to the same result without a further message:
  if the keys (source reference, migration reference) differ, both are left with the offer of the greater key,
  one told it has won and the other that its peer has; if the keys are equal, both abort.\<close>

lemma collision_agreement:
  assumes "contact_inv x" "contact_inv y" "contact_state x = MCL_CONTACT_STATE_OFFERED"
    and "contact_state y = MCL_CONTACT_STATE_OFFERED"
    and "contact_active_transport x = contact_active_transport y"
  shows "\<exists>x' y' ox oy. resolve_with x y = Some (MCL_LINK_OK, Some x', Some ox)
    \<and> resolve_with y x = Some (MCL_LINK_OK, Some y', Some oy)
    \<and> (if offer_key_of x = offer_key_of y
       then contact_state x' = MCL_CONTACT_STATE_ACTIVE \<and> contact_state y' = MCL_CONTACT_STATE_ACTIVE
         \<and> ox = MCL_CONTACT_COLLISION_TIE_ABORT \<and> oy = MCL_CONTACT_COLLISION_TIE_ABORT
       else contact_state x' = MCL_CONTACT_STATE_OFFERED \<and> contact_state y' = MCL_CONTACT_STATE_OFFERED
         \<and> pending_offer x' = pending_offer y'
         \<and> pending_offer x' = pending_offer (if offer_key_of y < offer_key_of x then x else y)
         \<and> (ox = MCL_CONTACT_COLLISION_LOCAL_WINS \<longleftrightarrow> offer_key_of y < offer_key_of x)
         \<and> {ox, oy} = {MCL_CONTACT_COLLISION_LOCAL_WINS, MCL_CONTACT_COLLISION_PEER_WINS})"
proof -
  note r = resolve_collision_eq [OF assms] resolve_collision_eq [OF assms(2,1,4,3) assms(5) [symmetric]]
  consider (tie) "offer_key_of x = offer_key_of y" | (mine) "offer_key_of y < offer_key_of x"
    | (theirs) "offer_key_of x < offer_key_of y" by (rule linorder_cases [of "offer_key_of x" "offer_key_of y"])
  then show ?thesis
  proof cases
    case tie
    then show ?thesis unfolding r by (simp add: resolved_def)
  next
    case mine
    then show ?thesis unfolding r using assms(3,4) less_imp_neq [OF mine]
      by (auto simp: resolved_def pending_offer_def)
  next
    case theirs
    then show ?thesis unfolding r using assms(3,4) less_imp_neq [OF theirs]
      by (auto simp: resolved_def pending_offer_def)
  qed
qed

definition sample_offered :: "u32 \<Rightarrow> byte \<Rightarrow> mcl_contact" where
  "sample_offered l t = (contact_start 0 l 1)\<lparr>contact_state := 2, contact_pending_migration_ref := 9,
     contact_pending_transport := t, contact_pending_profile := 1\<rparr>"

lemma sample_offered_inv: "t \<noteq> 0 \<Longrightarrow> t \<noteq> 1 \<Longrightarrow> contact_inv (sample_offered l t)"
  by (simp add: sample_offered_def contact_inv_def contact_start_def migrating_def)

lemma collision_example:
  "\<exists>x' y' ox oy. resolve_with (sample_offered 3 2) (sample_offered 5 4) = Some (MCL_LINK_OK, Some x', Some ox)
    \<and> resolve_with (sample_offered 5 4) (sample_offered 3 2) = Some (MCL_LINK_OK, Some y', Some oy)
    \<and> pending_offer x' = pending_offer y' \<and> contact_pending_transport x' = 4"
proof -
  have "offer_key_of (sample_offered 3 2) < offer_key_of (sample_offered 5 4)"
    by (simp add: offer_key_of_def sample_offered_def contact_start_def Offer_Key_less)
  then have k: "offer_key_of (sample_offered 3 2) \<noteq> offer_key_of (sample_offered 5 4)"
    "\<not> offer_key_of (sample_offered 5 4) < offer_key_of (sample_offered 3 2)" by auto
  have "pending_offer x = pending_offer (sample_offered 5 4) \<Longrightarrow> contact_pending_transport x = 4" for x
    by (simp add: pending_offer_def sample_offered_def)
  with k collision_agreement [OF sample_offered_inv sample_offered_inv, of 2 4 3 5] show ?thesis
    by (fastforce simp: sample_offered_def contact_start_def)
qed

section \<open>Answering repeated messages\<close>

definition settled_with :: "u32 \<Rightarrow> u32 \<Rightarrow> contact_spec \<Rightarrow> bool" where
  "settled_with m s a \<longleftrightarrow> spec_phase a = Settled \<and> spec_completed a = Some m \<and> spec_session a = Some s"

lemma abs_completed: "spec_completed (contact_abs c) = Some m
    \<longleftrightarrow> m \<noteq> 0 \<and> contact_completed_migration_ref c = m"
  by (auto simp: contact_abs_def nonzero_def)

lemma commit_repeat_eq:
  assumes "contact_inv c"
  shows "mcl_contact_commit_repeat (Some c) m s (Some r)
    = (MCL_LINK_OK, Some (if settled_with m s (contact_abs c) then 1 else 0))"
  using inv_session [OF assms] phase_settled [OF assms]
  by (auto simp: mcl_contact_commit_repeat_def settled_with_def abs_completed abs_session)

fun leaves_settled :: "contact_call \<Rightarrow> bool" where
  "leaves_settled (Record_Offer m t p k v) \<longleftrightarrow> True"
| "leaves_settled Close_Contact \<longleftrightarrow> True"
| "leaves_settled _ \<longleftrightarrow> False"

lemma settled_step:
  assumes "settled_with m s a" "contact_spec_exec call a = (MCL_LINK_OK, a')" "\<not> leaves_settled call"
  shows "settled_with m s a'"
  using assms unfolding settled_with_def
  by (cases call) (auto simp: spec_defs Let_def split: if_splits option.splits)

lemma accept_settles: "contact_spec_exec (Commit_Accept m s) a = (MCL_LINK_OK, a') \<Longrightarrow> settled_with m s a'"
  by (auto simp: settled_with_def spec_defs split: phase.splits if_splits)

definition echoed :: "u32 \<Rightarrow> u32 \<Rightarrow> byte list \<Rightarrow> contact_spec \<Rightarrow> bool" where
  "echoed m s ch x \<longleftrightarrow> (case spec_phase x of
     Validated w e \<Rightarrow> e = take 8 ch \<and> offer_ref w = m \<and> spec_session x = Some s
   | _ \<Rightarrow> False)"

lemma challenge_repeat_eq:
  assumes "contact_inv c" "8 \<le> length ch"
  shows "mcl_contact_challenge_repeat (Some c) m s (Some ch) (Some r)
    = Some (MCL_LINK_OK, Some (if echoed m s ch (contact_abs c) then 1 else 0))"
proof (cases "contact_state c = 5")
  case True
  then have "phase_of c = Validated (pending_offer c) (contact_challenge c)" by (rule phase_state)
  then show ?thesis
    using True assms challenge_equals_eq [OF inv_length [OF assms(1)] assms(2)] inv_session [OF assms(1)]
      inv_challenge_valid [OF assms(1)] inv_session_nz [OF assms(1)]
    by (auto simp: mcl_contact_challenge_repeat_def mcl_contact_check_transaction_def echoed_def
        abs_session pending_offer_def)
next
  case False
  then have "\<not> echoed m s ch (contact_abs c)"
    by (cases rule: state_cases [OF assms(1)]) (simp_all add: echoed_def phase_state)
  with False show ?thesis by (simp add: mcl_contact_challenge_repeat_def)
qed

text \<open>The calls that take a message of the peer (the reference from its frames, an offer, an acceptance, the response to a
  challenge, a commit, a confirmation, a close), and the later call that ends the answer to a repeat of it.\<close>

fun takes_message :: "contact_call \<Rightarrow> bool" where
  "takes_message (Set_Peer_Ref r) \<longleftrightarrow> True"
| "takes_message (Record_Offer m t p k v) \<longleftrightarrow> True"
| "takes_message (Agree m t p s) \<longleftrightarrow> True"
| "takes_message (Validation_Response m s e) \<longleftrightarrow> True"
| "takes_message (Commit_Accept m s) \<longleftrightarrow> True"
| "takes_message (Commit_Confirm m s) \<longleftrightarrow> True"
| "takes_message Close_Contact \<longleftrightarrow> True"
| "takes_message _ \<longleftrightarrow> False"

fun leaves_offered :: "contact_call \<Rightarrow> bool" where
  "leaves_offered (Resolve_Collision r m t p k v) \<longleftrightarrow> True"
| "leaves_offered (Agree m t p s) \<longleftrightarrow> True"
| "leaves_offered Abandon_Migration \<longleftrightarrow> True"
| "leaves_offered Close_Contact \<longleftrightarrow> True"
| "leaves_offered _ \<longleftrightarrow> False"

fun leaves_migration :: "contact_call \<Rightarrow> bool" where
  "leaves_migration (Commit_Accept m s) \<longleftrightarrow> True"
| "leaves_migration (Commit_Confirm m s) \<longleftrightarrow> True"
| "leaves_migration Abandon_Migration \<longleftrightarrow> True"
| "leaves_migration Close_Contact \<longleftrightarrow> True"
| "leaves_migration _ \<longleftrightarrow> False"

fun ends_answer :: "contact_call \<Rightarrow> contact_call \<Rightarrow> bool" where
  "ends_answer (Set_Peer_Ref r) later \<longleftrightarrow> later = Close_Contact"
| "ends_answer (Record_Offer m t p k v) later \<longleftrightarrow> leaves_offered later"
| "ends_answer (Agree m t p s) later \<longleftrightarrow> leaves_migration later"
| "ends_answer (Validation_Response m s e) later \<longleftrightarrow> leaves_migration later \<or> later = Commit_Begin"
| "ends_answer (Commit_Accept m s) later \<longleftrightarrow> leaves_settled later"
| "ends_answer (Commit_Confirm m s) later \<longleftrightarrow> leaves_settled later"
| "ends_answer _ later \<longleftrightarrow> False"

text \<open>A repeat is accepted again and changes nothing; a repeated commit, and the challenge behind a response, are answered
  by the two queries made for them.\<close>

fun answered :: "contact_call \<Rightarrow> mcl_contact \<Rightarrow> bool" where
  "answered (Commit_Accept m s) c \<longleftrightarrow> mcl_contact_commit_repeat (Some c) m s (Some 0) = (MCL_LINK_OK, Some 1)"
| "answered (Validation_Response m s e) c \<longleftrightarrow> contact_exec (Validation_Response m s e) c = Some (MCL_LINK_OK, c)
     \<and> mcl_contact_challenge_repeat (Some c) m s (Some e) (Some 0) = Some (MCL_LINK_OK, Some 1)"
| "answered call c \<longleftrightarrow> contact_exec call c = Some (MCL_LINK_OK, c)"

definition agreed_with :: "u32 \<Rightarrow> byte \<Rightarrow> byte \<Rightarrow> u32 \<Rightarrow> contact_spec \<Rightarrow> bool" where
  "agreed_with m t p s a \<longleftrightarrow> s \<noteq> 0 \<and> spec_session a = Some s
     \<and> (case spec_phase a of
       Agreed w \<Rightarrow> m = offer_ref w \<and> t = offer_transport w \<and> p = offer_profile w
     | Validating w ch \<Rightarrow> m = offer_ref w \<and> t = offer_transport w \<and> p = offer_profile w
     | Validated w ch \<Rightarrow> m = offer_ref w \<and> t = offer_transport w \<and> p = offer_profile w
     | Committing w ch \<Rightarrow> m = offer_ref w \<and> t = offer_transport w \<and> p = offer_profile w
     | _ \<Rightarrow> False)"

fun answered_spec :: "contact_call \<Rightarrow> contact_spec \<Rightarrow> bool" where
  "answered_spec (Set_Peer_Ref r) a \<longleftrightarrow> spec_phase a \<noteq> Closed \<and> spec_peer a = Some r"
| "answered_spec (Record_Offer m t p k v) a \<longleftrightarrow> (let w = \<lparr>offer_ref = m, offer_transport = t, offer_profile = p, offer_token = k,
     offer_validity = v\<rparr> in offer_named w \<and> spec_phase a = Offered w)"
| "answered_spec (Agree m t p s) a \<longleftrightarrow> agreed_with m t p s a"
| "answered_spec (Validation_Response m s e) a \<longleftrightarrow> echoed m s e a"
| "answered_spec (Commit_Accept m s) a \<longleftrightarrow> settled_with m s a"
| "answered_spec (Commit_Confirm m s) a \<longleftrightarrow> settled_with m s a"
| "answered_spec Close_Contact a \<longleftrightarrow> spec_phase a = Closed \<and> spec_session a = None"
| "answered_spec _ a \<longleftrightarrow> False"

lemma agree_spec:
  "contact_spec_exec (Agree m t f s) a = (MCL_LINK_OK, x) \<longleftrightarrow> s \<noteq> 0 \<and> spec_session a \<in> {None, Some s}
    \<and> (\<exists>w. phase_offer (spec_phase a) = Some w \<and> m = offer_ref w \<and> t = offer_transport w \<and> f = offer_profile w
       \<and> x = (if spec_phase a = Offered w then a\<lparr>spec_session := Some s, spec_phase := Agreed w\<rparr> else a))"
  by (auto simp: spec_agree_def split: option.splits if_splits)

text \<open>Each is established by accepting the message, and kept by every step that does not end it.\<close>

lemma session_bound:
  assumes "contact_inv c" "phase_offer (spec_phase (contact_abs c)) = Some w"
  shows "spec_phase (contact_abs c) = Offered w \<or> (\<exists>s. spec_session (contact_abs c) = Some s)"
  using assms(2) inv_session_nz [OF assms(1)]
  by (cases rule: state_cases [OF assms(1)]) (auto simp: phase_state abs_session)

lemma answered_first:
  assumes "takes_message call" "contact_spec_exec call a = (MCL_LINK_OK, a')"
    and bound: "\<And>w. phase_offer (spec_phase a) = Some w \<Longrightarrow> spec_phase a = Offered w \<or> (\<exists>s. spec_session a = Some s)"
  shows "answered_spec call a'"
proof (cases call)
  case (Agree m t p s)
  then show ?thesis using assms(2) unfolding Agree agree_spec using bound
    by (cases "spec_phase a") (auto simp: agreed_with_def split: if_splits)
qed (use assms(1,2) in \<open>auto simp: spec_defs echoed_def settled_with_def Let_def split: phase.splits if_splits option.splits\<close>)

lemma agreed_step:
  assumes "agreed_with m t p s a" "contact_spec_exec later a = (MCL_LINK_OK, a')" "\<not> leaves_migration later"
  shows "agreed_with m t p s a'"
  using assms unfolding agreed_with_def
  by (cases later) (auto simp: spec_defs Let_def split: phase.splits if_splits option.splits)

lemma echoed_step:
  assumes "echoed m s e a" "contact_spec_exec later a = (MCL_LINK_OK, a')" "\<not> leaves_migration later" "later \<noteq> Commit_Begin"
  shows "echoed m s e a'"
  using assms unfolding echoed_def
  by (cases later) (auto simp: spec_defs Let_def split: phase.splits if_splits option.splits)

lemma offered_step:
  assumes "spec_phase a = Offered w" "contact_spec_exec later a = (MCL_LINK_OK, a')" "\<not> leaves_offered later"
  shows "spec_phase a' = Offered w"
  using assms by (cases later) (auto simp: spec_defs Let_def split: if_splits option.splits)

lemma peer_ref_step:
  assumes "spec_phase a \<noteq> Closed" "spec_peer a = Some r" "contact_spec_exec later a = (MCL_LINK_OK, a')" "later \<noteq> Close_Contact"
  shows "spec_phase a' \<noteq> Closed \<and> spec_peer a' = Some r"
  using assms by (cases later) (auto simp: spec_defs Let_def split: phase.splits if_splits option.splits)

lemma closed_step:
  assumes "spec_phase a = Closed" "spec_session a = None" "contact_spec_exec later a = (MCL_LINK_OK, a')"
  shows "spec_phase a' = Closed \<and> spec_session a' = None"
  using assms by (cases later) (auto simp: spec_defs Let_def split: if_splits option.splits)

lemma answered_step:
  assumes "answered_spec call a" "contact_spec_exec later a = (MCL_LINK_OK, a')" "\<not> ends_answer call later"
  shows "answered_spec call a'"
  using assms settled_step [OF _ assms(2)] agreed_step [OF _ assms(2)] echoed_step [OF _ assms(2)] offered_step [OF _ assms(2)]
    peer_ref_step [OF _ _ assms(2)] closed_step [OF _ _ assms(2)]
  by (cases call) (simp_all add: Let_def del: contact_spec_exec.simps)

lemma answered_repeat:
  assumes "answered_spec call a" "\<And>m s. call \<noteq> Commit_Accept m s"
  shows "contact_spec_exec call a = (MCL_LINK_OK, a)"
  using assms
  by (cases call) (auto simp: spec_defs agreed_with_def echoed_def settled_with_def Let_def split: phase.splits)

lemma answered_view:
  assumes inv: "contact_inv c" and legal: "contact_legal call" and a: "answered_spec call (contact_abs c)"
  shows "answered call c"
proof -
  have r: "(\<And>m s. call \<noteq> Commit_Accept m s) \<Longrightarrow> contact_exec call c = Some (MCL_LINK_OK, c)"
    by (rule spec_unchanged [OF inv legal answered_repeat [OF a]])
  show ?thesis
    using r a legal commit_repeat_eq [OF inv] challenge_repeat_eq [OF inv]
    by (cases call) (simp_all del: contact_exec.simps)
qed

text \<open>C18: a message that a contact has accepted is answered again whenever it comes again, and changes nothing, until
  a later step makes it obsolete: the peer reference until the contact is closed, an offer until it is agreed on, collides, is
  abandoned or the contact is closed, an acceptance through all stages of its migration, a response
  and the challenge behind it until the commit, a commit and a confirmation until the next
  offer or the close, and a close for ever.\<close>

theorem contact_repeats_answered:
  assumes "contact_inv c" "contact_legal call" "takes_message call" "contact_exec call c = Some (MCL_LINK_OK, c1)"
    and "list_all contact_legal calls" "run_calls contact_exec calls c1 = Some c'"
    and "\<not> list_ex (ends_answer call) (accepted_calls contact_exec calls c1)"
  shows "answered call c'"
proof -
  note inv = contact.exec_inv [OF assms(1,2,4)]
  define J where "J = (\<lambda>d h. answered_spec call (contact_abs d) \<or> list_ex (ends_answer call) h)"
  have start: "J c1 []" using answered_first [OF assms(3) contact_refines [OF assms(1,2,4)] session_bound [OF assms(1)]] by (simp add: J_def)
  have step: "J d' (h @ [later])"
    if "contact_inv d" "J d h" "contact_legal later" "contact_exec later d = Some (MCL_LINK_OK, d')" for d h later d'
    using answered_step [OF _ contact_refines [OF that(1,3,4)], of call] that(2) by (auto simp: J_def)
  have "J c' ([] @ accepted_calls contact_exec calls c1)"
    by (rule contact.history_induct [where J = J]) (use step inv assms start in auto)
  then have "answered_spec call (contact_abs c')" using assms(7) by (simp add: J_def)
  then show ?thesis by (rule answered_view [OF contact.run_inv [OF inv assms(5,6)] assms(2)])
qed

lemma contact_repeats_answered_witness:
  "\<exists>c1 c'. contact_exec (Agree 9 2 1 7) (sample_offered 3 2) = Some (MCL_LINK_OK, c1)
    \<and> run_calls contact_exec [Validation_Begin [1, 2, 3, 4, 5, 6, 7, 8], Commit_Begin] c1 = Some c' \<and> contact_state c' = 4
    \<and> contact_exec (Agree 9 2 1 7) c' = Some (MCL_LINK_OK, c')"
proof -
  let ?calls = "[Validation_Begin [1, 2, 3, 4, 5, 6, 7, 8], Commit_Begin]"
  obtain c1 c' where c: "contact_exec (Agree 9 2 1 7) (sample_offered 3 2) = Some (MCL_LINK_OK, c1)"
      "run_calls contact_exec ?calls c1 = Some c'" "contact_state c' = 4"
      "accepted_calls contact_exec ?calls c1 = [Validation_Begin [1, 2, 3, 4, 5, 6, 7, 8]]"
    by (simp add: contact_defs contact_helpers sample_offered_def contact_start_def Let_def del: One_nat_def)
  from contact_repeats_answered [OF sample_offered_inv _ _ c(1) _ c(2)] c show ?thesis
    by (simp del: contact_exec.simps run_calls.simps)
qed

text \<open>A contact that has accepted a commit answers every repetition of that commit, and of no
  other, and goes on doing so until it accepts a new offer or is closed.\<close>

lemma commit_repeat_answers:
  assumes "contact_inv c" "contact_exec (Commit_Accept m s) c = Some (MCL_LINK_OK, c1)"
    and "list_all contact_legal calls" "run_calls contact_exec calls c1 = Some c'"
    and "\<not> list_ex leaves_settled (accepted_calls contact_exec calls c1)"
  shows "mcl_contact_commit_repeat (Some c') m' s' (Some r)
    = (MCL_LINK_OK, Some (if m' = m \<and> s' = s then 1 else 0))"
proof -
  have l: "contact_legal (Commit_Accept m s)" by simp
  note inv = contact.exec_inv [OF assms(1) l assms(2)]
  define J where "J = (\<lambda>d h. settled_with m s (contact_abs d) \<or> list_ex leaves_settled h)"
  have start: "J c1 []"
    using accept_settles [OF contact_refines [OF assms(1) l assms(2)]] by (simp add: J_def)
  have step: "J d' (h @ [call])"
    if "contact_inv d" "J d h" "contact_legal call" "contact_exec call d = Some (MCL_LINK_OK, d')" for d h call d'
    using settled_step [OF _ contact_refines [OF that(1,3,4)], of m s] that(2) by (auto simp: J_def)
  have "J c' ([] @ accepted_calls contact_exec calls c1)"
    by (rule contact.history_induct [where J = J]) (use step inv assms start in auto)
  then have "settled_with m s (contact_abs c')" using assms(5) by (simp add: J_def)
  then have "settled_with m' s' (contact_abs c') \<longleftrightarrow> m' = m \<and> s' = s"
    by (auto simp: settled_with_def)
  then show ?thesis
    using commit_repeat_eq [OF contact.run_inv [OF inv assms(3,4)]] by simp
qed

definition sample_validated :: mcl_contact where
  "sample_validated = sample_committing\<lparr>contact_state := 5\<rparr>"

lemma sample_validated_inv: "contact_inv sample_validated"
  by (simp add: sample_validated_def sample_committing_def contact_inv_def contact_start_def migrating_def)

lemma sample_accept: "\<exists>c'. contact_exec (Commit_Accept 9 7) sample_validated = Some (MCL_LINK_OK, c')"
  by (simp add: contact_defs contact_helpers sample_validated_def sample_committing_def
      contact_start_def Let_def del: One_nat_def)

lemma commit_repeat_answers_witness:
  "\<exists>c1. contact_exec (Commit_Accept 9 7) sample_validated = Some (MCL_LINK_OK, c1)
    \<and> mcl_contact_commit_repeat (Some c1) 9 7 (Some 0) = (MCL_LINK_OK, Some 1)"
proof -
  obtain c1 where c1: "contact_exec (Commit_Accept 9 7) sample_validated = Some (MCL_LINK_OK, c1)"
    using sample_accept ..
  with commit_repeat_answers [OF sample_validated_inv c1, of "[]" c1 9 7 0] show ?thesis by simp
qed

lemma offer_after_settled:
  assumes "settled_with m s a" "contact_spec_exec (Record_Offer m2 t p k v) a = (MCL_LINK_OK, a2)"
  shows "\<not> settled_with m s a2" "fst (contact_spec_exec Abandon_Migration a2) = MCL_LINK_OK"
    "settled_with m s (snd (contact_spec_exec Abandon_Migration a2))"
  using assms by (auto simp: settled_with_def spec_defs split: if_splits)

text \<open>A new offer silences the answer to the commit before it, although that commit has been
  carried out and its sender may still be waiting for the confirmation; abandoning the new
  migration brings the answer back.\<close>

lemma commit_repeat_silenced:
  assumes "contact_inv c" "contact_exec (Commit_Accept m s) c = Some (MCL_LINK_OK, c1)"
    and "contact_exec (Record_Offer m2 t p k v) c1 = Some (MCL_LINK_OK, c2)"
  shows "mcl_contact_commit_repeat (Some c2) m s (Some r) = (MCL_LINK_OK, Some 0)
    \<and> (\<exists>c3. contact_exec Abandon_Migration c2 = Some (MCL_LINK_OK, c3)
        \<and> mcl_contact_commit_repeat (Some c3) m s (Some r) = (MCL_LINK_OK, Some 1))"
proof -
  have l: "contact_legal (Commit_Accept m s)" "contact_legal (Record_Offer m2 t p k v)"
    "contact_legal Abandon_Migration" by simp_all
  note inv1 = contact.exec_inv [OF assms(1) l(1) assms(2)]
  note inv2 = contact.exec_inv [OF inv1 l(2) assms(3)]
  note settled = accept_settles [OF contact_refines [OF assms(1) l(1) assms(2)]]
  note offered = offer_after_settled [OF settled contact_refines [OF inv1 l(2) assms(3)]]
  obtain st c3 where c3: "contact_exec Abandon_Migration c2 = Some (st, c3)"
    using contact.exec_safe [OF inv2 l(3)] by blast
  have "st = MCL_LINK_OK" "settled_with m s (contact_abs c3)"
    using contact_refines [OF inv2 l(3) c3] offered(2,3) by simp_all
  then show ?thesis
    using commit_repeat_eq [OF inv2] commit_repeat_eq [OF contact.exec_inv [OF inv2 l(3) c3]] c3
      offered(1) by simp
qed

lemma response_validates:
  assumes "contact_spec_exec (Validation_Response m s e) a = (MCL_LINK_OK, a')"
  obtains w where "spec_phase a' = Validated w (take 8 e)" "offer_ref w = m" "spec_session a' = Some s"
  using assms by (auto simp: spec_defs split: phase.splits if_splits)

text \<open>After it has accepted a challenge response a contact tells its caller to echo again exactly
  those challenges that name the same migration and session and carry the same eight bytes.\<close>

lemma challenge_repeat_answers:
  assumes "contact_inv c" "8 \<le> length e" "8 \<le> length ch"
    and "contact_exec (Validation_Response m s e) c = Some (MCL_LINK_OK, c')"
  shows "mcl_contact_challenge_repeat (Some c') m' s' (Some ch) (Some r)
    = Some (MCL_LINK_OK, Some (if m' = m \<and> s' = s \<and> take 8 ch = take 8 e then 1 else 0))"
proof -
  have l: "contact_legal (Validation_Response m s e)" using assms(2) by simp
  note inv = contact.exec_inv [OF assms(1) l assms(4)]
  obtain w where "phase_of c' = Validated w (take 8 e)" "offer_ref w = m"
    "spec_session (contact_abs c') = Some s"
    using response_validates [OF contact_refines [OF assms(1) l assms(4)]] by auto
  then have f: "contact_state c' = 5" "contact_challenge c' = take 8 e"
    "contact_pending_migration_ref c' = m" "contact_session_ref c' = s" "s \<noteq> 0"
    by (auto simp: phase_of_def pending_offer_def abs_session split: if_splits)
  have "mcl_contact_challenge_equals c' ch = Some (take 8 e = take 8 ch)"
    using challenge_equals_eq [OF inv_length [OF inv] assms(3)] f(2) by simp
  then show ?thesis
    using f inv_session [OF inv] inv_challenge_valid [OF inv]
    by (auto simp: mcl_contact_challenge_repeat_def mcl_contact_check_transaction_def)
qed

definition sample_validating :: mcl_contact where
  "sample_validating = sample_committing\<lparr>contact_state := 4\<rparr>"

lemma sample_validating_inv: "contact_inv sample_validating"
  by (simp add: sample_validating_def sample_committing_def contact_inv_def contact_start_def migrating_def)

lemma challenge_repeat_answers_witness:
  "\<exists>c'. contact_exec (Validation_Response 9 7 [1, 2, 3, 4, 5, 6, 7, 8]) sample_validating
      = Some (MCL_LINK_OK, c')
    \<and> mcl_contact_challenge_repeat (Some c') 9 7 (Some [1, 2, 3, 4, 5, 6, 7, 0]) (Some 1)
        = Some (MCL_LINK_OK, Some 0)"
proof -
  have "\<exists>c'. contact_exec (Validation_Response 9 7 [1, 2, 3, 4, 5, 6, 7, 8]) sample_validating
      = Some (MCL_LINK_OK, c')"
    by (simp add: contact_defs contact_helpers sample_validating_def sample_committing_def
        contact_start_def Let_def del: One_nat_def)
  with challenge_repeat_answers [OF sample_validating_inv, of "[1, 2, 3, 4, 5, 6, 7, 8]"
      "[1, 2, 3, 4, 5, 6, 7, 0]" 9 7 _ 9 7 1] show ?thesis by auto
qed

lemma offer_after_agreement:
  assumes "contact_spec_exec (Record_Offer m t p k v) a = (MCL_LINK_OK, a1)"
    and "contact_spec_exec (Agree m t p s) a1 = (MCL_LINK_OK, a2)"
  shows "contact_spec_exec (Record_Offer m t p k v) a2 = (MCL_LINK_ERR_INVALID_STATE, a2)"
proof -
  obtain w where w: "spec_phase a1 = Offered w" "m \<noteq> 0" "t \<noteq> 0" "p \<noteq> 0"
    using assms(1) by (auto simp: spec_defs split: phase.splits if_splits)
  moreover have "spec_phase a2 = Agreed w"
    using assms(2) w(1) by (auto simp: spec_defs split: if_splits)
  ultimately show ?thesis by (simp add: spec_defs)
qed

text \<open>An offer that has been agreed on is no longer accepted when it is repeated word for word:
  the contact answers with a state error (and changes nothing).\<close>

lemma offer_repeat_after_agreement:
  assumes "contact_inv c" "contact_exec (Record_Offer m t p k v) c = Some (MCL_LINK_OK, c1)"
    and "contact_exec (Agree m t p s) c1 = Some (MCL_LINK_OK, c2)"
  shows "contact_exec (Record_Offer m t p k v) c2 = Some (MCL_LINK_ERR_INVALID_STATE, c2)"
proof -
  have l: "contact_legal (Record_Offer m t p k v)" "contact_legal (Agree m t p s)" by simp_all
  note inv1 = contact.exec_inv [OF assms(1) l(1) assms(2)]
  note inv2 = contact.exec_inv [OF inv1 l(2) assms(3)]
  show ?thesis
    by (rule spec_unchanged [OF inv2 l(1) offer_after_agreement
        [OF contact_refines [OF assms(1) l(1) assms(2)] contact_refines [OF inv1 l(2) assms(3)]]])
qed

section \<open>Where traffic goes\<close>

text \<open>On every contact that is open, application data goes to the active medium (until the end of
  a migration the old one) and is quiesced only while a commit is in flight; control goes to a
  different medium exactly while a migration is in progress; on a closed contact both queries fail and
  leave their results alone.\<close>

lemma contact_transports:
  assumes "contact_inv c"
  shows "\<exists>d k q a. mcl_contact_active_transport (Some c) (Some x) = (if contact_state c = MCL_CONTACT_STATE_CLOSED
        then (MCL_LINK_ERR_INVALID_STATE, Some x) else (MCL_LINK_OK, Some d))
    \<and> mcl_contact_data_transport (Some c) (Some x) (Some y) = (if contact_state c = MCL_CONTACT_STATE_CLOSED
        then (MCL_LINK_ERR_INVALID_STATE, Some x, Some y) else (MCL_LINK_OK, Some d, Some q))
    \<and> mcl_contact_control_transport (Some c) (Some x) = (if contact_state c = MCL_CONTACT_STATE_CLOSED
        then (MCL_LINK_ERR_INVALID_STATE, Some x) else (MCL_LINK_OK, Some k))
    \<and> mcl_contact_migration_active (Some c) (Some y) = (MCL_LINK_OK, Some a)
    \<and> d \<noteq> 0 \<and> k \<noteq> 0 \<and> (k = d \<longleftrightarrow> a = 0) \<and> (q \<noteq> 0 \<longrightarrow> a \<noteq> 0)
    \<and> (q \<noteq> 0 \<longleftrightarrow> contact_exec Abandon_Migration c = Some (MCL_LINK_ERR_INVALID_STATE, c) \<and> a \<noteq> 0)"
proof -
  have p: "contact_active_transport c \<noteq> 0"
    "migrating c \<Longrightarrow> contact_pending_transport c \<noteq> 0 \<and> contact_pending_transport c \<noteq> contact_active_transport c"
    using assms unfolding contact_inv_def by auto
  show ?thesis
    using p inv_length [OF assms]
    by (cases rule: state_cases [OF assms])
      (auto simp: mcl_contact_active_transport_def mcl_contact_data_transport_def migrating_def
        mcl_contact_control_transport_def mcl_contact_migration_active_def contact_defs contact_helpers)
qed

end
