(* ===== verification/Mcl_Migration.thy ===== *)
theory Mcl_Migration
  imports Mcl_Contact_Runs Mcl_Handoff
begin

text \<open>
  Two peers and the network between them: \<open>contact.c\<close> and \<open>handoff.c\<close> put together the way
  \<open>spec/link-handoff-control-v0.1.md\<close> sections 7 and 8 and the comments of \<open>contact.h\<close> tell a caller
  to. Peer A made the offer and sends the commit; peer B accepts it. Bodies on the wire are byte
  strings built by the constructors and the encoder and read by the decoder; a body that has been
  sent can be delivered at any later time, in any order, any number of times or never, and bytes
  that belong to other migrations, or are no control at all, may arrive in between.

  The subject is the part of one migration after the agreement: no offer and no acceptance is delivered here. \<open>Mcl_Continuity\<close>
  adds them, delayed and repeated ones included, together with the migrations before and after.

  The system is a \<open>call_machine\<close> whose calls are the events. Its invariant relates the abstract
  contacts with the controls on the wire; the properties say what it means for the two media.
\<close>

section \<open>Bodies\<close>

definition built :: "(mcl_link_status \<times> mcl_handoff_control option) option \<Rightarrow> byte list" where
  "built r = (case r of Some (MCL_LINK_OK, Some c) \<Rightarrow> handoff_emit c | _ \<Rightarrow> [])"

definition challenge_body :: "u32 \<Rightarrow> u32 \<Rightarrow> byte list \<Rightarrow> byte list" where
  "challenge_body m s ch = built (mcl_handoff_make_path_challenge (Some blank_control) m s (Challenge_At ch))"

definition response_body :: "u32 \<Rightarrow> u32 \<Rightarrow> byte list \<Rightarrow> byte list" where
  "response_body m s e = built (mcl_handoff_make_path_response (Some blank_control) m s (Challenge_At e))"

definition commit_body :: "u32 \<Rightarrow> u32 \<Rightarrow> byte list" where
  "commit_body m s = built (mcl_handoff_make_commit (Some blank_control) m s)"

definition confirm_body :: "u32 \<Rightarrow> u32 \<Rightarrow> byte list" where
  "confirm_body m s = built (mcl_handoff_make_confirm (Some blank_control) m s)"

definition path_control :: "byte \<Rightarrow> u32 \<Rightarrow> u32 \<Rightarrow> byte list \<Rightarrow> mcl_handoff_control" where
  "path_control operation m s ch = \<lparr>control_operation = operation, control_migration_ref = m,
     control_session_ref = s, control_challenge = ch, control_challenge_present = 1\<rparr>"

definition plain_control :: "byte \<Rightarrow> u32 \<Rightarrow> u32 \<Rightarrow> mcl_handoff_control" where
  "plain_control operation m s = \<lparr>control_operation = operation, control_migration_ref = m,
     control_session_ref = s, control_challenge = replicate 8 0, control_challenge_present = 0\<rparr>"

lemma accept_bodies:
  assumes "m \<noteq> 0" "s \<noteq> 0"
  shows "8 \<le> length ch \<Longrightarrow> handoff_accept (challenge_body m s ch) = Some (path_control 1 m s (take 8 ch))"
    "8 \<le> length ch \<Longrightarrow> handoff_accept (response_body m s ch) = Some (path_control 2 m s (take 8 ch))"
    "handoff_accept (commit_body m s) = Some (plain_control 3 m s)"
    "handoff_accept (confirm_body m s) = Some (plain_control 4 m s)"
proof -
  have b: "length (control_challenge blank_control) = 8" by (simp add: blank_control_def)
  have v: "handoff_valid (path_control 1 m s e)" "handoff_valid (path_control 2 m s e)"
    "handoff_valid (plain_control 3 m s)" "handoff_valid (plain_control 4 m s)" if "length e = 8" for e
    using assms that by (simp_all add: handoff_valid_def path_control_def plain_control_def carries_def)
  note d = built_def mcl_handoff_make_path_challenge_def mcl_handoff_make_path_response_def
    mcl_handoff_make_commit_def mcl_handoff_make_confirm_def make_common_eq [OF b]
  show "handoff_accept (challenge_body m s ch) = Some (path_control 1 m s (take 8 ch))" if "8 \<le> length ch"
    using handoff.accept_emit [OF v(1), of "take 8 ch"] assms that make_with_challenge_eq [OF b that]
    by (simp add: challenge_body_def d path_control_def)
  show "handoff_accept (response_body m s ch) = Some (path_control 2 m s (take 8 ch))" if "8 \<le> length ch"
    using handoff.accept_emit [OF v(2), of "take 8 ch"] assms that make_with_challenge_eq [OF b that]
    by (simp add: response_body_def d path_control_def)
  show "handoff_accept (commit_body m s) = Some (plain_control 3 m s)"
    using handoff.accept_emit [OF v(3), of "replicate 8 0"] assms
    by (simp add: commit_body_def d plain_control_def)
  show "handoff_accept (confirm_body m s) = Some (plain_control 4 m s)"
    using handoff.accept_emit [OF v(4), of "replicate 8 0"] assms
    by (simp add: confirm_body_def d plain_control_def)
qed

text \<open>The controls that a list of bodies holds.\<close>

definition controls :: "byte list list \<Rightarrow> mcl_handoff_control set" where
  "controls bodies = {c. \<exists>B \<in> set bodies. handoff_accept B = Some c}"

lemma controls_simps [simp]:
  "controls [] = {}"
  "controls (bodies @ [B]) = controls bodies \<union> set_option (handoff_accept B)"
  by (auto simp: controls_def)

lemma controls_nth: "i < length bodies \<Longrightarrow> handoff_accept (bodies ! i) = Some c \<Longrightarrow> c \<in> controls bodies"
  by (auto simp: controls_def)

section \<open>The peers\<close>

record migration_system =
  peer_a :: mcl_contact
  peer_b :: mcl_contact
  sent_by_a :: "byte list list"
  sent_by_b :: "byte list list"

text \<open>A control arrives at A: it is decoded and handed to the function for its operation.\<close>

definition receive_a :: "mcl_contact \<Rightarrow> byte list \<Rightarrow> (mcl_link_status \<times> mcl_contact) option" where
  "receive_a a B = (case handoff_accept B of
     None \<Rightarrow> Some (MCL_LINK_ERR_RANGE, a)
   | Some c \<Rightarrow>
       if control_operation c = MCL_HANDOFF_OP_PATH_RESPONSE
       then contact_exec (Validation_Response (control_migration_ref c) (control_session_ref c)
              (control_challenge c)) a
       else if control_operation c = MCL_HANDOFF_OP_CONFIRM
       then contact_exec (Commit_Confirm (control_migration_ref c) (control_session_ref c)) a
       else Some (MCL_LINK_ERR_INVALID_STATE, a))"

text \<open>
  A challenge arrives at B: a first one for the migration it has agreed on is recorded, echoed and
  counts as validated; later ones are put to \<open>mcl_contact_challenge_repeat\<close>.
\<close>

definition receive_challenge ::
  "mcl_contact \<Rightarrow> u32 \<Rightarrow> u32 \<Rightarrow> byte list \<Rightarrow> (mcl_link_status \<times> mcl_contact \<times> byte list list) option" where
  "receive_challenge b m s ch =
    (if contact_state b = MCL_CONTACT_STATE_AGREED then
       (if m \<noteq> contact_pending_migration_ref b \<or> s \<noteq> contact_session_ref b
        then Some (MCL_LINK_ERR_CONTEXT_MISMATCH, b, [])
        else do {
          (st, b1) \<leftarrow> contact_exec (Validation_Begin ch) b;
          (st, b2) \<leftarrow> contact_exec (Validation_Response m s ch) b1;
          Some (st, b2, [response_body m s ch]) })
     else do {
       (st, reecho) \<leftarrow> mcl_contact_challenge_repeat (Some b) m s (Some ch) (Some 0);
       Some (if reecho = Some 1 then (MCL_LINK_OK, b, [response_body m s ch])
             else (MCL_LINK_ERR_INVALID_STATE, b, [])) })"

text \<open>A commit arrives at B: it is accepted, or answered again if it has been accepted before.\<close>

definition receive_commit ::
  "mcl_contact \<Rightarrow> u32 \<Rightarrow> u32 \<Rightarrow> (mcl_link_status \<times> mcl_contact \<times> byte list list) option" where
  "receive_commit b m s = do {
     (st, b1) \<leftarrow> contact_exec (Commit_Accept m s) b;
     if st = MCL_LINK_OK then Some (st, b1, [confirm_body m s])
     else let (st2, reconfirm) = mcl_contact_commit_repeat (Some b) m s (Some 0) in
       Some (if reconfirm = Some 1 then (MCL_LINK_OK, b, [confirm_body m s]) else (st, b, [])) }"

definition receive_b ::
  "mcl_contact \<Rightarrow> byte list \<Rightarrow> (mcl_link_status \<times> mcl_contact \<times> byte list list) option" where
  "receive_b b B = (case handoff_accept B of
     None \<Rightarrow> Some (MCL_LINK_ERR_RANGE, b, [])
   | Some c \<Rightarrow>
       if control_operation c = MCL_HANDOFF_OP_PATH_CHALLENGE
       then receive_challenge b (control_migration_ref c) (control_session_ref c) (control_challenge c)
       else if control_operation c = MCL_HANDOFF_OP_COMMIT
       then receive_commit b (control_migration_ref c) (control_session_ref c)
       else Some (MCL_LINK_ERR_INVALID_STATE, b, []))"

section \<open>The system\<close>

datatype migration_event =
    Start_Validation "byte list"
  | Resend_Challenge
  | Send_Commit
  | Resend_Commit
  | Deliver_To_A nat
  | Deliver_To_B nat
  | Foreign_To_A "byte list"
  | Foreign_To_B "byte list"
  | Abandon_A
  | Abandon_B
  | Close_A
  | Close_B

text \<open>A call on A whose success sends the body, if there is one.\<close>

definition at_a :: "byte list list \<Rightarrow> (mcl_link_status \<times> mcl_contact) option \<Rightarrow> migration_system
    \<Rightarrow> (mcl_link_status \<times> migration_system) option" where
  "at_a bodies r y = (case r of
     None \<Rightarrow> None
   | Some (st, a) \<Rightarrow> Some (st, if st = MCL_LINK_OK
       then y\<lparr>peer_a := a, sent_by_a := sent_by_a y @ bodies\<rparr> else y\<lparr>peer_a := a\<rparr>))"

definition at_b :: "(mcl_link_status \<times> mcl_contact \<times> byte list list) option \<Rightarrow> migration_system
    \<Rightarrow> (mcl_link_status \<times> migration_system) option" where
  "at_b r y = (case r of
     None \<Rightarrow> None
   | Some (st, b, bodies) \<Rightarrow> Some (st, y\<lparr>peer_b := b, sent_by_b := sent_by_b y @ bodies\<rparr>))"

definition quiet :: "(mcl_link_status \<times> mcl_contact) option \<Rightarrow> (mcl_link_status \<times> mcl_contact \<times> byte list list) option" where
  "quiet = map_option (\<lambda>(st, b). (st, b, []))"

definition refs_of :: "(u32 \<Rightarrow> u32 \<Rightarrow> 'a) \<Rightarrow> mcl_contact \<Rightarrow> 'a" where
  "refs_of f c = f (contact_pending_migration_ref c) (contact_session_ref c)"

fun migration_exec :: "(migration_event, migration_system) call_exec" where
  "migration_exec (Start_Validation ch) y =
     at_a [refs_of challenge_body (peer_a y) ch] (contact_exec (Validation_Begin ch) (peer_a y)) y"
| "migration_exec Resend_Challenge y =
     at_a [refs_of challenge_body (peer_a y) (contact_challenge (peer_a y))]
       (Some (if contact_state (peer_a y) = MCL_CONTACT_STATE_VALIDATING
              then MCL_LINK_OK else MCL_LINK_ERR_INVALID_STATE, peer_a y)) y"
| "migration_exec Send_Commit y =
     at_a [refs_of commit_body (peer_a y)] (contact_exec Commit_Begin (peer_a y)) y"
| "migration_exec Resend_Commit y =
     at_a [refs_of commit_body (peer_a y)]
       (Some (if contact_state (peer_a y) = MCL_CONTACT_STATE_COMMITTING
              then MCL_LINK_OK else MCL_LINK_ERR_INVALID_STATE, peer_a y)) y"
| "migration_exec (Deliver_To_A i) y =
    (if i < length (sent_by_b y) then at_a [] (receive_a (peer_a y) (sent_by_b y ! i)) y
     else Some (MCL_LINK_ERR_INVALID_ARGUMENT, y))"
| "migration_exec (Deliver_To_B i) y =
    (if i < length (sent_by_a y) then at_b (receive_b (peer_b y) (sent_by_a y ! i)) y
     else Some (MCL_LINK_ERR_INVALID_ARGUMENT, y))"
| "migration_exec (Foreign_To_A B) y = at_a [] (receive_a (peer_a y) B) y"
| "migration_exec (Foreign_To_B B) y = at_b (receive_b (peer_b y) B) y"
| "migration_exec Abandon_A y = at_a [] (contact_exec Abandon_Migration (peer_a y)) y"
| "migration_exec Abandon_B y = at_b (quiet (contact_exec Abandon_Migration (peer_b y))) y"
| "migration_exec Close_A y = at_a [] (contact_exec Close_Contact (peer_a y)) y"
| "migration_exec Close_B y = at_b (quiet (contact_exec Close_Contact (peer_b y))) y"

text \<open>Challenges have eight bytes; foreign bytes do not name the migration \<open>m\<close>.\<close>

definition foreign :: "u32 \<Rightarrow> byte list \<Rightarrow> bool" where
  "foreign m B \<longleftrightarrow> (case handoff_accept B of None \<Rightarrow> True | Some c \<Rightarrow> control_migration_ref c \<noteq> m)"

fun migration_legal :: "u32 \<Rightarrow> migration_event \<Rightarrow> bool" where
  "migration_legal m (Start_Validation ch) \<longleftrightarrow> 8 \<le> length ch"
| "migration_legal m (Foreign_To_A B) \<longleftrightarrow> foreign m B"
| "migration_legal m (Foreign_To_B B) \<longleftrightarrow> foreign m B"
| "migration_legal m _ \<longleftrightarrow> True"

section \<open>The invariant\<close>

text \<open>The contact is still (or again) on the old medium and has not completed this migration.\<close>

definition before :: "offer \<Rightarrow> byte \<Rightarrow> contact_spec \<Rightarrow> bool" where
  "before w t0 x \<longleftrightarrow> spec_transport x = t0 \<and> spec_completed x \<noteq> Some (offer_ref w)"

definition after :: "offer \<Rightarrow> contact_spec \<Rightarrow> bool" where
  "after w x \<longleftrightarrow> spec_transport x = offer_transport w \<and> spec_completed x = Some (offer_ref w)"

abbreviation (input) "challenge_c w s ch \<equiv> path_control 1 (offer_ref w) s ch"
abbreviation (input) "response_c w s ch \<equiv> path_control 2 (offer_ref w) s ch"
abbreviation (input) "commit_c w s \<equiv> plain_control 3 (offer_ref w) s"
abbreviation (input) "confirm_c w s \<equiv> plain_control 4 (offer_ref w) s"

definition a_ok :: "offer \<Rightarrow> u32 \<Rightarrow> byte \<Rightarrow> contact_spec
    \<Rightarrow> mcl_handoff_control set \<Rightarrow> mcl_handoff_control set \<Rightarrow> bool" where
  "a_ok w s t0 a Ca Cb \<longleftrightarrow> (spec_phase a = Closed \<or> spec_session a = Some s)
     \<and> (case spec_phase a of
       Agreed v \<Rightarrow> v = w \<and> before w t0 a \<and> commit_c w s \<notin> Ca
     | Validating v ch \<Rightarrow> v = w \<and> before w t0 a \<and> commit_c w s \<notin> Ca
     | Validated v ch \<Rightarrow> v = w \<and> before w t0 a \<and> commit_c w s \<notin> Ca \<and> response_c w s ch \<in> Cb
     | Committing v ch \<Rightarrow> v = w \<and> before w t0 a \<and> commit_c w s \<in> Ca \<and> response_c w s ch \<in> Cb
     | Settled \<Rightarrow> before w t0 a \<and> commit_c w s \<notin> Ca \<or> after w a \<and> confirm_c w s \<in> Cb
     | Closed \<Rightarrow> before w t0 a \<or> after w a \<and> confirm_c w s \<in> Cb
     | Offered v \<Rightarrow> False)"

definition b_ok :: "offer \<Rightarrow> u32 \<Rightarrow> byte \<Rightarrow> contact_spec
    \<Rightarrow> mcl_handoff_control set \<Rightarrow> mcl_handoff_control set \<Rightarrow> bool" where
  "b_ok w s t0 b Ca Cb \<longleftrightarrow> (spec_phase b = Closed \<or> spec_session b = Some s)
     \<and> (case spec_phase b of
       Agreed v \<Rightarrow> v = w \<and> before w t0 b \<and> confirm_c w s \<notin> Cb
     | Validated v ch \<Rightarrow> v = w \<and> before w t0 b \<and> confirm_c w s \<notin> Cb
     | Settled \<Rightarrow> before w t0 b \<and> confirm_c w s \<notin> Cb \<or> after w b \<and> commit_c w s \<in> Ca
     | Closed \<Rightarrow> before w t0 b \<and> confirm_c w s \<notin> Cb \<or> after w b \<and> commit_c w s \<in> Ca
     | _ \<Rightarrow> False)"

text \<open>What is on the wire.\<close>

definition wire_ok :: "offer \<Rightarrow> u32 \<Rightarrow> mcl_handoff_control set \<Rightarrow> mcl_handoff_control set \<Rightarrow> bool" where
  "wire_ok w s Ca Cb \<longleftrightarrow>
     (\<forall>c \<in> Ca. (\<exists>ch. c = challenge_c w s ch) \<or> c = commit_c w s)
     \<and> (\<forall>c \<in> Cb. (\<exists>ch. c = response_c w s ch) \<or> (\<exists>m' s'. c = plain_control 4 m' s'
          \<and> (m' = offer_ref w \<longrightarrow> s' = s)))
     \<and> (\<forall>ch. response_c w s ch \<in> Cb \<longrightarrow> challenge_c w s ch \<in> Ca)
     \<and> (commit_c w s \<in> Ca \<longrightarrow> (\<exists>ch. response_c w s ch \<in> Cb))"

definition migration_inv :: "offer \<Rightarrow> u32 \<Rightarrow> byte \<Rightarrow> migration_system \<Rightarrow> bool" where
  "migration_inv w s t0 y \<longleftrightarrow>
     contact_inv (peer_a y) \<and> contact_inv (peer_b y) \<and> offer_ref w \<noteq> 0 \<and> s \<noteq> 0
     \<and> a_ok w s t0 (contact_abs (peer_a y)) (controls (sent_by_a y)) (controls (sent_by_b y))
     \<and> b_ok w s t0 (contact_abs (peer_b y)) (controls (sent_by_a y)) (controls (sent_by_b y))
     \<and> wire_ok w s (controls (sent_by_a y)) (controls (sent_by_b y))"

lemma control_eqs [simp]:
  "path_control p m s ch = path_control p' m' s' ch' \<longleftrightarrow> p = p' \<and> m = m' \<and> s = s' \<and> ch = ch'"
  "plain_control p m s = plain_control p' m' s' \<longleftrightarrow> p = p' \<and> m = m' \<and> s = s'"
  "path_control p m s ch \<noteq> plain_control p' m' s'"
  "plain_control p' m' s' \<noteq> path_control p m s ch"
  by (auto simp: path_control_def plain_control_def)

lemma control_fields [simp]:
  "control_operation (path_control p m s ch) = p" "control_migration_ref (path_control p m s ch) = m"
  "control_session_ref (path_control p m s ch) = s" "control_challenge (path_control p m s ch) = ch"
  "control_operation (plain_control p m s) = p" "control_migration_ref (plain_control p m s) = m"
  "control_session_ref (plain_control p m s) = s"
  by (simp_all add: path_control_def plain_control_def)

lemma a_ok_mono: "a_ok w s t0 a Ca Cb \<Longrightarrow> Cb \<subseteq> Cb' \<Longrightarrow> a_ok w s t0 a Ca Cb'"
  by (auto simp: a_ok_def split: phase.splits)

lemma b_ok_mono: "b_ok w s t0 b Ca Cb \<Longrightarrow> Ca \<subseteq> Ca' \<Longrightarrow> b_ok w s t0 b Ca' Cb"
  by (auto simp: b_ok_def split: phase.splits)

subsection \<open>What a call does to A\<close>

lemma a_starts:
  assumes "a_ok w s t0 a Ca Cb" "contact_spec_exec (Validation_Begin ch) a = (MCL_LINK_OK, a')"
  shows "spec_phase a = Agreed w" "spec_session a = Some s"
    "a_ok w s t0 a' (insert (challenge_c w s x) Ca) Cb"
  using assms by (auto simp: a_ok_def before_def spec_defs split: phase.splits)

lemma a_resends:
  assumes "a_ok w s t0 a Ca Cb" "spec_phase a = Validating v ch"
  shows "v = w" "spec_session a = Some s" "a_ok w s t0 a (insert (challenge_c w s x) Ca) Cb"
  using assms by (auto simp: a_ok_def)

lemma a_commits:
  assumes "a_ok w s t0 a Ca Cb" "contact_spec_exec Commit_Begin a = (MCL_LINK_OK, a')"
  shows "\<exists>ch. spec_phase a = Validated w ch \<and> response_c w s ch \<in> Cb" "spec_session a = Some s"
    "a_ok w s t0 a' (insert (commit_c w s) Ca) Cb"
  using assms by (auto simp: a_ok_def before_def spec_defs split: phase.splits)

lemma a_recommits:
  assumes "a_ok w s t0 a Ca Cb" "spec_phase a = Committing v ch"
  shows "v = w" "spec_session a = Some s" "a_ok w s t0 a (insert (commit_c w s) Ca) Cb"
    "response_c w s ch \<in> Cb"
  using assms by (auto simp: a_ok_def)

lemma a_hears_response:
  assumes "a_ok w s t0 a Ca Cb" "contact_spec_exec (Validation_Response m' s' e) a = (MCL_LINK_OK, a')"
    and "m' = offer_ref w \<Longrightarrow> s' = s \<Longrightarrow> response_c w s (take 8 e) \<in> Cb"
  shows "a_ok w s t0 a' Ca Cb"
  using assms by (auto simp: a_ok_def before_def spec_defs split: phase.splits if_splits)

lemma a_hears_confirm:
  assumes "a_ok w s t0 a Ca Cb" "contact_spec_exec (Commit_Confirm m' s') a = (MCL_LINK_OK, a')"
    and "m' = offer_ref w \<Longrightarrow> s' = s \<Longrightarrow> confirm_c w s \<in> Cb"
  shows "a_ok w s t0 a' Ca Cb"
  using assms by (auto simp: a_ok_def before_def after_def spec_defs split: phase.splits if_splits)

lemma a_leaves:
  assumes "a_ok w s t0 a Ca Cb"
  shows "contact_spec_exec Abandon_Migration a = (MCL_LINK_OK, a') \<Longrightarrow> a_ok w s t0 a' Ca Cb"
    and "contact_spec_exec Close_Contact a = (MCL_LINK_OK, a') \<Longrightarrow> a_ok w s t0 a' Ca Cb"
  using assms by (auto simp: a_ok_def before_def after_def spec_defs split: phase.splits)

subsection \<open>What a call does to B\<close>

lemma b_echoes:
  assumes "b_ok w s t0 b Ca Cb" "spec_phase b = Agreed v"
  shows "v = w" "spec_session b = Some s"
    "b_ok w s t0 (b\<lparr>spec_phase := Validated v ch\<rparr>) Ca (insert (response_c w s x) Cb)"
  using assms by (auto simp: b_ok_def before_def)

lemma b_reechoes:
  assumes "b_ok w s t0 b Ca Cb" "spec_phase b = Validated v ch"
  shows "v = w" "spec_session b = Some s" "b_ok w s t0 b Ca (insert (response_c w s x) Cb)"
  using assms by (auto simp: b_ok_def)

lemma b_accepts:
  assumes "b_ok w s t0 b Ca Cb" "contact_spec_exec (Commit_Accept m' s') b = (MCL_LINK_OK, b')"
    and "commit_c w s \<in> Ca \<or> m' \<noteq> offer_ref w"
  shows "m' = offer_ref w" "s' = s" "b_ok w s t0 b' Ca (insert (confirm_c w s) Cb)"
  using assms by (auto simp: b_ok_def after_def spec_defs split: phase.splits if_splits)

lemma b_reconfirms:
  assumes "b_ok w s t0 b Ca Cb" "settled_with m' s' b"
  shows "m' = offer_ref w \<Longrightarrow> s' = s" "b_ok w s t0 b Ca (insert (plain_control 4 m' s') Cb)"
  using assms by (auto simp: b_ok_def settled_with_def before_def)

lemma b_leaves:
  assumes "b_ok w s t0 b Ca Cb"
  shows "contact_spec_exec Abandon_Migration b = (MCL_LINK_OK, b') \<Longrightarrow> b_ok w s t0 b' Ca Cb"
    and "contact_spec_exec Close_Contact b = (MCL_LINK_OK, b') \<Longrightarrow> b_ok w s t0 b' Ca Cb"
  using assms by (auto simp: b_ok_def before_def after_def spec_defs split: phase.splits)

subsection \<open>What stays true of the wire\<close>

lemma wire_adds:
  assumes "wire_ok w s Ca Cb"
  shows "wire_ok w s (insert (challenge_c w s ch) Ca) Cb"
    "response_c w s x \<in> Cb \<Longrightarrow> wire_ok w s (insert (commit_c w s) Ca) Cb"
    "challenge_c w s ch \<in> Ca \<Longrightarrow> wire_ok w s Ca (insert (response_c w s ch) Cb)"
    "(m' = offer_ref w \<Longrightarrow> s' = s) \<Longrightarrow> wire_ok w s Ca (insert (plain_control 4 m' s') Cb)"
  using assms by (auto simp: wire_ok_def)

lemma wire_shapes:
  assumes "wire_ok w s Ca Cb"
  shows "c \<in> Cb \<Longrightarrow> control_migration_ref c = offer_ref w \<Longrightarrow> control_operation c = 2
      \<Longrightarrow> response_c w s (control_challenge c) \<in> Cb"
    "c \<in> Cb \<Longrightarrow> control_migration_ref c = offer_ref w \<Longrightarrow> control_operation c = 4 \<Longrightarrow> confirm_c w s \<in> Cb"
    "c \<in> Ca \<Longrightarrow> control_operation c = 1 \<Longrightarrow> challenge_c w s (control_challenge c) \<in> Ca"
    "c \<in> Ca \<Longrightarrow> control_operation c = 3 \<Longrightarrow> commit_c w s \<in> Ca"
  using assms by (auto simp: wire_ok_def)

subsection \<open>Every event keeps the invariant\<close>

definition good :: "offer \<Rightarrow> u32 \<Rightarrow> byte \<Rightarrow> migration_system
    \<Rightarrow> (mcl_link_status \<times> migration_system) option \<Rightarrow> bool" where
  "good w s t0 y r \<longleftrightarrow> (\<exists>st y'. r = Some (st, y') \<and> migration_inv w s t0 y' \<and> (st \<noteq> MCL_LINK_OK \<longrightarrow> y' = y))"

lemma good_refused: "migration_inv w s t0 y \<Longrightarrow> st \<noteq> MCL_LINK_OK \<Longrightarrow> good w s t0 y (Some (st, y))"
  by (simp add: good_def)

lemma at_a_good:
  assumes inv: "migration_inv w s t0 y" and legal: "contact_legal call"
    and ok: "\<And>a'. contact_spec_exec call (contact_abs (peer_a y)) = (MCL_LINK_OK, contact_abs a') \<Longrightarrow>
      a_ok w s t0 (contact_abs a') (controls (sent_by_a y @ bodies)) (controls (sent_by_b y))
      \<and> wire_ok w s (controls (sent_by_a y @ bodies)) (controls (sent_by_b y))"
  shows "good w s t0 y (at_a bodies (contact_exec call (peer_a y)) y)"
proof -
  have inv_a: "contact_inv (peer_a y)" using inv by (simp add: migration_inv_def)
  obtain st a' where r: "contact_exec call (peer_a y) = Some (st, a')"
    using contact.exec_safe [OF inv_a legal] by blast
  show ?thesis
  proof (cases "st = MCL_LINK_OK")
    case True
    have "controls (sent_by_a y) \<subseteq> controls (sent_by_a y @ bodies)" by (auto simp: controls_def)
    with ok [of a'] contact_refines [OF inv_a legal r] contact.exec_inv [OF inv_a legal r] inv True
    show ?thesis
      by (auto simp: good_def at_a_def r migration_inv_def intro: b_ok_mono)
  next
    case False
    with contact.exec_refused [OF inv_a legal r] inv show ?thesis
      by (simp add: good_def at_a_def r)
  qed
qed

lemma at_a_same_good:
  assumes "migration_inv w s t0 y"
    and "st = MCL_LINK_OK \<Longrightarrow>
      a_ok w s t0 (contact_abs (peer_a y)) (controls (sent_by_a y @ bodies)) (controls (sent_by_b y))
      \<and> wire_ok w s (controls (sent_by_a y @ bodies)) (controls (sent_by_b y))"
  shows "good w s t0 y (at_a bodies (Some (st, peer_a y)) y)"
proof -
  have "controls (sent_by_a y) \<subseteq> controls (sent_by_a y @ bodies)" by (auto simp: controls_def)
  with assms show ?thesis by (auto simp: good_def at_a_def migration_inv_def intro: b_ok_mono)
qed

lemma at_b_good:
  assumes "migration_inv w s t0 y" "r = Some (st, b', bodies)" "contact_inv b'"
    and "st \<noteq> MCL_LINK_OK \<Longrightarrow> b' = peer_b y \<and> bodies = []"
    and "st = MCL_LINK_OK \<Longrightarrow>
      b_ok w s t0 (contact_abs b') (controls (sent_by_a y)) (controls (sent_by_b y @ bodies))
      \<and> wire_ok w s (controls (sent_by_a y)) (controls (sent_by_b y @ bodies))"
  shows "good w s t0 y (at_b r y)"
proof (cases "st = MCL_LINK_OK")
  case True
  have "controls (sent_by_b y) \<subseteq> controls (sent_by_b y @ bodies)" by (auto simp: controls_def)
  with assms True show ?thesis by (auto simp: good_def at_b_def migration_inv_def intro: a_ok_mono)
next
  case False
  with assms show ?thesis by (auto simp: good_def at_b_def)
qed

lemma accepted_shape:
  assumes "handoff_accept B = Some c"
  shows "control_migration_ref c \<noteq> 0" "control_session_ref c \<noteq> 0" "length (control_challenge c) = 8"
  using handoff.emit_accept [OF assms] by (simp_all add: handoff_valid_def)

text \<open>What may arrive: something the other peer has sent, or something about another migration.\<close>

definition arrives :: "offer \<Rightarrow> mcl_handoff_control set \<Rightarrow> byte list \<Rightarrow> bool" where
  "arrives w C B \<longleftrightarrow> (\<forall>c. handoff_accept B = Some c \<longrightarrow> c \<in> C \<or> control_migration_ref c \<noteq> offer_ref w)"

lemma arrives_sent: "i < length bodies \<Longrightarrow> arrives w (controls bodies) (bodies ! i)"
  by (auto simp: arrives_def intro: controls_nth)

lemma arrives_foreign: "foreign (offer_ref w) B \<Longrightarrow> arrives w C B"
  by (auto simp: arrives_def foreign_def)

text \<open>What A makes of a response or a confirmation that has arrived.\<close>

lemma a_ok_arrived:
  assumes inv: "migration_inv w s t0 y" and B: "arrives w (controls (sent_by_b y)) B" and c: "handoff_accept B = Some c"
  shows "control_operation c = 2 \<Longrightarrow> contact_spec_exec (Validation_Response (control_migration_ref c) (control_session_ref c)
        (control_challenge c)) (contact_abs (peer_a y)) = (MCL_LINK_OK, x)
      \<Longrightarrow> a_ok w s t0 x (controls (sent_by_a y)) (controls (sent_by_b y))"
    "control_operation c = 4 \<Longrightarrow> contact_spec_exec (Commit_Confirm (control_migration_ref c) (control_session_ref c))
        (contact_abs (peer_a y)) = (MCL_LINK_OK, x)
      \<Longrightarrow> a_ok w s t0 x (controls (sent_by_a y)) (controls (sent_by_b y))"
proof -
  let ?Ca = "controls (sent_by_a y)" and ?Cb = "controls (sent_by_b y)"
  have a: "a_ok w s t0 (contact_abs (peer_a y)) ?Ca ?Cb" and wire: "wire_ok w s ?Ca ?Cb"
    using inv by (simp_all add: migration_inv_def)
  have inC: "c \<in> ?Cb" if "control_migration_ref c = offer_ref w"
    using B c that by (auto simp: arrives_def)
  show "a_ok w s t0 x ?Ca ?Cb" if "control_operation c = 2"
    "contact_spec_exec (Validation_Response (control_migration_ref c) (control_session_ref c) (control_challenge c))
      (contact_abs (peer_a y)) = (MCL_LINK_OK, x)"
    using wire_shapes(1) [OF wire inC] that(1) accepted_shape(3) [OF c] by (intro a_hears_response [OF a that(2)]) simp
  show "a_ok w s t0 x ?Ca ?Cb" if "control_operation c = 4"
    "contact_spec_exec (Commit_Confirm (control_migration_ref c) (control_session_ref c)) (contact_abs (peer_a y)) = (MCL_LINK_OK, x)"
    using wire_shapes(2) [OF wire inC] that(1) by (intro a_hears_confirm [OF a that(2)]) simp
qed

lemma receive_a_good:
  assumes inv: "migration_inv w s t0 y" and B: "arrives w (controls (sent_by_b y)) B"
  shows "good w s t0 y (at_a [] (receive_a (peer_a y) B) y)"
proof (cases "handoff_accept B")
  case None
  then show ?thesis using at_a_same_good [OF inv, of "MCL_LINK_ERR_RANGE"] by (simp add: receive_a_def)
next
  case (Some c)
  note ok = a_ok_arrived [OF inv B Some]
  have wire: "wire_ok w s (controls (sent_by_a y)) (controls (sent_by_b y))" using inv by (simp add: migration_inv_def)
  consider (response) "control_operation c = 2" | (confirm) "control_operation c = 4"
    | (other) "control_operation c \<noteq> 2" "control_operation c \<noteq> 4" by blast
  then show ?thesis
  proof cases
    case response
    then show ?thesis
      using Some ok(1) accepted_shape(3) [OF Some] wire by (simp add: receive_a_def del: contact_exec.simps)
        (intro at_a_good [OF inv]; simp del: contact_exec.simps)
  next
    case confirm
    then show ?thesis
      using Some ok(2) wire by (simp add: receive_a_def del: contact_exec.simps)
        (intro at_a_good [OF inv]; simp del: contact_exec.simps)
  next
    case other
    then show ?thesis
      using Some at_a_same_good [OF inv, of MCL_LINK_ERR_INVALID_STATE "[]"] by (simp add: receive_a_def)
  qed
qed

lemma contact_does:
  assumes "contact_inv c" "contact_legal call" "contact_spec_exec call (contact_abs c) = (st, x)"
  obtains c' where "contact_exec call c = Some (st, c')" "contact_inv c'" "contact_abs c' = x"
proof -
  obtain st' c' where e: "contact_exec call c = Some (st', c')"
    using contact.exec_safe [OF assms(1,2)] by blast
  from that [of c'] e contact.exec_inv [OF assms(1,2) e] contact_refines [OF assms(1,2) e] assms(3)
  show thesis by simp
qed

lemma phase_agreed: "contact_inv c \<Longrightarrow> contact_state c = 3 \<Longrightarrow> spec_phase (contact_abs c) = Agreed (pending_offer c)"
  by (simp add: phase_state)

lemma receive_challenge_agreed:
  assumes inv: "migration_inv w s t0 y" and c: "8 \<le> length ch" "s' \<noteq> 0"
    and C: "m = offer_ref w \<Longrightarrow> s' = s \<Longrightarrow> challenge_c w s (take 8 ch) \<in> controls (sent_by_a y)"
    and agreed: "contact_state (peer_b y) = 3"
  shows "good w s t0 y (at_b (receive_challenge (peer_b y) m s' ch) y)"
proof -
  let ?b = "peer_b y" and ?Ca = "controls (sent_by_a y)" and ?Cb = "controls (sent_by_b y)"
  have b: "contact_inv ?b" "b_ok w s t0 (contact_abs ?b) ?Ca ?Cb" and wire: "wire_ok w s ?Ca ?Cb"
    and nz: "offer_ref w \<noteq> 0" "s \<noteq> 0"
    using inv by (simp_all add: migration_inv_def)
  note ph = phase_agreed [OF b(1) agreed]
  note e = b_echoes [OF b(2) ph]
  show ?thesis
  proof (cases "m = contact_pending_migration_ref ?b \<and> s' = contact_session_ref ?b")
    case refs: True
    then have r: "m = offer_ref w" "s' = s"
      using refs e(2) by (simp_all add: e(1) [symmetric] pending_offer_def abs_session)
    obtain b1 where b1: "contact_exec (Validation_Begin ch) ?b = Some (MCL_LINK_OK, b1)" "contact_inv b1"
        "contact_abs b1 = (contact_abs ?b)\<lparr>spec_phase := Validating w (take 8 ch)\<rparr>"
      using contact_does [OF b(1), of "Validation_Begin ch"] c(1) ph e(1)
      by (force simp: spec_challenge_def)
    have "contact_spec_exec (Validation_Response m s' ch) (contact_abs b1)
        = (MCL_LINK_OK, (contact_abs ?b)\<lparr>spec_phase := Validated w (take 8 ch)\<rparr>)"
      using r e(2) by (simp add: b1(3) spec_response_def)
    then obtain b2 where b2: "contact_exec (Validation_Response m s' ch) b1 = Some (MCL_LINK_OK, b2)"
        "contact_inv b2" "contact_abs b2 = (contact_abs ?b)\<lparr>spec_phase := Validated w (take 8 ch)\<rparr>"
      using contact_does [OF b1(2)] c(1) by (metis contact_legal.simps(2))
    have body: "controls (sent_by_b y @ [response_body (offer_ref w) s ch])
        = insert (response_c w s (take 8 ch)) ?Cb"
      using accept_bodies(2) [OF nz c(1)] by simp
    have "receive_challenge ?b m s' ch = Some (MCL_LINK_OK, b2, [response_body m s' ch])"
      using agreed refs b1(1) b2(1) by (simp add: receive_challenge_def del: contact_exec.simps)
    from at_b_good [OF inv this b2(2)] e(3) wire_adds(3) [OF wire C [OF r]] show ?thesis
      by (simp add: r body b2(3) e(1) del: controls_simps)
  next
    case False
    with agreed have "receive_challenge ?b m s' ch = Some (MCL_LINK_ERR_CONTEXT_MISMATCH, ?b, [])"
      by (auto simp: receive_challenge_def)
    from at_b_good [OF inv this b(1)] show ?thesis by simp
  qed
qed

lemma receive_challenge_good:
  assumes inv: "migration_inv w s t0 y" and c: "8 \<le> length ch" "s' \<noteq> 0"
    and C: "m = offer_ref w \<Longrightarrow> s' = s \<Longrightarrow> challenge_c w s (take 8 ch) \<in> controls (sent_by_a y)"
  shows "good w s t0 y (at_b (receive_challenge (peer_b y) m s' ch) y)"
proof (cases "contact_state (peer_b y) = 3")
  case True
  then show ?thesis using receive_challenge_agreed [OF inv c C] by blast
next
  case False
  let ?b = "peer_b y" and ?Ca = "controls (sent_by_a y)" and ?Cb = "controls (sent_by_b y)"
  have b: "contact_inv ?b" "b_ok w s t0 (contact_abs ?b) ?Ca ?Cb" and wire: "wire_ok w s ?Ca ?Cb"
    and nz: "offer_ref w \<noteq> 0" "s \<noteq> 0"
    using inv by (simp_all add: migration_inv_def)
  show ?thesis
  proof (cases "echoed m s' ch (contact_abs ?b)")
    case True
    then obtain v where v: "spec_phase (contact_abs ?b) = Validated v (take 8 ch)" "offer_ref v = m"
        "spec_session (contact_abs ?b) = Some s'"
      by (auto simp: echoed_def split: phase.splits)
    note e = b_reechoes [OF b(2) v(1)]
    have r: "m = offer_ref w" "s' = s" using v e by auto
    have body: "controls (sent_by_b y @ [response_body (offer_ref w) s ch])
        = insert (response_c w s (take 8 ch)) ?Cb"
      using accept_bodies(2) [OF nz c(1)] by simp
    have "receive_challenge ?b m s' ch = Some (MCL_LINK_OK, ?b, [response_body m s' ch])"
      using False True challenge_repeat_eq [OF b(1) c(1)] by (simp add: receive_challenge_def)
    from at_b_good [OF inv this b(1)] e(3) wire_adds(3) [OF wire C [OF r]] show ?thesis
      by (simp add: r body del: controls_simps)
  next
    case no: False
    have "receive_challenge ?b m s' ch = Some (MCL_LINK_ERR_INVALID_STATE, ?b, [])"
      using False no challenge_repeat_eq [OF b(1) c(1)] by (simp add: receive_challenge_def)
    from at_b_good [OF inv this b(1)] show ?thesis by simp
  qed
qed

lemma receive_commit_good:
  assumes inv: "migration_inv w s t0 y" and nz: "m \<noteq> 0" "s' \<noteq> 0"
    and C: "m = offer_ref w \<Longrightarrow> commit_c w s \<in> controls (sent_by_a y)"
  shows "good w s t0 y (at_b (receive_commit (peer_b y) m s') y)"
proof -
  let ?b = "peer_b y" and ?Ca = "controls (sent_by_a y)" and ?Cb = "controls (sent_by_b y)"
  have b: "contact_inv ?b" "b_ok w s t0 (contact_abs ?b) ?Ca ?Cb" and wire: "wire_ok w s ?Ca ?Cb"
    using inv by (simp_all add: migration_inv_def)
  have body: "controls (sent_by_b y @ [confirm_body m s']) = insert (plain_control 4 m s') ?Cb"
    using accept_bodies(4) [OF nz] by simp
  have l: "contact_legal (Commit_Accept m s')" by simp
  obtain st b1 where b1: "contact_exec (Commit_Accept m s') ?b = Some (st, b1)"
    using contact.exec_safe [OF b(1) l] by blast
  show ?thesis
  proof (cases "st = MCL_LINK_OK")
    case True
    then have r: "receive_commit ?b m s' = Some (MCL_LINK_OK, b1, [confirm_body m s'])"
      using b1 by (simp add: receive_commit_def del: contact_exec.simps)
    have x: "commit_c w s \<in> ?Ca \<or> m \<noteq> offer_ref w" using C by blast
    note e = b_accepts [OF b(2) contact_refines [OF b(1) l b1 [unfolded True]] x]
    from at_b_good [OF inv r contact.exec_inv [OF b(1) l b1]] e(3) wire_adds(4) [OF wire, of m s']
    show ?thesis by (simp add: body [unfolded e(1,2)] e(1,2) del: controls_simps)
  next
    case False
    show ?thesis
    proof (cases "settled_with m s' (contact_abs ?b)")
      case True
      then have r: "receive_commit ?b m s' = Some (MCL_LINK_OK, ?b, [confirm_body m s'])"
        using False b1 commit_repeat_eq [OF b(1)] by (simp add: receive_commit_def del: contact_exec.simps)
      note e = b_reconfirms [OF b(2) True]
      from at_b_good [OF inv r b(1)] e wire_adds(4) [OF wire, of m s']
      show ?thesis by (simp add: body del: controls_simps)
    next
      case no: False
      then have r: "receive_commit ?b m s' = Some (st, ?b, [])"
        using False b1 commit_repeat_eq [OF b(1)] by (simp add: receive_commit_def del: contact_exec.simps)
      from at_b_good [OF inv r b(1)] False show ?thesis by simp
    qed
  qed
qed

lemma receive_b_good:
  assumes inv: "migration_inv w s t0 y" and B: "arrives w (controls (sent_by_a y)) B"
  shows "good w s t0 y (at_b (receive_b (peer_b y) B) y)"
proof (cases "handoff_accept B")
  case None
  then have r: "receive_b (peer_b y) B = Some (MCL_LINK_ERR_RANGE, peer_b y, [])" by (simp add: receive_b_def)
  have "contact_inv (peer_b y)" using inv by (simp add: migration_inv_def)
  from at_b_good [OF inv r this] show ?thesis by simp
next
  case (Some c)
  note sh = accepted_shape [OF Some]
  have wire: "wire_ok w s (controls (sent_by_a y)) (controls (sent_by_b y))" and b: "contact_inv (peer_b y)"
    using inv by (simp_all add: migration_inv_def)
  have inC: "c \<in> controls (sent_by_a y)" if "control_migration_ref c = offer_ref w"
    using B Some that by (auto simp: arrives_def)
  consider (challenge) "control_operation c = 1" | (commit) "control_operation c = 3"
    | (other) "control_operation c \<noteq> 1" "control_operation c \<noteq> 3" by blast
  then show ?thesis
  proof cases
    case challenge
    then show ?thesis
      using Some sh wire_shapes(3) [OF wire inC]
        receive_challenge_good [OF inv, of "control_challenge c" "control_session_ref c"]
      by (simp add: receive_b_def)
  next
    case commit
    then show ?thesis
      using Some wire_shapes(4) [OF wire inC] receive_commit_good [OF inv sh(1,2)]
      by (simp add: receive_b_def)
  next
    case other
    then have r: "receive_b (peer_b y) B = Some (MCL_LINK_ERR_INVALID_STATE, peer_b y, [])"
      using Some by (simp add: receive_b_def)
    from at_b_good [OF inv r b] show ?thesis by simp
  qed
qed

lemma inv_a:
  assumes "migration_inv w s t0 y"
  shows "contact_inv (peer_a y)"
    "a_ok w s t0 (contact_abs (peer_a y)) (controls (sent_by_a y)) (controls (sent_by_b y))"
    "wire_ok w s (controls (sent_by_a y)) (controls (sent_by_b y))" "offer_ref w \<noteq> 0" "s \<noteq> 0"
  using assms by (simp_all add: migration_inv_def)

lemma inv_b:
  assumes "migration_inv w s t0 y"
  shows "contact_inv (peer_b y)"
    "b_ok w s t0 (contact_abs (peer_b y)) (controls (sent_by_a y)) (controls (sent_by_b y))"
  using assms by (simp_all add: migration_inv_def)

lemma at_a_refused: "migration_inv w s t0 y \<Longrightarrow> st \<noteq> MCL_LINK_OK \<Longrightarrow>
    good w s t0 y (at_a bodies (Some (st, peer_a y)) y)"
  by (rule at_a_same_good) simp_all

lemma quiet_b_good:
  assumes inv: "migration_inv w s t0 y" and legal: "contact_legal call"
    and ok: "\<And>b'. contact_spec_exec call (contact_abs (peer_b y)) = (MCL_LINK_OK, contact_abs b')
      \<Longrightarrow> b_ok w s t0 (contact_abs b') (controls (sent_by_a y)) (controls (sent_by_b y))"
  shows "good w s t0 y (at_b (quiet (contact_exec call (peer_b y))) y)"
proof -
  note b = inv_b [OF inv]
  obtain st b' where r: "contact_exec call (peer_b y) = Some (st, b')"
    using contact.exec_safe [OF b(1) legal] by blast
  then have q: "quiet (contact_exec call (peer_b y)) = Some (st, b', [])" by (simp add: quiet_def)
  from at_b_good [OF inv q contact.exec_inv [OF b(1) legal r]] show ?thesis
    using ok contact_refines [OF b(1) legal r] contact.exec_refused [OF b(1) legal r] inv_a(3) [OF inv] by auto
qed

text \<open>What A writes names the migration and the session.\<close>

lemma refs_of_eq:
  assumes "phase_offer (phase_of a) = Some w" "spec_session (contact_abs a) = Some s"
  shows "refs_of f a = f (offer_ref w) s"
  using assms by (auto simp: refs_of_def abs_session phase_of_def pending_offer_def split: if_splits)

lemma refs_of_app: "refs_of f a x = refs_of (\<lambda>m s. f m s x) a"
  by (simp add: refs_of_def)

lemma start_good:
  assumes inv: "migration_inv w s t0 y" and ch: "8 \<le> length ch"
  shows "good w s t0 y (migration_exec (Start_Validation ch) y)"
proof -
  note a = inv_a [OF inv]
  have "a_ok w s t0 (contact_abs a') (controls (sent_by_a y @ [refs_of challenge_body (peer_a y) ch]))
        (controls (sent_by_b y))
      \<and> wire_ok w s (controls (sent_by_a y @ [refs_of challenge_body (peer_a y) ch])) (controls (sent_by_b y))"
    if "contact_spec_exec (Validation_Begin ch) (contact_abs (peer_a y)) = (MCL_LINK_OK, contact_abs a')" for a'
    using a_starts [OF a(2) that] wire_adds(1) [OF a(3)] accept_bodies(1) [OF a(4,5) ch]
    by (simp add: refs_of_app refs_of_eq)
  then show ?thesis using at_a_good [OF inv, of "Validation_Begin ch"] ch by simp
qed

lemma resend_good:
  assumes inv: "migration_inv w s t0 y"
  shows "good w s t0 y (migration_exec Resend_Challenge y)"
proof (cases "contact_state (peer_a y) = 4")
  case True
  let ?ch = "contact_challenge (peer_a y)"
  note a = inv_a [OF inv]
  have ph: "spec_phase (contact_abs (peer_a y)) = Validating (pending_offer (peer_a y)) ?ch"
    using True by (simp add: phase_state)
  have "8 \<le> length ?ch" using inv_length [OF a(1)] by simp
  note body = accept_bodies(1) [OF a(4,5) this]
  show ?thesis
    using at_a_same_good [OF inv] a_resends [OF a(2) ph] wire_adds(1) [OF a(3)] body True ph
    by (simp add: refs_of_app refs_of_eq)
qed (use at_a_refused [OF inv] in simp)

lemma commit_good:
  assumes inv: "migration_inv w s t0 y"
  shows "good w s t0 y (migration_exec Send_Commit y)"
proof -
  note a = inv_a [OF inv]
  have "a_ok w s t0 (contact_abs a') (controls (sent_by_a y @ [refs_of commit_body (peer_a y)]))
        (controls (sent_by_b y))
      \<and> wire_ok w s (controls (sent_by_a y @ [refs_of commit_body (peer_a y)])) (controls (sent_by_b y))"
    if "contact_spec_exec Commit_Begin (contact_abs (peer_a y)) = (MCL_LINK_OK, contact_abs a')" for a'
    using a_commits [OF a(2) that] wire_adds(2) [OF a(3)] accept_bodies(3) [OF a(4,5)]
    by (auto simp: refs_of_eq)
  then show ?thesis using at_a_good [OF inv, of Commit_Begin] by simp
qed

lemma recommit_good:
  assumes inv: "migration_inv w s t0 y"
  shows "good w s t0 y (migration_exec Resend_Commit y)"
proof (cases "contact_state (peer_a y) = 6")
  case True
  note a = inv_a [OF inv]
  have ph: "spec_phase (contact_abs (peer_a y)) = Committing (pending_offer (peer_a y)) (contact_challenge (peer_a y))"
    using True by (simp add: phase_state)
  show ?thesis
    using at_a_same_good [OF inv] a_recommits [OF a(2) ph] wire_adds(2) [OF a(3)]
      accept_bodies(3) [OF a(4,5)] True ph by (auto simp: refs_of_eq)
qed (use at_a_refused [OF inv] in simp)

lemma migration_step:
  assumes inv: "migration_inv w s t0 y" and legal: "migration_legal (offer_ref w) e"
  shows "good w s t0 y (migration_exec e y)"
proof -
  note a = inv_a [OF inv] and b = inv_b [OF inv]
  show ?thesis
  proof (cases e)
    case (Deliver_To_A i)
    then show ?thesis using receive_a_good [OF inv arrives_sent] good_refused [OF inv] by simp
  next
    case (Deliver_To_B i)
    then show ?thesis using receive_b_good [OF inv arrives_sent] good_refused [OF inv] by simp
  next
    case (Foreign_To_A B)
    then show ?thesis using receive_a_good [OF inv arrives_foreign] legal by simp
  next
    case (Foreign_To_B B)
    then show ?thesis using receive_b_good [OF inv arrives_foreign] legal by simp
  next
    case Abandon_A
    then show ?thesis
      using at_a_good [OF inv, of Abandon_Migration "[]"] a_leaves(1) [OF a(2)] a(3) by simp
  next
    case Abandon_B
    then show ?thesis using quiet_b_good [OF inv, of Abandon_Migration] b_leaves(1) [OF b(2)] by simp
  next
    case Close_A
    then show ?thesis
      using at_a_good [OF inv, of Close_Contact "[]"] a_leaves(2) [OF a(2)] a(3) by simp
  next
    case Close_B
    then show ?thesis using quiet_b_good [OF inv, of Close_Contact] b_leaves(2) [OF b(2)] by simp
  qed (use start_good [OF inv] resend_good [OF inv] commit_good [OF inv] recommit_good [OF inv] legal
      in \<open>simp_all del: migration_exec.simps\<close>)
qed

interpretation migration: call_machine migration_exec "migration_inv w s t0" "migration_legal (offer_ref w)"
  for w s t0
  by unfold_locales (use migration_step in \<open>fastforce simp: good_def\<close>)+

section \<open>Properties\<close>

text \<open>The exchange of offer and acceptance is over: both peers have agreed on \<open>w\<close>, nothing is on the
  wire, and the reference of the migration is not the one they completed last.\<close>

definition agreed_pair :: "offer \<Rightarrow> u32 \<Rightarrow> byte \<Rightarrow> migration_system \<Rightarrow> bool" where
  "agreed_pair w s t0 y \<longleftrightarrow> sent_by_a y = [] \<and> sent_by_b y = []
     \<and> (\<forall>c \<in> {peer_a y, peer_b y}. contact_inv c \<and> contact_state c = MCL_CONTACT_STATE_AGREED
          \<and> pending_offer c = w \<and> contact_session_ref c = s \<and> contact_active_transport c = t0
          \<and> contact_completed_migration_ref c \<noteq> offer_ref w)"

lemma agreed_pair_inv:
  assumes "agreed_pair w s t0 y"
  shows "migration_inv w s t0 y"
proof -
  have p: "phase_of c = Agreed w" "spec_session (contact_abs c) = Some s" "offer_ref w \<noteq> 0" "s \<noteq> 0"
      "before w t0 (contact_abs c)" "contact_inv c" if "c \<in> {peer_a y, peer_b y}" for c
  proof -
    have c: "contact_inv c" "contact_state c = 3" "pending_offer c = w" "contact_session_ref c = s"
      "contact_active_transport c = t0" "contact_completed_migration_ref c \<noteq> offer_ref w"
      using assms that unfolding agreed_pair_def by blast+
    show "phase_of c = Agreed w" using phase_state(3) [OF c(2)] c(3) by simp
    show "s \<noteq> 0" using inv_session_nz [OF c(1)] c(2,4) by simp
    then show "spec_session (contact_abs c) = Some s" using c(4) by (simp add: abs_session)
    show "offer_ref w \<noteq> 0" using inv_pending_nz [OF c(1)] c(2,3) by (auto simp: pending_offer_def)
    show "before w t0 (contact_abs c)" using c by (simp add: before_def abs_completed)
    show "contact_inv c" by (rule c(1))
  qed
  have "sent_by_a y = []" "sent_by_b y = []" using assms by (simp_all add: agreed_pair_def)
  then show ?thesis
    using p [of "peer_a y"] p [of "peer_b y"] by (simp add: migration_inv_def a_ok_def b_ok_def wire_ok_def)
qed

text \<open>What the invariant says of the media.\<close>

lemma inv_media:
  assumes "migration_inv w s t0 y"
  shows "contact_active_transport (peer_a y) \<in> {t0, offer_transport w}"
    "contact_active_transport (peer_b y) \<in> {t0, offer_transport w}"
    "contact_active_transport (peer_a y) \<noteq> t0 \<Longrightarrow> contact_active_transport (peer_b y) = offer_transport w"
    "contact_active_transport (peer_a y) \<noteq> contact_active_transport (peer_b y)
      \<Longrightarrow> contact_state (peer_a y) = 6 \<or> contact_state (peer_a y) = 7"
proof -
  note a = inv_a [OF assms] and b = inv_b [OF assms]
  show "contact_active_transport (peer_a y) \<in> {t0, offer_transport w}"
    using a(2) by (auto simp: a_ok_def before_def after_def split: phase.splits)
  show "contact_active_transport (peer_b y) \<in> {t0, offer_transport w}"
    using b(2) by (auto simp: b_ok_def before_def after_def split: phase.splits)
  show "contact_active_transport (peer_b y) = offer_transport w" if "contact_active_transport (peer_a y) \<noteq> t0"
    using a(2) b(2) that by (auto simp: a_ok_def b_ok_def before_def after_def split: phase.splits)
  show "contact_state (peer_a y) = 6 \<or> contact_state (peer_a y) = 7"
    if "contact_active_transport (peer_a y) \<noteq> contact_active_transport (peer_b y)"
    using a(2) b(2) that
    by (cases rule: state_cases [OF a(1)])
      (auto simp: phase_state a_ok_def b_ok_def before_def after_def split: phase.splits)
qed


text \<open>A pair of peers that has agreed on the medium 2, and a run in which every kind of body is repeated.\<close>

definition sample_agreed :: mcl_contact where
  "sample_agreed = sample_committing\<lparr>contact_state := 3, contact_challenge := replicate 8 0,
     contact_challenge_valid := 0\<rparr>"

definition sample_pair :: migration_system where
  "sample_pair = \<lparr>peer_a = sample_agreed, peer_b = sample_agreed\<lparr>contact_role := 1\<rparr>,
     sent_by_a = [], sent_by_b = []\<rparr>"

definition sample_offer :: offer where
  "sample_offer = \<lparr>offer_ref = 9, offer_transport = 2, offer_profile = 1, offer_token = 0, offer_validity = 0\<rparr>"

lemma sample_pair_agreed: "agreed_pair sample_offer 7 1 sample_pair"
  by (simp add: agreed_pair_def sample_pair_def sample_agreed_def sample_committing_def sample_offer_def
      contact_inv_def contact_start_def migrating_def pending_offer_def)

definition sample_events :: "migration_event list" where
  "sample_events = [Start_Validation [1, 2, 3, 4, 5, 6, 7, 8], Deliver_To_B 0, Deliver_To_B 0, Deliver_To_A 0,
     Send_Commit, Deliver_To_B 1]"

lemma sample_events_legal: "list_all (migration_legal m) sample_events"
  by (simp add: sample_events_def)


text \<open>C10: the path comes first. Before either contact is on the new medium, and before a commit is even sent,
  the peer that commits has sent a challenge for this migration and the other one has sent the
  response that echoes its eight bytes; and the other one moves only after the commit was sent.\<close>

theorem migration_path_first:
  assumes "agreed_pair w s t0 y" "list_all (migration_legal (offer_ref w)) es"
    and "run_calls migration_exec es y = Some y'"
  shows "(contact_active_transport (peer_b y') \<noteq> t0 \<longrightarrow> plain_control 3 (offer_ref w) s \<in> controls (sent_by_a y'))
    \<and> (plain_control 3 (offer_ref w) s \<in> controls (sent_by_a y')
        \<or> contact_active_transport (peer_a y') \<noteq> t0 \<or> contact_active_transport (peer_b y') \<noteq> t0
      \<longrightarrow> (\<exists>ch. path_control 1 (offer_ref w) s ch \<in> controls (sent_by_a y')
          \<and> path_control 2 (offer_ref w) s ch \<in> controls (sent_by_b y')))"
proof -
  have inv: "migration_inv w s t0 y'"
    by (rule migration.run_inv [OF agreed_pair_inv [OF assms(1)] assms(2,3)])
  note a = inv_a [OF inv] and b = inv_b [OF inv]
  have c: "plain_control 3 (offer_ref w) s \<in> controls (sent_by_a y')"
    if "contact_active_transport (peer_b y') \<noteq> t0"
    using b(2) that by (auto simp: b_ok_def before_def split: phase.splits)
  have "contact_active_transport (peer_b y') \<noteq> t0" if "contact_active_transport (peer_a y') \<noteq> t0"
    using inv_media [OF inv] that by auto
  with c a(3) show ?thesis by (auto simp: wire_ok_def)
qed

lemma migration_path_first_witness:
  "\<exists>y'. run_calls migration_exec sample_events sample_pair = Some y'
    \<and> (contact_active_transport (peer_b y') \<noteq> 1
      \<longrightarrow> plain_control 3 (offer_ref sample_offer) 7 \<in> controls (sent_by_a y'))"
proof -
  obtain y' where y': "run_calls migration_exec sample_events sample_pair = Some y'"
    using migration.run_total [OF agreed_pair_inv [OF sample_pair_agreed] sample_events_legal] by blast
  with migration_path_first [OF sample_pair_agreed sample_events_legal y'] show ?thesis by blast
qed

lemma b_takes_commit:
  assumes inv: "migration_inv w s t0 y"
    and state: "contact_state (peer_b y) = 5 \<or> contact_state (peer_b y) = 1 \<and> contact_active_transport (peer_b y) \<noteq> t0"
  shows "\<exists>b'. receive_commit (peer_b y) (offer_ref w) s = Some (MCL_LINK_OK, b', [confirm_body (offer_ref w) s])
    \<and> contact_state b' = 1 \<and> contact_active_transport b' = offer_transport w"
proof (cases "contact_state (peer_b y) = 5")
  case True
  note b = inv_b [OF inv]
  have ph: "spec_phase (contact_abs (peer_b y)) = Validated (pending_offer (peer_b y)) (contact_challenge (peer_b y))"
    using True by (simp add: phase_state)
  note e = b_reechoes [OF b(2) ph]
  have l: "contact_legal (Commit_Accept (offer_ref w) s)" by simp
  have sp: "contact_spec_exec (Commit_Accept (offer_ref w) s) (contact_abs (peer_b y))
      = (MCL_LINK_OK, spec_settle w (contact_abs (peer_b y)))"
    using ph e(1,2) by (simp add: spec_accept_def)
  obtain b' where b': "contact_exec (Commit_Accept (offer_ref w) s) (peer_b y) = Some (MCL_LINK_OK, b')"
      "contact_inv b'" "contact_abs b' = spec_settle w (contact_abs (peer_b y))"
    by (rule contact_does [OF b(1) l sp])
  have "spec_phase (contact_abs b') = Settled" "spec_transport (contact_abs b') = offer_transport w"
    by (simp_all only: b'(3)) (simp_all add: spec_settle_def)
  then show ?thesis
    using b'(1) phase_settled [OF b'(2)] by (simp add: receive_commit_def del: contact_exec.simps)
next
  case False
  with state have st: "contact_state (peer_b y) = 1" "contact_active_transport (peer_b y) \<noteq> t0" by auto
  note b = inv_b [OF inv]
  have "settled_with (offer_ref w) s (contact_abs (peer_b y))" "contact_active_transport (peer_b y) = offer_transport w"
    using b(2) st by (auto simp: b_ok_def phase_state before_def after_def settled_with_def)
  moreover have "contact_exec (Commit_Accept (offer_ref w) s) (peer_b y) = Some (MCL_LINK_ERR_INVALID_STATE, peer_b y)"
    using st(1) by (simp add: contact_defs)
  ultimately show ?thesis
    using st(1) commit_repeat_eq [OF b(1)] by (simp add: receive_commit_def del: contact_exec.simps)
qed

lemma a_takes_confirm:
  assumes inv: "migration_inv w s t0 y" and state: "contact_state (peer_a y) = 6"
  shows "\<exists>a'. contact_exec (Commit_Confirm (offer_ref w) s) (peer_a y) = Some (MCL_LINK_OK, a')
    \<and> contact_state a' = 1 \<and> contact_active_transport a' = offer_transport w"
proof -
  note a = inv_a [OF inv]
  have ph: "spec_phase (contact_abs (peer_a y)) = Committing (pending_offer (peer_a y)) (contact_challenge (peer_a y))"
    using state by (simp add: phase_state)
  note e = a_recommits [OF a(2) ph]
  have l: "contact_legal (Commit_Confirm (offer_ref w) s)" by simp
  have sp: "contact_spec_exec (Commit_Confirm (offer_ref w) s) (contact_abs (peer_a y))
      = (MCL_LINK_OK, spec_settle w (contact_abs (peer_a y)))"
    using ph e(1,2) by (simp add: spec_confirm_def)
  obtain a' where a': "contact_exec (Commit_Confirm (offer_ref w) s) (peer_a y) = Some (MCL_LINK_OK, a')"
      "contact_inv a'" "contact_abs a' = spec_settle w (contact_abs (peer_a y))"
    by (rule contact_does [OF a(1) l sp])
  have "spec_phase (contact_abs a') = Settled" "spec_transport (contact_abs a') = offer_transport w"
    by (simp_all only: a'(3)) (simp_all add: spec_settle_def)
  then show ?thesis using a'(1) phase_settled [OF a'(2)] by (simp del: contact_exec.simps)
qed

lemma a_names_commit:
  assumes "migration_inv w s t0 y" "contact_state (peer_a y) = 6"
  shows "refs_of commit_body (peer_a y) = commit_body (offer_ref w) s"
proof -
  have ph: "spec_phase (contact_abs (peer_a y)) = Committing (pending_offer (peer_a y)) (contact_challenge (peer_a y))"
    using assms(2) by (simp add: phase_state)
  from a_recommits [OF inv_a(2) [OF assms(1)] ph] ph show ?thesis by (simp add: refs_of_eq)
qed

text \<open>C9: a commit always gets through. Whatever has happened before, if A is committing and B has
  validated the path or has moved already, then sending the commit once more, its delivery and the
  delivery of the answer leave both contacts at rest on the new medium.\<close>

theorem migration_commit_completes:
  assumes "agreed_pair w s t0 y" "list_all (migration_legal (offer_ref w)) es"
    and "run_calls migration_exec es y = Some y'"
    and "contact_state (peer_a y') = MCL_CONTACT_STATE_COMMITTING"
    and "contact_state (peer_b y') = MCL_CONTACT_STATE_VALIDATED
      \<or> contact_state (peer_b y') = MCL_CONTACT_STATE_ACTIVE \<and> contact_active_transport (peer_b y') \<noteq> t0"
  shows "\<exists>z. run_calls migration_exec
      [Resend_Commit, Deliver_To_B (length (sent_by_a y')), Deliver_To_A (length (sent_by_b y'))] y' = Some z
    \<and> contact_state (peer_a z) = MCL_CONTACT_STATE_ACTIVE \<and> contact_state (peer_b z) = MCL_CONTACT_STATE_ACTIVE
    \<and> contact_active_transport (peer_a z) = offer_transport w
    \<and> contact_active_transport (peer_b z) = offer_transport w"
proof -
  have inv: "migration_inv w s t0 y'"
    by (rule migration.run_inv [OF agreed_pair_inv [OF assms(1)] assms(2,3)])
  obtain b' where b': "receive_commit (peer_b y') (offer_ref w) s
      = Some (MCL_LINK_OK, b', [confirm_body (offer_ref w) s])" "contact_state b' = 1"
      "contact_active_transport b' = offer_transport w"
    using b_takes_commit [OF inv assms(5)] by blast
  obtain a' where a': "contact_exec (Commit_Confirm (offer_ref w) s) (peer_a y') = Some (MCL_LINK_OK, a')"
      "contact_state a' = 1" "contact_active_transport a' = offer_transport w"
    using a_takes_confirm [OF inv assms(4)] by blast
  have "receive_b (peer_b y') (commit_body (offer_ref w) s) = Some (MCL_LINK_OK, b', [confirm_body (offer_ref w) s])"
    using accept_bodies(3) [OF inv_a(4,5) [OF inv]] b'(1) by (simp add: receive_b_def)
  moreover have "receive_a (peer_a y') (confirm_body (offer_ref w) s) = Some (MCL_LINK_OK, a')"
    using accept_bodies(4) [OF inv_a(4,5) [OF inv]] a'(1) by (simp add: receive_a_def del: contact_exec.simps)
  ultimately show ?thesis
    using a_names_commit [OF inv assms(4)] assms(4) b'(2,3) a'(2,3) by (simp add: at_a_def at_b_def)
qed

lemmas system_defs = at_a_def at_b_def receive_a_def receive_b_def receive_challenge_def receive_commit_def
  refs_of_def quiet_def mcl_contact_challenge_repeat_def mcl_contact_commit_repeat_def

lemma sample_run: "\<exists>y'. run_calls migration_exec sample_events sample_pair = Some y'
    \<and> contact_state (peer_a y') = 6 \<and> contact_state (peer_b y') = 1 \<and> contact_active_transport (peer_b y') = 2"
  by (simp add: sample_events_def sample_pair_def sample_agreed_def sample_committing_def contact_start_def
      system_defs accept_bodies contact_defs contact_helpers Let_def del: One_nat_def)

lemma migration_commit_completes_witness:
  "\<exists>y' z. run_calls migration_exec sample_events sample_pair = Some y'
    \<and> run_calls migration_exec
      [Resend_Commit, Deliver_To_B (length (sent_by_a y')), Deliver_To_A (length (sent_by_b y'))] y' = Some z
    \<and> contact_active_transport (peer_a z) = offer_transport sample_offer"
proof -
  obtain y' where y': "run_calls migration_exec sample_events sample_pair = Some y'" "contact_state (peer_a y') = 6"
      "contact_state (peer_b y') = 5 \<or> contact_state (peer_b y') = 1 \<and> contact_active_transport (peer_b y') \<noteq> 1"
    using sample_run by force
  from migration_commit_completes [OF sample_pair_agreed sample_events_legal y'] y'(1) show ?thesis by blast
qed

subsection \<open>Why the reference has to be fresh\<close>

text \<open>The contact accepts an offer whose reference is that of the migration it has just completed, and
  then the two peers can part: after a first migration to the medium 2 both agree on a second one
  to the medium 3 under the same reference; B gives it up, still answers the commit as a repeat of
  the first one, and A takes that answer for the confirmation of the second. Both are at rest, A on
  the medium 3 and B on the medium 2.\<close>

lemma reused_reference_splits:
  "\<exists>a b y'. run_calls contact_exec (sample_switch @ [Record_Offer 9 3 1 0 0, Agree 9 3 1 7]) (contact_start 0 3 1) = Some a
    \<and> run_calls contact_exec (sample_switch @ [Record_Offer 9 3 1 0 0, Agree 9 3 1 7]) (contact_start 1 5 1) = Some b
    \<and> run_calls migration_exec
        [Start_Validation [1, 2, 3, 4, 5, 6, 7, 8], Deliver_To_B 0, Deliver_To_A 0, Abandon_B, Send_Commit,
         Deliver_To_B 1, Deliver_To_A 1]
        \<lparr>peer_a = a, peer_b = b, sent_by_a = [], sent_by_b = []\<rparr> = Some y'
    \<and> contact_state (peer_a y') = MCL_CONTACT_STATE_ACTIVE \<and> contact_active_transport (peer_a y') = 3
    \<and> contact_state (peer_b y') = MCL_CONTACT_STATE_ACTIVE \<and> contact_active_transport (peer_b y') = 2"
  by (simp add: sample_switch_def contact_start_def system_defs accept_bodies contact_defs contact_helpers
      Let_def del: One_nat_def)

end
