(* ===== verification/Mcl_Offers.thy ===== *)
theory Mcl_Offers
  imports Mcl_Migration
begin

text \<open>
  Two contacts that exchange offers and acceptances of a change of medium, until both have agreed and
  \<open>Mcl_Migration\<close> can begin. \<open>TRANSPORT_OFFER\<close> and \<open>TRANSPORT_ACCEPT\<close> are encoded by another
  library, so a message is a value here; the offer travels with the \<open>source_ref\<close> of its frame. What
  a peer does with them follows \<open>contact.h\<close>: an offer is recorded by the peer that makes it and by
  the peer that receives it, simultaneous offers go to \<open>mcl_contact_resolve_offer_collision\<close>, and both
  peers call \<open>mcl_contact_agree\<close>. A message can be delivered at any later time, in any order,
  any number of times or never, and either peer can give up its migration or close its contact.

  Every operation of a peer refines the step relation \<open>peer_move\<close> on abstract contacts, and the
  invariants are proved of the relation.
\<close>

section \<open>One peer\<close>

text \<open>The contact, and whether the pending offer is the peer's own; \<open>contact.c\<close> leaves it to the caller to
  remember that.\<close>

record offer_peer =
  held_contact :: mcl_contact
  offer_own :: bool

datatype offer_message =
    Transport_Offer u32 offer
  | Transport_Accept u32 byte byte u32

type_synonym offer_result = "(mcl_link_status \<times> offer_peer \<times> offer_message list) option"

abbreviation record_call :: "offer \<Rightarrow> contact_call" where
  "record_call w \<equiv> Record_Offer (offer_ref w) (offer_transport w) (offer_profile w) (offer_token w) (offer_validity w)"

text \<open>Make a call; if it is accepted, keep the contact and send the messages.\<close>

definition calling :: "contact_call \<Rightarrow> (mcl_contact \<Rightarrow> offer_peer) \<Rightarrow> offer_message list \<Rightarrow> offer_peer \<Rightarrow> offer_result" where
  "calling call next_peer msgs p = do {
     (st, c) \<leftarrow> contact_exec call (held_contact p);
     Some (if st = MCL_LINK_OK then (st, next_peer c, msgs) else (st, p, [])) }"

definition make_offer :: "offer \<Rightarrow> offer_peer \<Rightarrow> offer_result" where
  "make_offer w p =
    (if contact_state (held_contact p) \<noteq> MCL_CONTACT_STATE_ACTIVE then Some (MCL_LINK_ERR_INVALID_STATE, p, [])
     else calling (record_call w) (\<lambda>c. \<lparr>held_contact = c, offer_own = True\<rparr>)
       [Transport_Offer (contact_local_ref (held_contact p)) w] p)"

definition receive_offer :: "u32 \<Rightarrow> offer \<Rightarrow> offer_peer \<Rightarrow> offer_result" where
  "receive_offer source w p =
    (if contact_state (held_contact p) = MCL_CONTACT_STATE_OFFERED \<and> offer_own p
     then do {
       (st, c, result) \<leftarrow> mcl_contact_resolve_offer_collision (Some (held_contact p)) source (offer_ref w)
         (offer_transport w) (offer_profile w) (offer_token w) (offer_validity w) (Some MCL_CONTACT_COLLISION_LOCAL_WINS);
       c \<leftarrow> c;
       Some (st, \<lparr>held_contact = c, offer_own = (result = Some MCL_CONTACT_COLLISION_LOCAL_WINS)\<rparr>, []) }
     else calling (record_call w) (\<lambda>c. \<lparr>held_contact = c, offer_own = False\<rparr>) [] p)"

text \<open>The peer that has received an offer accepts it and chooses the session reference.\<close>

definition accept_offer :: "u32 \<Rightarrow> offer_peer \<Rightarrow> offer_result" where
  "accept_offer s p = (let c = held_contact p in
     if contact_state c \<noteq> MCL_CONTACT_STATE_OFFERED \<or> offer_own p then Some (MCL_LINK_ERR_INVALID_STATE, p, [])
     else calling (Agree (contact_pending_migration_ref c) (contact_pending_transport c) (contact_pending_profile c) s)
       (\<lambda>c. p\<lparr>held_contact := c\<rparr>)
       [Transport_Accept (contact_pending_migration_ref c) (contact_pending_transport c) (contact_pending_profile c) s] p)"

fun receive_message :: "offer_message \<Rightarrow> offer_peer \<Rightarrow> offer_result" where
  "receive_message (Transport_Offer source w) p = receive_offer source w p"
| "receive_message (Transport_Accept m t f s) p = calling (Agree m t f s) (\<lambda>c. p\<lparr>held_contact := c\<rparr>) [] p"

definition give_up :: "offer_peer \<Rightarrow> offer_result" where
  "give_up p = calling Abandon_Migration (\<lambda>c. p\<lparr>held_contact := c\<rparr>) [] p"

definition close_peer :: "offer_peer \<Rightarrow> offer_result" where
  "close_peer p = calling Close_Contact (\<lambda>c. p\<lparr>held_contact := c\<rparr>) [] p"

section \<open>The system\<close>

record offer_system =
  offer_peers :: "side \<Rightarrow> offer_peer"
  messages :: "side \<Rightarrow> offer_message list"

datatype offer_event =
    Make_Offer side offer
  | Accept_Offer side u32
  | Deliver_Message side nat
  | Give_Up side
  | Close_Peer side

definition at_peer :: "side \<Rightarrow> (offer_peer \<Rightarrow> offer_result) \<Rightarrow> offer_system \<Rightarrow> (mcl_link_status \<times> offer_system) option" where
  "at_peer x f y = do {
     (st, p, msgs) \<leftarrow> f (offer_peers y x);
     Some (st, y\<lparr>offer_peers := (offer_peers y)(x := p), messages := (messages y)(x := messages y x @ msgs)\<rparr>) }"

fun offers_exec :: "(offer_event, offer_system) call_exec" where
  "offers_exec (Make_Offer x w) y = at_peer x (make_offer w) y"
| "offers_exec (Accept_Offer x s) y = at_peer x (accept_offer s) y"
| "offers_exec (Deliver_Message x i) y =
    (if i < length (messages y x) then at_peer (opposite x) (receive_message (messages y x ! i)) y
     else Some (MCL_LINK_ERR_INVALID_ARGUMENT, y))"
| "offers_exec (Give_Up x) y = at_peer x give_up y"
| "offers_exec (Close_Peer x) y = at_peer x close_peer y"

text \<open>
  References tell the offers apart: \<open>book\<close> says who makes the offer with a reference and what it is, so
  the two peers use different references, and none for two different offers.
\<close>

type_synonym offer_book = "u32 \<Rightarrow> (side \<times> offer) option"

fun offers_legal :: "offer_book \<Rightarrow> offer_event \<Rightarrow> bool" where
  "offers_legal book (Make_Offer x w) \<longleftrightarrow> book (offer_ref w) = Some (x, w)"
| "offers_legal book _ \<longleftrightarrow> True"

fun gives_up :: "offer_event \<Rightarrow> bool" where
  "gives_up (Give_Up x) \<longleftrightarrow> True"
| "gives_up _ \<longleftrightarrow> False"

section \<open>What a peer can do, abstractly\<close>

text \<open>
  The peer may make the offers in \<open>mine\<close>, the messages in \<open>heard\<close> may reach it, and \<open>quits\<close> says
  whether it may give up. A step takes the abstract contact and the mark \<open>own\<close> to new ones and
  sends messages.
\<close>

inductive peer_move :: "(offer \<Rightarrow> bool) \<Rightarrow> offer_message set \<Rightarrow> bool \<Rightarrow> contact_spec \<Rightarrow> bool
    \<Rightarrow> contact_spec \<Rightarrow> bool \<Rightarrow> offer_message list \<Rightarrow> bool"
  for mine heard quits a own where
  stay: "peer_move mine heard quits a own a own []"
| make: "spec_phase a = Settled \<Longrightarrow> mine w \<Longrightarrow> offer_named w \<Longrightarrow> offer_transport w \<noteq> spec_transport a
    \<Longrightarrow> peer_move mine heard quits a own (a\<lparr>spec_phase := Offered w\<rparr>) True [Transport_Offer (spec_local a) w]"
| hear: "spec_phase a = Settled \<Longrightarrow> Transport_Offer source w \<in> heard \<Longrightarrow> offer_named w
    \<Longrightarrow> peer_move mine heard quits a own (a\<lparr>spec_phase := Offered w\<rparr>) False []"
| yield: "spec_phase a = Offered v \<Longrightarrow> own \<Longrightarrow> Transport_Offer source w \<in> heard \<Longrightarrow> offer_named w
    \<Longrightarrow> Offer_Key (spec_local a) (offer_ref v) < Offer_Key source (offer_ref w)
    \<Longrightarrow> peer_move mine heard quits a own (a\<lparr>spec_phase := Offered w\<rparr>) False []"
| tie: "spec_phase a = Offered v \<Longrightarrow> own \<Longrightarrow> Transport_Offer source w \<in> heard
    \<Longrightarrow> offer_ref w = offer_ref v \<Longrightarrow> peer_move mine heard quits a own (a\<lparr>spec_phase := Settled\<rparr>) False []"
| accept: "spec_phase a = Offered w \<Longrightarrow> \<not> own \<Longrightarrow> s \<noteq> 0 \<Longrightarrow> spec_session a \<in> {None, Some s}
    \<Longrightarrow> peer_move mine heard quits a own (a\<lparr>spec_session := Some s, spec_phase := Agreed w\<rparr>) own
      [Transport_Accept (offer_ref w) (offer_transport w) (offer_profile w) s]"
| settle: "spec_phase a = Offered w \<Longrightarrow> s \<noteq> 0 \<Longrightarrow> spec_session a \<in> {None, Some s}
    \<Longrightarrow> Transport_Accept (offer_ref w) (offer_transport w) (offer_profile w) s \<in> heard
    \<Longrightarrow> peer_move mine heard quits a own (a\<lparr>spec_session := Some s, spec_phase := Agreed w\<rparr>) own []"
| quit: "quits \<Longrightarrow> spec_phase a \<noteq> Closed \<Longrightarrow> (\<And>w ch. spec_phase a \<noteq> Committing w ch)
    \<Longrightarrow> peer_move mine heard quits a own (a\<lparr>spec_phase := Settled\<rparr>) own []"
| close: "peer_move mine heard quits a own (a\<lparr>spec_session := None, spec_phase := Closed\<rparr>) own []"

abbreviation contact_view :: "offer_peer \<Rightarrow> contact_spec" where
  "contact_view p \<equiv> contact_abs (held_contact p)"

definition moves_well :: "(offer \<Rightarrow> bool) \<Rightarrow> offer_message set \<Rightarrow> bool \<Rightarrow> offer_peer \<Rightarrow> offer_result \<Rightarrow> bool" where
  "moves_well mine heard quits p r \<longleftrightarrow> (\<exists>st p' msgs. r = Some (st, p', msgs) \<and> contact_inv (held_contact p')
     \<and> peer_move mine heard quits (contact_view p) (offer_own p) (contact_view p') (offer_own p') msgs
     \<and> (st \<noteq> MCL_LINK_OK \<longrightarrow> p' = p \<and> msgs = []))"

lemma refusal_moves: "contact_inv (held_contact p) \<Longrightarrow> st \<noteq> MCL_LINK_OK \<Longrightarrow> moves_well mine heard quits p (Some (st, p, []))"
  by (simp add: moves_well_def peer_move.stay)

lemma calling_moves:
  assumes inv: "contact_inv (held_contact p)" and legal: "contact_legal call"
    and next_peer: "\<And>c. held_contact (next_peer c) = c \<and> offer_own (next_peer c) = own'"
    and move: "\<And>x. contact_spec_exec call (contact_view p) = (MCL_LINK_OK, x)
      \<Longrightarrow> peer_move mine heard quits (contact_view p) (offer_own p) x own' msgs"
  shows "moves_well mine heard quits p (calling call next_peer msgs p)"
proof -
  obtain st x where spec: "contact_spec_exec call (contact_view p) = (st, x)" by fastforce
  obtain c' where c': "contact_exec call (held_contact p) = Some (st, c')" "contact_inv c'" "contact_abs c' = x"
    using contact_does [OF inv legal spec] by blast
  show ?thesis
  proof (cases "st = MCL_LINK_OK")
    case True
    then show ?thesis
      using c' move [of x] spec next_peer [of c'] by (simp add: calling_def moves_well_def del: contact_exec.simps)
  next
    case False
    then show ?thesis using c'(1) refusal_moves [OF inv False] by (simp add: calling_def del: contact_exec.simps)
  qed
qed

lemma settled_view: "contact_inv c \<Longrightarrow> spec_phase (contact_abs c) = Settled \<longleftrightarrow> contact_state c = 1"
  by (simp add: phase_settled)

lemma phase_offered: "contact_inv c \<Longrightarrow> spec_phase (contact_abs c) = Offered w \<longleftrightarrow> contact_state c = 2 \<and> w = pending_offer c"
  by (cases rule: state_cases) (auto simp: phase_state)

lemma offer_eta: "\<lparr>offer_ref = offer_ref w, offer_transport = offer_transport w, offer_profile = offer_profile w,
    offer_token = offer_token w, offer_validity = offer_validity w\<rparr> = w"
  by (cases w) simp

text \<open>Recording an offer: a repeat changes nothing, and only a settled contact takes a new one.\<close>

lemma record_spec:
  "contact_spec_exec (record_call w) a = (MCL_LINK_OK, x) \<longleftrightarrow> offer_named w
    \<and> (spec_phase a = Offered w \<and> x = a
       \<or> spec_phase a = Settled \<and> offer_transport w \<noteq> spec_transport a \<and> x = a\<lparr>spec_phase := Offered w\<rparr>)"
  by (auto simp: offer_eta spec_offer_def split: phase.splits if_splits)

lemma make_offer_moves:
  assumes "contact_inv (held_contact p)" "mine w"
  shows "moves_well mine heard quits p (make_offer w p)"
proof (cases "contact_state (held_contact p) = 1")
  case True
  then have a: "spec_phase (contact_view p) = Settled" using settled_view [OF assms(1)] by simp
  have "moves_well mine heard quits p (calling (record_call w) (\<lambda>c. \<lparr>held_contact = c, offer_own = True\<rparr>)
      [Transport_Offer (contact_local_ref (held_contact p)) w] p)"
    by (rule calling_moves [OF assms(1), where own' = True])
      (use a assms(2) peer_move.make [of "contact_view p" mine w] in
        \<open>auto simp: record_spec simp del: contact_spec_exec.simps\<close>)
  then show ?thesis using True by (simp add: make_offer_def)
next
  case False
  then show ?thesis by (simp add: make_offer_def refusal_moves [OF assms(1)])
qed

lemma agree_moves:
  assumes "contact_spec_exec (Agree m t f s) a = (MCL_LINK_OK, x)" "Transport_Accept m t f s \<in> heard"
  shows "peer_move mine heard quits a own x own []"
  using assms unfolding agree_spec by (auto intro: peer_move.stay peer_move.settle)

lemma receive_accept_moves:
  assumes "contact_inv (held_contact p)" "Transport_Accept m t f s \<in> heard"
  shows "moves_well mine heard quits p (receive_message (Transport_Accept m t f s) p)"
  unfolding receive_message.simps
  by (rule calling_moves [OF assms(1), where own' = "offer_own p"])
    (use agree_moves [OF _ assms(2)] in \<open>auto simp del: contact_spec_exec.simps\<close>)

lemma accept_offer_moves:
  assumes "contact_inv (held_contact p)"
  shows "moves_well mine heard quits p (accept_offer s p)"
proof (cases "contact_state (held_contact p) = 2 \<and> \<not> offer_own p")
  case True
  let ?w = "pending_offer (held_contact p)"
  have a: "spec_phase (contact_view p) = Offered ?w" using True phase_offered [OF assms] by simp
  have "moves_well mine heard quits p (calling (Agree (offer_ref ?w) (offer_transport ?w) (offer_profile ?w) s)
      (\<lambda>c. p\<lparr>held_contact := c\<rparr>) [Transport_Accept (offer_ref ?w) (offer_transport ?w) (offer_profile ?w) s] p)"
    by (rule calling_moves [OF assms, where own' = "offer_own p"])
      (use a True peer_move.accept [OF a] in \<open>auto simp: agree_spec simp del: contact_spec_exec.simps\<close>)
  then show ?thesis using True by (simp add: accept_offer_def pending_offer_def Let_def)
next
  case False
  then show ?thesis by (auto simp: accept_offer_def Let_def refusal_moves [OF assms])
qed

lemma abandon_moves:
  "contact_spec_exec Abandon_Migration a = (MCL_LINK_OK, x) \<Longrightarrow> quits \<Longrightarrow> peer_move mine heard quits a own x own []"
  using peer_move.quit [of quits a] by (auto simp: spec_abandon_def split: phase.splits)

lemma leave_moves:
  assumes "contact_inv (held_contact p)"
  shows "quits \<Longrightarrow> moves_well mine heard quits p (give_up p)"
    "moves_well mine heard quits p (close_peer p)"
  unfolding give_up_def close_peer_def
  by (rule calling_moves [OF assms, where own' = "offer_own p"];
      use abandon_moves in \<open>auto simp: spec_close_def peer_move.close simp del: contact_spec_exec.simps(10)\<close>)+

text \<open>Simultaneous offers: the outcome tells whose offer is pending afterwards.\<close>

lemma collision_outcome:
  assumes "length (contact_challenge c) = 8" "contact_state c = 2"
  shows "\<exists>st c'. mcl_contact_resolve_offer_collision (Some c) source m t f k v (Some 0)
    = Some (st, Some c', Some (if st \<noteq> MCL_LINK_OK \<or> Offer_Key source m < offer_key_of c then 0
        else if Offer_Key source m = offer_key_of c then 2 else 1))"
proof -
  let ?r = "contact_local_ref c" and ?n = "contact_pending_migration_ref c"
  consider (less) "source < ?r" "\<not> ?r < source" "source \<noteq> ?r" | (greater) "?r < source" "\<not> source < ?r" "source \<noteq> ?r"
    | (low) "source = ?r" "m < ?n" "\<not> ?n < m" "m \<noteq> ?n" | (high) "source = ?r" "?n < m" "\<not> m < ?n" "m \<noteq> ?n"
    | (tie) "source = ?r" "m = ?n"
    by (metis less_asym' linorder_less_linear order_less_irrefl)
  then show ?thesis using assms
    by cases (simp_all add: mcl_contact_resolve_offer_collision_def contact_helpers Let_def offer_key_of_def Offer_Key_less)
qed

lemma collision_result:
  assumes "contact_inv c" "contact_state c = 2"
  obtains st c' where
    "mcl_contact_resolve_offer_collision (Some c) source (offer_ref w) (offer_transport w) (offer_profile w)
      (offer_token w) (offer_validity w) (Some 0)
      = Some (st, Some c', Some (if st \<noteq> MCL_LINK_OK \<or> Offer_Key source (offer_ref w) < offer_key_of c then 0
        else if Offer_Key source (offer_ref w) = offer_key_of c then 2 else 1))"
    "contact_inv c'" "spec_collide source w (contact_abs c) = (st, contact_abs c')" "st \<noteq> MCL_LINK_OK \<Longrightarrow> c' = c"
proof -
  let ?call = "Resolve_Collision source (offer_ref w) (offer_transport w) (offer_profile w) (offer_token w) (offer_validity w)"
  from collision_outcome [OF inv_length [OF assms(1)] assms(2)] obtain st c' where
    r: "mcl_contact_resolve_offer_collision (Some c) source (offer_ref w) (offer_transport w) (offer_profile w)
      (offer_token w) (offer_validity w) (Some 0)
      = Some (st, Some c', Some (if st \<noteq> MCL_LINK_OK \<or> Offer_Key source (offer_ref w) < offer_key_of c then 0
        else if Offer_Key source (offer_ref w) = offer_key_of c then 2 else 1))" by blast
  then have e: "contact_exec ?call c = Some (st, c')" by simp
  have "spec_collide source w (contact_abs c) = (st, contact_abs c')"
    using contact_refines [OF assms(1) _ e] by (simp add: offer_eta)
  then show thesis
    using that [OF r] contact.exec_inv [OF assms(1) _ e] contact.exec_refused [OF assms(1) _ e] by simp
qed

lemma collide_spec:
  assumes "spec_phase a = Offered v" "spec_collide source w a = (st, x)"
    and "st = MCL_LINK_OK"
  defines "ours \<equiv> Offer_Key (spec_local a) (offer_ref v)" and "theirs \<equiv> Offer_Key source (offer_ref w)"
  shows "theirs < ours \<and> x = a \<or> theirs = ours \<and> x = a\<lparr>spec_phase := Settled\<rparr>
    \<or> ours < theirs \<and> x = a\<lparr>spec_phase := Offered w\<rparr> \<and> offer_named w"
  using assms less_asym [of theirs ours] by (auto simp: spec_collide_def Let_def split: if_splits)

lemma collide_moves:
  assumes "spec_phase a = Offered v" "own" "Transport_Offer source w \<in> heard"
    and "spec_collide source w a = (MCL_LINK_OK, x)"
  shows "peer_move mine heard quits a own x
    (Offer_Key source (offer_ref w) < Offer_Key (spec_local a) (offer_ref v)) []"
  using collide_spec [OF assms(1,4) refl]
proof (elim disjE conjE)
  assume "Offer_Key source (offer_ref w) = Offer_Key (spec_local a) (offer_ref v)" "x = a\<lparr>spec_phase := Settled\<rparr>"
  then show ?thesis using peer_move.tie [OF assms(1-3)] by simp
next
  assume k: "Offer_Key (spec_local a) (offer_ref v) < Offer_Key source (offer_ref w)" "x = a\<lparr>spec_phase := Offered w\<rparr>" "offer_named w"
  then have "\<not> Offer_Key source (offer_ref w) < Offer_Key (spec_local a) (offer_ref v)" by simp
  then show ?thesis using peer_move.yield [OF assms(1-3) k(3,1)] k(2) by simp
qed (use assms(2) in \<open>simp add: peer_move.stay\<close>)

lemma receive_offer_moves:
  assumes inv: "contact_inv (held_contact p)" and heard: "Transport_Offer source w \<in> heard"
  shows "moves_well mine heard quits p (receive_offer source w p)"
proof (cases "contact_state (held_contact p) = 2 \<and> offer_own p")
  case True
  let ?c = "held_contact p"
  let ?wins = "Offer_Key source (offer_ref w) < offer_key_of ?c"
  have a: "spec_phase (contact_view p) = Offered (pending_offer ?c)" and own: "offer_own p"
    using True phase_offered [OF inv] by simp_all
  have k: "offer_key_of ?c = Offer_Key (spec_local (contact_view p)) (offer_ref (pending_offer ?c))"
    by (simp add: offer_key_of_def pending_offer_def)
  obtain st c' where r: "mcl_contact_resolve_offer_collision (Some ?c) source (offer_ref w) (offer_transport w)
      (offer_profile w) (offer_token w) (offer_validity w) (Some 0)
      = Some (st, Some c', Some (if st \<noteq> MCL_LINK_OK \<or> ?wins then 0 else if Offer_Key source (offer_ref w) = offer_key_of ?c then 2 else 1))"
    "contact_inv c'" "spec_collide source w (contact_view p) = (st, contact_abs c')" "st \<noteq> MCL_LINK_OK \<Longrightarrow> c' = ?c"
    using collision_result [OF inv] True by metis
  have e: "receive_offer source w p = Some (st, \<lparr>held_contact = c', offer_own = (st \<noteq> MCL_LINK_OK \<or> ?wins)\<rparr>, [])"
    using True r(1) by (simp add: receive_offer_def)
  show ?thesis
  proof (cases "st = MCL_LINK_OK")
    case True
    have "peer_move mine heard quits (contact_view p) (offer_own p) (contact_abs c') ?wins []"
      using collide_moves [OF a own heard, of "contact_abs c'"] r(3) True unfolding k own by simp
    then show ?thesis using e r(2) True by (simp add: moves_well_def)
  next
    case False
    then have "receive_offer source w p = Some (st, p, [])" using e r(4) own by simp
    then show ?thesis using refusal_moves [OF inv False] by simp
  qed
next
  case False
  have "moves_well mine heard quits p (calling (record_call w) (\<lambda>c. \<lparr>held_contact = c, offer_own = False\<rparr>) [] p)"
  proof (rule calling_moves [OF inv, where own' = False])
    fix x assume "contact_spec_exec (record_call w) (contact_view p) = (MCL_LINK_OK, x)"
    then show "peer_move mine heard quits (contact_view p) (offer_own p) x False []"
      using False peer_move.stay [of mine heard quits "contact_view p" False] peer_move.hear [OF _ heard]
      unfolding record_spec phase_offered [OF inv] by auto
  qed simp_all
  then show ?thesis using False by (auto simp: receive_offer_def)
qed

lemma receive_moves:
  "contact_inv (held_contact p) \<Longrightarrow> msg \<in> heard \<Longrightarrow> moves_well mine heard quits p (receive_message msg p)"
  using receive_offer_moves receive_accept_moves by (cases msg) (simp_all del: receive_message.simps(2))

section \<open>Steps of the system\<close>

abbreviation view_of :: "offer_system \<Rightarrow> side \<Rightarrow> contact_spec" where
  "view_of y x \<equiv> contact_view (offer_peers y x)"

abbreviation owns :: "offer_system \<Rightarrow> side \<Rightarrow> bool" where
  "owns y x \<equiv> offer_own (offer_peers y x)"

definition contacts_ok :: "offer_system \<Rightarrow> bool" where
  "contacts_ok y \<longleftrightarrow> (\<forall>x. contact_inv (held_contact (offer_peers y x)))"

text \<open>One peer moves; the other, and what it has sent, stay.\<close>

definition system_move :: "offer_book \<Rightarrow> bool \<Rightarrow> side \<Rightarrow> offer_message list \<Rightarrow> offer_system \<Rightarrow> offer_system \<Rightarrow> bool" where
  "system_move book quits x msgs y z \<longleftrightarrow>
     peer_move (\<lambda>w. book (offer_ref w) = Some (x, w)) (set (messages y (opposite x))) quits
       (view_of y x) (owns y x) (view_of z x) (owns z x) msgs
     \<and> offer_peers z (opposite x) = offer_peers y (opposite x)
     \<and> messages z x = messages y x @ msgs \<and> messages z (opposite x) = messages y (opposite x)"

lemma at_peer_moves:
  assumes ok: "contacts_ok y"
    and "moves_well (\<lambda>w. book (offer_ref w) = Some (x, w)) (set (messages y (opposite x))) quits (offer_peers y x) (f (offer_peers y x))"
  shows "\<exists>st z msgs. at_peer x f y = Some (st, z) \<and> contacts_ok z \<and> system_move book quits x msgs y z
    \<and> (st \<noteq> MCL_LINK_OK \<longrightarrow> z = y)"
proof -
  obtain st p' msgs where r: "f (offer_peers y x) = Some (st, p', msgs)" "contact_inv (held_contact p')"
    "peer_move (\<lambda>w. book (offer_ref w) = Some (x, w)) (set (messages y (opposite x))) quits
      (contact_view (offer_peers y x)) (owns y x) (contact_view p') (offer_own p') msgs"
    "st \<noteq> MCL_LINK_OK \<Longrightarrow> p' = offer_peers y x \<and> msgs = []"
    using assms(2) by (auto simp: moves_well_def)
  let ?z = "y\<lparr>offer_peers := (offer_peers y)(x := p'), messages := (messages y)(x := messages y x @ msgs)\<rparr>"
  have "at_peer x f y = Some (st, ?z)" using r(1) by (simp add: at_peer_def)
  moreover have "contacts_ok ?z" using ok r(2) by (simp add: contacts_ok_def)
  moreover have "system_move book quits x msgs y ?z" using r(3) by (simp add: system_move_def)
  moreover have "?z = y" if "st \<noteq> MCL_LINK_OK" using r(4) [OF that] by simp
  ultimately show ?thesis by blast
qed

lemma offers_move:
  assumes ok: "contacts_ok y" and legal: "offers_legal book e"
  shows "\<exists>st z x msgs. offers_exec e y = Some (st, z) \<and> contacts_ok z \<and> system_move book (gives_up e) x msgs y z
    \<and> (st \<noteq> MCL_LINK_OK \<longrightarrow> z = y)"
proof -
  have inv: "contact_inv (held_contact (offer_peers y x))" for x using ok by (simp add: contacts_ok_def)
  note step = at_peer_moves [OF ok, where book = book and quits = "gives_up e"]
  show ?thesis
  proof (cases e)
    case (Make_Offer x w)
    then show ?thesis using step [where f = "make_offer w", OF make_offer_moves [OF inv]] legal by fastforce
  next
    case (Accept_Offer x s)
    then show ?thesis using step [where f = "accept_offer s", OF accept_offer_moves [OF inv]] by fastforce
  next
    case (Deliver_Message x i)
    show ?thesis
    proof (cases "i < length (messages y x)")
      case True
      then have "messages y x ! i \<in> set (messages y (opposite (opposite x)))" by simp
    from step [where f = "receive_message (messages y x ! i)", OF receive_moves [OF inv this]] show ?thesis using Deliver_Message True by fastforce
    next
      case False
      then show ?thesis
        using Deliver_Message ok peer_move.stay by (fastforce simp: system_move_def)
    qed
  next
    case (Give_Up x)
    then show ?thesis using step [where f = give_up, OF leave_moves(1) [OF inv]] by fastforce
  next
    case (Close_Peer x)
    then show ?thesis using step [where f = close_peer, OF leave_moves(2) [OF inv]] by fastforce
  qed
qed

section \<open>The invariants\<close>

abbreviation acceptance :: "offer \<Rightarrow> u32 \<Rightarrow> offer_message" where
  "acceptance w s \<equiv> Transport_Accept (offer_ref w) (offer_transport w) (offer_profile w) s"

text \<open>
  The contact of \<open>x\<close>, who has sent \<open>S\<close> and to whom \<open>R\<close> has been sent: it is on the medium \<open>t0\<close>, its
  pending offer is the one in the book, and it has agreed only on what one peer has accepted.
\<close>

definition phase_ok :: "offer_book \<Rightarrow> byte \<Rightarrow> side \<Rightarrow> contact_spec \<Rightarrow> bool \<Rightarrow> offer_message set \<Rightarrow> offer_message set \<Rightarrow> bool" where
  "phase_ok book t0 x a own S R \<longleftrightarrow>
     spec_transport a = t0 \<and> (\<forall>m. spec_completed a = Some m \<longrightarrow> book m = None)
     \<and> (case spec_phase a of
       Settled \<Rightarrow> True
     | Closed \<Rightarrow> True
     | Offered w \<Rightarrow> book (offer_ref w) = Some (if own then x else opposite x, w)
     | Agreed w \<Rightarrow> book (offer_ref w) = Some (if own then x else opposite x, w)
         \<and> (\<exists>s. spec_session a = Some s \<and> acceptance w s \<in> (if own then R else S))
     | _ \<Rightarrow> False)"

text \<open>What \<open>x\<close> has sent: its own offers, and acceptances of the other's, all with its session reference.\<close>

definition sent_ok :: "offer_book \<Rightarrow> byte \<Rightarrow> side \<Rightarrow> contact_spec \<Rightarrow> offer_message set \<Rightarrow> bool" where
  "sent_ok book t0 x a S \<longleftrightarrow> (\<forall>msg \<in> S. case msg of
     Transport_Offer source w \<Rightarrow> book (offer_ref w) = Some (x, w) \<and> offer_named w \<and> offer_transport w \<noteq> t0
   | Transport_Accept m t f s \<Rightarrow> (\<exists>w. book (offer_ref w) = Some (opposite x, w) \<and> msg = acceptance w s)
       \<and> (spec_phase a = Closed \<or> spec_session a = Some s))"

definition offers_inv :: "offer_book \<Rightarrow> byte \<Rightarrow> offer_system \<Rightarrow> bool" where
  "offers_inv book t0 y \<longleftrightarrow> contacts_ok y \<and> (\<forall>x. sent_ok book t0 x (view_of y x) (set (messages y x))
     \<and> phase_ok book t0 x (view_of y x) (owns y x) (set (messages y x)) (set (messages y (opposite x))))"

text \<open>
  As long as nobody gives up, a peer sends at most one offer, and one whose own offer has been
  overruled is left with an offer of a greater key. \<open>k\<close> is the session reference from before.
\<close>

definition below :: "offer_message set \<Rightarrow> offer_key \<Rightarrow> bool" where
  "below S key \<longleftrightarrow> (\<forall>source w. Transport_Offer source w \<in> S \<longrightarrow> Offer_Key source (offer_ref w) < key)"

definition overruled :: "offer \<Rightarrow> offer_message set \<Rightarrow> offer_message set \<Rightarrow> bool" where
  "overruled w S R \<longleftrightarrow> (\<exists>source. Transport_Offer source w \<in> R \<and> below S (Offer_Key source (offer_ref w)))"

definition calm_side :: "u32 option \<Rightarrow> contact_spec \<Rightarrow> bool \<Rightarrow> offer_message set \<Rightarrow> offer_message set \<Rightarrow> bool" where
  "calm_side k a own S R \<longleftrightarrow> (case spec_phase a of
     Settled \<Rightarrow> S = {} \<and> spec_session a = k
   | Offered w \<Rightarrow> spec_session a = k \<and> (\<forall>m t f s. Transport_Accept m t f s \<notin> S)
       \<and> (if own then S = {Transport_Offer (spec_local a) w} else overruled w S R)
   | Agreed w \<Rightarrow> (k = None \<or> spec_session a = k)
       \<and> (if own then S = {Transport_Offer (spec_local a) w}
          else overruled w S R \<and> (\<forall>m t f s. Transport_Accept m t f s \<in> S \<longrightarrow> m = offer_ref w))
   | _ \<Rightarrow> True)"

definition calm_inv :: "(side \<Rightarrow> u32 option) \<Rightarrow> offer_system \<Rightarrow> bool" where
  "calm_inv k y \<longleftrightarrow> (\<forall>x. calm_side (k x) (view_of y x) (owns y x) (set (messages y x)) (set (messages y (opposite x))))"

lemma overruled_mono: "overruled w S R \<Longrightarrow> R \<subseteq> R' \<Longrightarrow> overruled w S R'"
  by (auto simp: overruled_def)

lemma phase_ok_mono: "phase_ok book t0 x a own S R \<Longrightarrow> R \<subseteq> R' \<Longrightarrow> phase_ok book t0 x a own S R'"
  by (auto simp: phase_ok_def split: phase.splits if_splits)

lemma calm_side_mono: "calm_side k a own S R \<Longrightarrow> R \<subseteq> R' \<Longrightarrow> calm_side k a own S R'"
  by (auto simp: calm_side_def split: phase.splits if_splits intro: overruled_mono)

lemma sent_okD:
  assumes "sent_ok book t0 x a S"
  shows "Transport_Offer source w \<in> S \<Longrightarrow> book (offer_ref w) = Some (x, w) \<and> offer_named w \<and> offer_transport w \<noteq> t0"
    "Transport_Accept m t f s \<in> S \<Longrightarrow> (\<exists>w. book (offer_ref w) = Some (opposite x, w)
        \<and> m = offer_ref w \<and> t = offer_transport w \<and> f = offer_profile w)
      \<and> (spec_phase a = Closed \<or> spec_session a = Some s)"
  using assms by (force simp: sent_ok_def)+

lemma move_keeps_sent:
  assumes "peer_move (\<lambda>w. book (offer_ref w) = Some (x, w)) R quits a own a' own' msgs"
    and "phase_ok book t0 x a own S R" "sent_ok book t0 x a S"
  shows "sent_ok book t0 x a' (S \<union> set msgs)"
  using assms
  by (cases rule: peer_move.cases) (auto simp: sent_ok_def phase_ok_def split: offer_message.splits)

text \<open>What \<open>x\<close> hears: an offer is not its own, an acceptance is.\<close>

lemma heard_okD:
  assumes "sent_ok book t0 (opposite x) b R"
  shows "Transport_Offer source w \<in> R \<Longrightarrow> book (offer_ref w) = Some (opposite x, w)"
    "Transport_Offer source w \<in> R \<Longrightarrow> offer_ref w = offer_ref v \<Longrightarrow> book (offer_ref v) \<noteq> Some (x, u)"
    "acceptance w s \<in> R \<Longrightarrow> book (offer_ref w) \<noteq> Some (opposite x, u)"
  using sent_okD [OF assms] by fastforce+

lemma move_keeps_phase:
  assumes "peer_move (\<lambda>w. book (offer_ref w) = Some (x, w)) R quits a own a' own' msgs"
    and ok: "phase_ok book t0 x a own S R" and R: "sent_ok book t0 (opposite x) b R"
  shows "phase_ok book t0 x a' own' (S \<union> set msgs) R"
  using assms(1) ok heard_okD [OF R]
  by (cases rule: peer_move.cases) (auto simp: phase_ok_def split: phase.splits if_splits)

lemma move_keeps_calm:
  assumes "peer_move (\<lambda>w. book (offer_ref w) = Some (x, w)) R False a own a' own' msgs"
    and ok: "phase_ok book t0 x a own S R" and R: "sent_ok book t0 (opposite x) b R"
    and calm: "calm_side k a own S R"
  shows "calm_side k a' own' (S \<union> set msgs) R"
  using assms(1)
proof (cases rule: peer_move.cases)
  case (tie v source w)
  then show ?thesis using ok heard_okD(2) [OF R tie(6,7)] by (auto simp: phase_ok_def)
qed (use ok calm heard_okD [OF R] in
  \<open>auto simp: phase_ok_def calm_side_def overruled_def below_def split: phase.splits if_splits\<close>)

section \<open>Runs\<close>

lemma system_move_sets:
  assumes "system_move book quits x msgs y z"
  shows "set (messages z x) = set (messages y x) \<union> set msgs"
    "view_of z (opposite x) = view_of y (opposite x)" "owns z (opposite x) = owns y (opposite x)"
    "set (messages z (opposite x)) = set (messages y (opposite x))"
  using assms by (simp_all add: system_move_def)

text \<open>It is enough to look at the peer that moves and at the one that may hear it.\<close>

lemma side_pair: "P x \<Longrightarrow> P (opposite x) \<Longrightarrow> \<forall>z. P z"
  using side_cases by metis

lemma move_keeps_offers:
  assumes inv: "offers_inv book t0 y" and move: "system_move book quits x msgs y z" and ok: "contacts_ok z"
  shows "offers_inv book t0 z"
proof -
  note sets = system_move_sets [OF move]
  note move = move [unfolded system_move_def, THEN conjunct1]
  have i: "sent_ok book t0 u (view_of y u) (set (messages y u))"
    "phase_ok book t0 u (view_of y u) (owns y u) (set (messages y u)) (set (messages y (opposite u)))" for u
    using inv by (simp_all add: offers_inv_def)
  show ?thesis unfolding offers_inv_def
  proof (intro conjI side_pair [where x = x])
    show "sent_ok book t0 x (view_of z x) (set (messages z x))"
      unfolding sets using move_keeps_sent [OF move i(2,1)] .
    show "phase_ok book t0 x (view_of z x) (owns z x) (set (messages z x)) (set (messages z (opposite x)))"
      unfolding sets using move_keeps_phase [OF move i(2) i(1)] .
    show "sent_ok book t0 (opposite x) (view_of z (opposite x)) (set (messages z (opposite x)))"
      unfolding sets using i(1) .
    show "phase_ok book t0 (opposite x) (view_of z (opposite x)) (owns z (opposite x)) (set (messages z (opposite x)))
        (set (messages z (opposite (opposite x))))"
      unfolding sets opposite_simps using phase_ok_mono [OF i(2) [of "opposite x", unfolded opposite_simps]] by blast
  qed (rule ok)
qed

lemma move_keeps_calmness:
  assumes inv: "offers_inv book t0 y" and calm: "calm_inv k y" and move: "system_move book False x msgs y z"
  shows "calm_inv k z"
proof -
  note sets = system_move_sets [OF move]
  note move = move [unfolded system_move_def, THEN conjunct1]
  have i: "sent_ok book t0 u (view_of y u) (set (messages y u))"
    "phase_ok book t0 u (view_of y u) (owns y u) (set (messages y u)) (set (messages y (opposite u)))" for u
    using inv by (simp_all add: offers_inv_def)
  have c: "calm_side (k u) (view_of y u) (owns y u) (set (messages y u)) (set (messages y (opposite u)))" for u
    using calm by (simp add: calm_inv_def)
  show ?thesis unfolding calm_inv_def
  proof (rule side_pair [where x = x])
    show "calm_side (k x) (view_of z x) (owns z x) (set (messages z x)) (set (messages z (opposite x)))"
      unfolding sets using move_keeps_calm [OF move i(2) i(1) c] .
    show "calm_side (k (opposite x)) (view_of z (opposite x)) (owns z (opposite x)) (set (messages z (opposite x)))
        (set (messages z (opposite (opposite x))))"
      unfolding sets opposite_simps using calm_side_mono [OF c [of "opposite x", unfolded opposite_simps]] by blast
  qed
qed

text \<open>The exchange is a machine, and so is the exchange in which nobody gives up.\<close>

interpretation offers: call_machine offers_exec "offers_inv book t0" "offers_legal book"
proof
  fix y e st z
  assume inv: "offers_inv book t0 y" and legal: "offers_legal book e"
  then have ok: "contacts_ok y" by (simp add: offers_inv_def)
  obtain st' z' x msgs where m: "offers_exec e y = Some (st', z')" "contacts_ok z'"
    "system_move book (gives_up e) x msgs y z'" "st' \<noteq> MCL_LINK_OK \<longrightarrow> z' = y"
    using offers_move [OF ok legal] by blast
  then show "\<exists>st z. offers_exec e y = Some (st, z)" by blast
  assume "offers_exec e y = Some (st, z)"
  then have "st' = st" "z' = z" using m(1) by simp_all
  then show "offers_inv book t0 z" "st \<noteq> MCL_LINK_OK \<Longrightarrow> z = y"
    using move_keeps_offers [OF inv m(3,2)] m(4) by simp_all
qed

interpretation calm_offers: call_machine offers_exec "\<lambda>y. offers_inv book t0 y \<and> calm_inv k y"
  "\<lambda>e. offers_legal book e \<and> \<not> gives_up e"
proof
  fix y e st z
  assume inv: "offers_inv book t0 y \<and> calm_inv k y" and legal: "offers_legal book e \<and> \<not> gives_up e"
  then have ok: "contacts_ok y" by (simp add: offers_inv_def)
  obtain st' z' x msgs where m: "offers_exec e y = Some (st', z')" "contacts_ok z'"
    "system_move book (gives_up e) x msgs y z'" "st' \<noteq> MCL_LINK_OK \<longrightarrow> z' = y"
    using offers_move [OF ok] legal by blast
  then show "\<exists>st z. offers_exec e y = Some (st, z)" by blast
  assume "offers_exec e y = Some (st, z)"
  then have "st' = st" "z' = z" using m(1) by simp_all
  moreover have "system_move book False x msgs y z'" using m(3) legal by simp
  ultimately show "offers_inv book t0 z \<and> calm_inv k z" "st \<noteq> MCL_LINK_OK \<Longrightarrow> z = y"
    using move_keeps_offers [OF _ m(3,2)] move_keeps_calmness inv m(4) by blast+
qed

section \<open>Agreement\<close>

text \<open>
  The start: two settled contacts on the medium \<open>t0\<close>, nothing on the wire, and no reference in the
  book that a contact has used for its last migration.
\<close>

definition offers_start :: "offer_book \<Rightarrow> byte \<Rightarrow> offer_system \<Rightarrow> bool" where
  "offers_start book t0 y \<longleftrightarrow> (\<forall>x. let c = held_contact (offer_peers y x) in
     contact_inv c \<and> contact_state c = MCL_CONTACT_STATE_ACTIVE \<and> contact_active_transport c = t0
     \<and> book (contact_completed_migration_ref c) = None \<and> messages y x = [])"

lemma offers_inv_start:
  assumes "offers_start book t0 y"
  shows "offers_inv book t0 y" "calm_inv (\<lambda>x. spec_session (view_of y x)) y"
proof -
  have s: "contact_inv (held_contact (offer_peers y x))" "messages y x = []" "contact_active_transport (held_contact (offer_peers y x)) = t0"
    "book (contact_completed_migration_ref (held_contact (offer_peers y x))) = None"
    "phase_of (held_contact (offer_peers y x)) = Settled" for x
    using assms by (simp_all add: offers_start_def Let_def phase_state(1))
  show "offers_inv book t0 y"
    using s by (auto simp: offers_inv_def contacts_ok_def sent_ok_def phase_ok_def contact_abs_def nonzero_def)
  show "calm_inv (\<lambda>x. spec_session (view_of y x)) y" using s by (simp add: calm_inv_def calm_side_def)
qed

lemma offers_invD:
  assumes "offers_inv book t0 y"
  shows "contact_inv (held_contact (offer_peers y x))" "sent_ok book t0 x (view_of y x) (set (messages y x))"
    "phase_ok book t0 x (view_of y x) (owns y x) (set (messages y x)) (set (messages y (opposite x)))"
  using assms by (simp_all add: offers_inv_def contacts_ok_def)

lemma calm_invD: "calm_inv k y \<Longrightarrow>
    calm_side (k x) (view_of y x) (owns y x) (set (messages y x)) (set (messages y (opposite x)))"
  by (simp add: calm_inv_def)

text \<open>Two peers that have agreed under one reference have agreed on one offer and one session.\<close>

lemma agreed_owner:
  assumes inv: "offers_inv book t0 y" and x: "spec_phase (view_of y x) = Agreed w" "owns y x"
    and opp: "spec_phase (view_of y (opposite x)) = Agreed v" "offer_ref v = offer_ref w"
  shows "book (offer_ref w) = Some (x, w) \<and> v = w
    \<and> (\<exists>s. \<forall>z. spec_session (view_of y z) = Some s)"
proof -
  obtain s where s: "book (offer_ref w) = Some (x, w)" "spec_session (view_of y x) = Some s"
    "acceptance w s \<in> set (messages y (opposite x))"
    using offers_invD(3) [OF inv, of x] x by (auto simp: phase_ok_def)
  then have "spec_session (view_of y (opposite x)) = Some s"
    using sent_okD(2) [OF offers_invD(2) [OF inv] s(3)] opp by simp
  moreover have "v = w"
    using offers_invD(3) [OF inv, of "opposite x"] opp s(1) by (auto simp: phase_ok_def split: if_splits)
  ultimately show ?thesis using s side_pair [where x = x and P = "\<lambda>z. spec_session (view_of y z) = Some s"] by blast
qed

lemma agreed_together:
  assumes inv: "offers_inv book t0 y" and agreed: "\<And>x. spec_phase (view_of y x) = Agreed (w x)"
    and same: "offer_ref (w Left) = offer_ref (w Right)"
  obtains x s where "owns y x" "\<And>z. w z = w x" "book (offer_ref (w x)) = Some (x, w x)"
    "\<And>z. spec_session (view_of y z) = Some s"
proof -
  have book: "book (offer_ref (w x)) = Some (if owns y x then x else opposite x, w x)" for x
    using offers_invD(3) [OF inv, of x] agreed [of x] by (simp add: phase_ok_def)
  have refs: "offer_ref (w (opposite x)) = offer_ref (w x)" for x using same by (cases x) simp_all
  have "owns y Left \<or> owns y Right"
  proof (rule ccontr)
    assume "\<not> (owns y Left \<or> owns y Right)"
    then show False using book [of Left] book [of Right] unfolding same by simp
  qed
  then obtain x where x: "owns y x" by blast
  from agreed_owner [OF inv agreed this agreed refs]
  have a: "book (offer_ref (w x)) = Some (x, w x)" "w (opposite x) = w x" "\<exists>s. \<forall>z. spec_session (view_of y z) = Some s" by simp_all
  have "w z = w x" for z using a(2) side_cases [of z x] by auto
  then show thesis using that x a(1,3) by blast
qed

text \<open>If nobody gives up, the two cannot have agreed on different offers.\<close>

lemma overruled_once: "overruled w S R \<Longrightarrow> \<not> overruled v R S"
  unfolding overruled_def below_def by (meson less_asym)

lemma calm_agree_owner:
  assumes inv: "offers_inv book t0 y" and calm: "calm_inv k y" and x: "spec_phase (view_of y x) = Agreed w" "owns y x"
    and opp: "spec_phase (view_of y (opposite x)) = Agreed v"
  shows "offer_ref w = offer_ref v"
proof -
  obtain s where "acceptance w s \<in> set (messages y (opposite x))"
    using offers_invD(3) [OF inv, of x] x by (auto simp: phase_ok_def)
  moreover have "calm_side (k (opposite x)) (view_of y (opposite x)) (owns y (opposite x))
      (set (messages y (opposite x))) (set (messages y x))"
    using calm_invD [OF calm, of "opposite x"] by simp
  ultimately show ?thesis using opp by (auto simp: calm_side_def split: if_splits)
qed

lemma calm_agree:
  assumes inv: "offers_inv book t0 y" and calm: "calm_inv k y" and agreed: "\<And>x. spec_phase (view_of y x) = Agreed (w x)"
  shows "offer_ref (w Left) = offer_ref (w Right)"
proof -
  have "overruled (w x) (set (messages y x)) (set (messages y (opposite x)))" if "\<not> owns y x" for x
    using calm_invD [OF calm, of x] agreed [of x] that by (simp add: calm_side_def)
  then have "owns y Left \<or> owns y Right" using overruled_once by (metis opposite.simps)
  then show ?thesis
    using calm_agree_owner [OF inv calm agreed, of Left] calm_agree_owner [OF inv calm agreed, of Right] agreed by auto
qed

text \<open>The two contacts as \<open>Mcl_Migration\<close> takes them over; the first one is to send the commit.\<close>

definition migration_of :: "side \<Rightarrow> offer_system \<Rightarrow> migration_system" where
  "migration_of x y = \<lparr>peer_a = held_contact (offer_peers y x), peer_b = held_contact (offer_peers y (opposite x)),
     sent_by_a = [], sent_by_b = []\<rparr>"

lemma together_pair:
  assumes inv: "offers_inv book t0 y" and state: "\<And>x. contact_state (held_contact (offer_peers y x)) = 3"
    and pending: "\<And>x. pending_offer (held_contact (offer_peers y x)) = w" and book: "book (offer_ref w) \<noteq> None"
    and session: "\<And>x. spec_session (view_of y x) = Some s"
  shows "agreed_pair w s t0 (migration_of x y)"
proof -
  have c: "let c = held_contact (offer_peers y z) in contact_inv c \<and> contact_state c = 3 \<and> pending_offer c = w
      \<and> contact_session_ref c = s \<and> contact_active_transport c = t0 \<and> contact_completed_migration_ref c \<noteq> offer_ref w" for z
  proof -
    define c where "c = held_contact (offer_peers y z)"
    have inv_c: "contact_inv c" using offers_invD(1) [OF inv] by (simp add: c_def)
    have "offer_ref w \<noteq> 0" using inv_pending_nz [OF inv_c] state [of z] pending [of z] by (auto simp: pending_offer_def c_def)
    moreover have p: "contact_active_transport c = t0" "\<forall>m. spec_completed (contact_abs c) = Some m \<longrightarrow> book m = None"
      using offers_invD(3) [OF inv, of z] by (simp_all add: phase_ok_def c_def)
    ultimately have "contact_completed_migration_ref c \<noteq> offer_ref w"
      using book by (auto simp: contact_abs_def nonzero_def)
    then show ?thesis
      using inv_c state [of z] pending [of z] session [of z] p(1) unfolding c_def by (simp add: abs_session)
  qed
  show ?thesis using c [of x] c [of "opposite x"] by (simp add: agreed_pair_def migration_of_def Let_def)
qed

lemma agreed_view: "contact_inv c \<Longrightarrow> spec_phase (contact_abs c) = Agreed w \<longleftrightarrow> contact_state c = 3 \<and> w = pending_offer c"
  by (cases rule: state_cases) (auto simp: phase_state)

lemma agreed_pair_exists:
  assumes inv: "offers_inv book t0 z" and agreed: "\<And>x. contact_state (held_contact (offer_peers z x)) = 3"
    and same: "calm_inv k z
      \<or> contact_pending_migration_ref (held_contact (offer_peers z Left)) = contact_pending_migration_ref (held_contact (offer_peers z Right))"
  shows "\<exists>x w s. book (offer_ref w) = Some (x, w) \<and> agreed_pair w s t0 (migration_of x z)"
proof -
  let ?w = "\<lambda>x. pending_offer (held_contact (offer_peers z x))"
  have phase: "spec_phase (view_of z x) = Agreed (?w x)" for x using phase_state(3) [OF agreed] by simp
  have "offer_ref (?w Left) = offer_ref (?w Right)"
    using same calm_agree [OF inv _ phase] by (auto simp: pending_offer_def)
  then obtain x s where x: "\<And>u. ?w u = ?w x" "book (offer_ref (?w x)) = Some (x, ?w x)" "\<And>u. spec_session (view_of z u) = Some s"
    using agreed_together [OF inv phase] by metis
  have "agreed_pair (?w x) s t0 (migration_of x z)"
    by (rule together_pair [OF inv agreed x(1)]) (simp_all add: x(2,3))
  then show ?thesis using x(2) by blast
qed

lemma calm_run:
  assumes "offers_start book t0 y" "list_all (offers_legal book) es" "\<not> list_ex gives_up es" "run_calls offers_exec es y = Some z"
  shows "offers_inv book t0 z \<and> calm_inv (\<lambda>x. spec_session (view_of y x)) z"
proof -
  have "list_all (\<lambda>e. offers_legal book e \<and> \<not> gives_up e) es"
    using assms(2,3) by (simp add: list_all_iff list_ex_iff)
  then show ?thesis using calm_offers.run_inv [OF _ _ assms(4)] offers_inv_start [OF assms(1)] by blast
qed

text \<open>C11: agreement on a change of medium. Two settled contacts exchange offers and acceptances that may be lost,
  repeated, delayed and reordered; both may offer at once, and references tell the offers apart.
  If both have agreed, and either nobody has given up on the way or the references they have
  agreed under are the same, then they have agreed on one and the same offer, made by one of them, and on
  one session reference, both are still on the old medium, and the migration can begin as
  \<open>Mcl_Migration\<close> assumes.\<close>

theorem offers_agree:
  assumes "offers_start book t0 y" "list_all (offers_legal book) es" "run_calls offers_exec es y = Some z"
    and agreed: "\<And>x. contact_state (held_contact (offer_peers z x)) = MCL_CONTACT_STATE_AGREED"
    and calm: "\<not> list_ex gives_up es
      \<or> contact_pending_migration_ref (held_contact (offer_peers z Left)) = contact_pending_migration_ref (held_contact (offer_peers z Right))"
  shows "\<exists>x w s. book (offer_ref w) = Some (x, w) \<and> agreed_pair w s t0 (migration_of x z)"
proof (rule agreed_pair_exists [OF _ agreed])
  show "offers_inv book t0 z" by (rule offers.run_inv [OF offers_inv_start(1) [OF assms(1)] assms(2,3)])
  show "calm_inv (\<lambda>x. spec_session (view_of y x)) z
      \<or> contact_pending_migration_ref (held_contact (offer_peers z Left)) = contact_pending_migration_ref (held_contact (offer_peers z Right))"
    using calm calm_run [OF assms(1,2) _ assms(3)] by blast
qed

text \<open>Both offer at once; the offer of the greater key is the one they agree on.\<close>

definition fresh_pair :: "side \<Rightarrow> offer_peer" where
  "fresh_pair x = \<lparr>held_contact = (case x of Left \<Rightarrow> contact_start 0 3 1 | Right \<Rightarrow> contact_start 1 5 1), offer_own = False\<rparr>"

definition sample_offers :: offer_system where
  "sample_offers = \<lparr>offer_peers = fresh_pair, messages = (\<lambda>x. [])\<rparr>"

definition offer_to :: "u32 \<Rightarrow> byte \<Rightarrow> offer" where
  "offer_to m t = \<lparr>offer_ref = m, offer_transport = t, offer_profile = 1, offer_token = 0, offer_validity = 0\<rparr>"

definition sample_book :: offer_book where
  "sample_book = [9 \<mapsto> (Left, offer_to 9 2), 10 \<mapsto> (Right, offer_to 10 3)]"

lemma sample_offers_start: "offers_start sample_book 1 sample_offers"
proof -
  have "contact_inv (held_contact (fresh_pair x)) \<and> contact_state (held_contact (fresh_pair x)) = 1
      \<and> contact_active_transport (held_contact (fresh_pair x)) = 1 \<and> contact_completed_migration_ref (held_contact (fresh_pair x)) = 0" for x
    by (cases x) (simp_all add: fresh_pair_def begin_inv, simp_all add: contact_start_def)
  then show ?thesis by (simp add: offers_start_def sample_offers_def sample_book_def Let_def)
qed

definition glare_events :: "offer_event list" where
  "glare_events = [Make_Offer Left (offer_to 9 2), Make_Offer Right (offer_to 10 3), Deliver_Message Left 0,
     Deliver_Message Right 0, Accept_Offer Left 7, Deliver_Message Left 1]"

lemmas offers_defs = at_peer_def make_offer_def receive_offer_def accept_offer_def give_up_def close_peer_def calling_def

lemma glare_run: "\<exists>z. run_calls offers_exec glare_events sample_offers = Some z
    \<and> contact_state (held_contact (offer_peers z Left)) = 3 \<and> contact_state (held_contact (offer_peers z Right)) = 3
    \<and> pending_offer (held_contact (offer_peers z Left)) = offer_to 10 3"
  by (simp add: glare_events_def sample_offers_def fresh_pair_def contact_start_def offers_defs offer_to_def contact_defs
      contact_helpers pending_offer_def Let_def del: One_nat_def)

lemma offers_agree_witness:
  "\<exists>z w s. run_calls offers_exec glare_events sample_offers = Some z
    \<and> agreed_pair w s 1 (migration_of Right z) \<and> w = offer_to 10 3"
proof -
  obtain z where z: "run_calls offers_exec glare_events sample_offers = Some z"
      "contact_state (held_contact (offer_peers z Left)) = 3" "contact_state (held_contact (offer_peers z Right)) = 3"
      "pending_offer (held_contact (offer_peers z Left)) = offer_to 10 3"
    using glare_run by blast
  have l: "list_all (offers_legal sample_book) glare_events" "\<not> list_ex gives_up glare_events"
    by (simp_all add: glare_events_def sample_book_def offer_to_def)
  have "contact_state (held_contact (offer_peers z x)) = 3" for x using z(2,3) by (cases x) simp_all
  from offers_agree [OF sample_offers_start l(1) z(1) this] l(2) obtain x w s where
    xw: "sample_book (offer_ref w) = Some (x, w)" "agreed_pair w s 1 (migration_of x z)" by blast
  then have "w = offer_to 10 3" using z(4) by (cases x) (simp_all add: agreed_pair_def migration_of_def)
  then show ?thesis using xw z(1) by (auto simp: sample_book_def offer_to_def)
qed

section \<open>Progress\<close>

text \<open>What a peer does with a message that is in place.\<close>

definition becomes :: "offer_result \<Rightarrow> contact_spec \<Rightarrow> bool \<Rightarrow> offer_message list \<Rightarrow> bool" where
  "becomes r a own msgs \<longleftrightarrow> (\<exists>p. r = Some (MCL_LINK_OK, p, msgs) \<and> contact_inv (held_contact p)
     \<and> contact_view p = a \<and> offer_own p = own)"

lemma calling_becomes:
  assumes "contact_inv (held_contact p)" "contact_legal call" "contact_spec_exec call (contact_view p) = (MCL_LINK_OK, a)"
    and "\<And>c. held_contact (next_peer c) = c \<and> offer_own (next_peer c) = own"
  shows "becomes (calling call next_peer msgs p) a own msgs"
proof -
  obtain c' where "contact_exec call (held_contact p) = Some (MCL_LINK_OK, c')" "contact_inv c'" "contact_abs c' = a"
    using contact_does [OF assms(1-3)] by blast
  then show ?thesis using assms(4) by (auto simp: becomes_def calling_def simp del: contact_exec.simps)
qed

lemma hears:
  assumes inv: "contact_inv (held_contact p)" and a: "spec_phase (contact_view p) = Settled"
    and "offer_named w" "offer_transport w \<noteq> spec_transport (contact_view p)"
  shows "becomes (receive_message (Transport_Offer source w) p) (contact_view p\<lparr>spec_phase := Offered w\<rparr>) False []"
proof -
  have "becomes (calling (record_call w) (\<lambda>c. \<lparr>held_contact = c, offer_own = False\<rparr>) [] p) (contact_view p\<lparr>spec_phase := Offered w\<rparr>) False []"
    by (rule calling_becomes [OF inv]) (use assms record_spec in \<open>auto simp del: contact_spec_exec.simps\<close>)
  then show ?thesis using settled_view [OF inv] a by (simp add: receive_offer_def)
qed

lemma collide_yields:
  assumes "spec_phase a = Offered v" "offer_named w" "offer_transport w \<noteq> spec_transport a"
    and key: "Offer_Key (spec_local a) (offer_ref v) < Offer_Key source (offer_ref w)"
  shows "spec_collide source w a = (MCL_LINK_OK, a\<lparr>spec_phase := Offered w\<rparr>)"
proof -
  have "\<not> Offer_Key source (offer_ref w) < Offer_Key (spec_local a) (offer_ref v)"
    "Offer_Key source (offer_ref w) \<noteq> Offer_Key (spec_local a) (offer_ref v)"
    using less_not_sym [OF key] less_imp_neq [OF key, symmetric] by simp_all
  then show ?thesis using assms(1-3) by (auto simp: spec_collide_def Let_def)
qed

lemma yields:
  assumes inv: "contact_inv (held_contact p)" and a: "spec_phase (contact_view p) = Offered v" and own: "offer_own p"
    and w: "offer_named w" "offer_transport w \<noteq> spec_transport (contact_view p)"
    and key: "Offer_Key (spec_local (contact_view p)) (offer_ref v) < Offer_Key source (offer_ref w)"
  shows "becomes (receive_message (Transport_Offer source w) p) (contact_view p\<lparr>spec_phase := Offered w\<rparr>) False []"
proof -
  have c: "contact_state (held_contact p) = 2" "v = pending_offer (held_contact p)" using a unfolding phase_offered [OF inv] by simp_all
  have k: "\<not> Offer_Key source (offer_ref w) < offer_key_of (held_contact p)" "Offer_Key source (offer_ref w) \<noteq> offer_key_of (held_contact p)"
    using key by (auto simp: c(2) offer_key_of_def pending_offer_def)
  have spec: "spec_collide source w (contact_view p) = (MCL_LINK_OK, contact_view p\<lparr>spec_phase := Offered w\<rparr>)"
    by (rule collide_yields [OF a w key])
  obtain st c' where r: "mcl_contact_resolve_offer_collision (Some (held_contact p)) source (offer_ref w) (offer_transport w)
      (offer_profile w) (offer_token w) (offer_validity w) (Some 0)
      = Some (st, Some c', Some (if st \<noteq> MCL_LINK_OK \<or> Offer_Key source (offer_ref w) < offer_key_of (held_contact p) then 0
        else if Offer_Key source (offer_ref w) = offer_key_of (held_contact p) then 2 else 1))"
    "contact_inv c'" "spec_collide source w (contact_view p) = (st, contact_abs c')"
    by (rule collision_result [OF inv c(1), of source w])
  then have "st = MCL_LINK_OK" "contact_abs c' = contact_view p\<lparr>spec_phase := Offered w\<rparr>" using spec by simp_all
  then show ?thesis using c(1) own r(1,2) k by (simp add: receive_offer_def becomes_def)
qed

lemma accepts:
  assumes inv: "contact_inv (held_contact p)" and a: "spec_phase (contact_view p) = Offered w" and own: "\<not> offer_own p"
    and s: "s \<noteq> 0" "spec_session (contact_view p) \<in> {None, Some s}"
  shows "becomes (accept_offer s p) (contact_view p\<lparr>spec_session := Some s, spec_phase := Agreed w\<rparr>) False [acceptance w s]"
proof -
  have c: "contact_state (held_contact p) = 2" "w = pending_offer (held_contact p)" using a unfolding phase_offered [OF inv] by simp_all
  have "becomes (calling (Agree (offer_ref w) (offer_transport w) (offer_profile w) s) (\<lambda>c. p\<lparr>held_contact := c\<rparr>) [acceptance w s] p)
      (contact_view p\<lparr>spec_session := Some s, spec_phase := Agreed w\<rparr>) False [acceptance w s]"
    by (rule calling_becomes [OF inv]) (use a own s agree_spec in \<open>auto simp del: contact_spec_exec.simps\<close>)
  then show ?thesis using c own by (simp add: accept_offer_def Let_def pending_offer_def)
qed

lemma settles:
  assumes inv: "contact_inv (held_contact p)" and a: "spec_phase (contact_view p) = Offered w"
    and s: "s \<noteq> 0" "spec_session (contact_view p) \<in> {None, Some s}"
  shows "becomes (receive_message (acceptance w s) p) (contact_view p\<lparr>spec_session := Some s, spec_phase := Agreed w\<rparr>) (offer_own p) []"
  unfolding receive_message.simps
  by (rule calling_becomes [OF inv]) (use a s agree_spec in \<open>auto simp del: contact_spec_exec.simps\<close>)

text \<open>The same in the system.\<close>

lemma delivers:
  assumes "i < length (messages y x)" and "becomes (receive_message (messages y x ! i) (offer_peers y (opposite x))) a own []"
  obtains z where "offers_exec (Deliver_Message x i) y = Some (MCL_LINK_OK, z)" "view_of z (opposite x) = a"
    "owns z (opposite x) = own" "contact_inv (held_contact (offer_peers z (opposite x)))"
    "offer_peers z x = offer_peers y x" "messages z = messages y"
proof -
  obtain p where p: "receive_message (messages y x ! i) (offer_peers y (opposite x)) = Some (MCL_LINK_OK, p, [])"
    "contact_inv (held_contact p)" "contact_view p = a" "offer_own p = own"
    using assms(2) by (auto simp: becomes_def)
  show thesis
    by (rule that [of "y\<lparr>offer_peers := (offer_peers y)(opposite x := p)\<rparr>"]) (use assms(1) p in \<open>simp_all add: at_peer_def\<close>)
qed

text \<open>The last step, the last two, and all three.\<close>

abbreviation both_agreed :: "offer_system \<Rightarrow> bool" where
  "both_agreed y \<equiv> (\<forall>x. \<exists>w. spec_phase (view_of y x) = Agreed w)"

lemma last_step:
  assumes inv: "contact_inv (held_contact (offer_peers y x))" and x: "spec_phase (view_of y x) = Offered w"
    and opp: "spec_phase (view_of y (opposite x)) = Agreed w" and msg: "acceptance w s \<in> set (messages y (opposite x))"
    and s: "s \<noteq> 0" "spec_session (view_of y x) \<in> {None, Some s}"
  shows "\<exists>i z. offers_exec (Deliver_Message (opposite x) i) y = Some (MCL_LINK_OK, z) \<and> both_agreed z"
proof -
  obtain i where i: "i < length (messages y (opposite x))" "messages y (opposite x) ! i = acceptance w s"
    using msg by (auto simp: in_set_conv_nth)
  have "becomes (receive_message (messages y (opposite x) ! i) (offer_peers y (opposite (opposite x))))
      (view_of y x\<lparr>spec_session := Some s, spec_phase := Agreed w\<rparr>) (owns y x) []"
    unfolding i(2) opposite_simps by (rule settles [OF inv x s])
  then obtain z where z: "offers_exec (Deliver_Message (opposite x) i) y = Some (MCL_LINK_OK, z)"
    "view_of z x = view_of y x\<lparr>spec_session := Some s, spec_phase := Agreed w\<rparr>" "offer_peers z (opposite x) = offer_peers y (opposite x)"
    using delivers [OF i(1)] by (metis opposite_simps(1))
  then have "both_agreed z" using opp by (intro side_pair [where x = x]) simp_all
  then show ?thesis using z(1) by blast
qed

lemma last_two_steps:
  assumes inv: "contact_inv (held_contact (offer_peers y x))" "contact_inv (held_contact (offer_peers y (opposite x)))"
    and x: "spec_phase (view_of y x) = Offered w" and opp: "spec_phase (view_of y (opposite x)) = Offered w" "\<not> owns y (opposite x)"
    and s: "s \<noteq> 0" "\<And>z. spec_session (view_of y z) \<in> {None, Some s}"
  shows "\<exists>i z. run_calls offers_exec [Accept_Offer (opposite x) s, Deliver_Message (opposite x) i] y = Some z \<and> both_agreed z"
proof -
  obtain p where p: "accept_offer s (offer_peers y (opposite x)) = Some (MCL_LINK_OK, p, [acceptance w s])"
    "contact_view p = view_of y (opposite x)\<lparr>spec_session := Some s, spec_phase := Agreed w\<rparr>"
    using accepts [OF inv(2) opp s] by (auto simp: becomes_def)
  define z where "z = y\<lparr>offer_peers := (offer_peers y)(opposite x := p),
      messages := (messages y)(opposite x := messages y (opposite x) @ [acceptance w s])\<rparr>"
  have "offers_exec (Accept_Offer (opposite x) s) y = Some (MCL_LINK_OK, z)" using p(1) by (simp add: at_peer_def z_def)
  moreover have "\<exists>i u. offers_exec (Deliver_Message (opposite x) i) z = Some (MCL_LINK_OK, u) \<and> both_agreed u"
    by (rule last_step [of z x w s]) (use inv x s p(2) in \<open>simp_all add: z_def\<close>)
  then obtain i u where "offers_exec (Deliver_Message (opposite x) i) z = Some (MCL_LINK_OK, u)" "both_agreed u" by blast
  ultimately show ?thesis by (intro exI [of _ i] exI [of _ u]) (simp del: offers_exec.simps)
qed

text \<open>In a calm exchange in which something has been said, somebody's offer stands.\<close>

definition stands :: "offer_system \<Rightarrow> side \<Rightarrow> bool" where
  "stands y x \<longleftrightarrow> owns y x \<and> phase_offer (spec_phase (view_of y x)) \<noteq> None"

lemma calm_phases:
  assumes inv: "offers_inv book t0 y" and calm: "calm_inv k y" and "spec_phase (view_of y x) \<noteq> Closed"
  shows "spec_phase (view_of y x) = Settled \<and> messages y x = []
    \<or> \<not> owns y x \<and> (\<exists>w. spec_phase (view_of y x) \<in> {Offered w, Agreed w} \<and> overruled w (set (messages y x)) (set (messages y (opposite x))))
    \<or> owns y x \<and> (\<exists>w. spec_phase (view_of y x) \<in> {Offered w, Agreed w} \<and> set (messages y x) = {Transport_Offer (spec_local (view_of y x)) w})"
  using calm_invD [OF calm, of x] offers_invD(3) [OF inv, of x] assms(3)
  by (auto simp: calm_side_def phase_ok_def split: phase.splits if_splits)

lemma some_offer_stands:
  assumes inv: "offers_inv book t0 y" and calm: "calm_inv k y" and up: "\<And>x. spec_phase (view_of y x) \<noteq> Closed"
    and said: "messages y u \<noteq> []"
  shows "\<exists>x. stands y x"
proof (rule ccontr)
  assume none: "\<nexists>x. stands y x"
  have p: "spec_phase (view_of y x) = Settled \<and> messages y x = []
      \<or> (\<exists>w. overruled w (set (messages y x)) (set (messages y (opposite x))))" for x
    using calm_phases [OF inv calm up, of x] none by (auto simp: stands_def)
  have "\<not> overruled w (set (messages y x)) (set (messages y (opposite x)))" for x w
  proof
    assume o: "overruled w (set (messages y x)) (set (messages y (opposite x)))"
    then have "messages y (opposite x) \<noteq> []" by (auto simp: overruled_def)
    then obtain v where "overruled v (set (messages y (opposite x))) (set (messages y x))"
      using p [of "opposite x"] by auto
    then show False using overruled_once [OF o] by blast
  qed
  then show False using p [of u] said by blast
qed

text \<open>At most \<open>n\<close> more events are needed.\<close>

fun calm_event :: "offer_event \<Rightarrow> bool" where
  "calm_event (Accept_Offer x s) \<longleftrightarrow> True"
| "calm_event (Deliver_Message x i) \<longleftrightarrow> True"
| "calm_event _ \<longleftrightarrow> False"

definition within :: "nat \<Rightarrow> offer_system \<Rightarrow> bool" where
  "within n y \<longleftrightarrow> (\<exists>es z. length es \<le> n \<and> list_all calm_event es \<and> run_calls offers_exec es y = Some z \<and> both_agreed z)"

lemma within_none: "both_agreed y \<Longrightarrow> within n y"
  unfolding within_def by (intro exI [of _ "[]"] exI [of _ y]) simp

lemma within_step: "offers_exec e y = Some (st, z) \<Longrightarrow> calm_event e \<Longrightarrow> within n z \<Longrightarrow> within (Suc n) y"
  unfolding within_def
  by (elim exE conjE, rule_tac x = "e # es" in exI) (simp del: offers_exec.simps)

lemma within_run: "run_calls offers_exec es y = Some z \<Longrightarrow> list_all calm_event es \<Longrightarrow> both_agreed z \<Longrightarrow> length es \<le> n \<Longrightarrow> within n y"
  unfolding within_def by blast

lemma acceptance_agreed:
  assumes inv: "offers_inv book t0 y" and calm: "calm_inv k y" and up: "spec_phase (view_of y x) \<noteq> Closed"
    and "acceptance w s \<in> set (messages y x)"
  shows "\<exists>v. spec_phase (view_of y x) = Agreed v"
  using calm_invD [OF calm, of x] offers_invD(3) [OF inv, of x] assms(3,4)
  by (auto simp: calm_side_def phase_ok_def split: phase.splits if_splits)

text \<open>The other peer has the offer before it, unanswered or answered.\<close>

lemma answered:
  assumes inv: "offers_inv book t0 y" and calm: "calm_inv (\<lambda>_. q) y" and x: "spec_phase (view_of y x) = Offered w"
    and opp: "spec_phase (view_of y (opposite x)) \<in> {Offered w, Agreed w}" "\<not> owns y (opposite x)"
  shows "within 2 y"
proof (cases "spec_phase (view_of y (opposite x)) = Offered w")
  case True
  have q: "spec_session (view_of y z) = q" for z
    using calm_invD [OF calm, of z] x True side_cases [of z x] by (auto simp: calm_side_def)
  obtain s where s: "s \<noteq> 0" "q \<in> {None, Some s}"
  proof (cases q)
    case None
    then show thesis using that [of 1] by simp
  next
    case (Some s)
    then show thesis using that [of s] q [of x] by (simp add: abs_session)
  qed
  from last_two_steps [OF offers_invD(1) [OF inv] offers_invD(1) [OF inv] x True opp(2) s(1)] q s(2)
  obtain i z where "run_calls offers_exec [Accept_Offer (opposite x) s, Deliver_Message (opposite x) i] y = Some z" "both_agreed z"
    by blast
  from within_run [OF this(1) _ this(2), of 2] show ?thesis by simp
next
  case False
  then have o: "spec_phase (view_of y (opposite x)) = Agreed w" using opp(1) by simp
  obtain s where s: "spec_session (view_of y (opposite x)) = Some s" "acceptance w s \<in> set (messages y (opposite x))"
    using offers_invD(3) [OF inv, of "opposite x"] o opp(2) by (auto simp: phase_ok_def)
  have "s \<noteq> 0" using s(1) by (simp add: abs_session)
  moreover have "spec_session (view_of y x) \<in> {None, Some s}"
    using calm_invD [OF calm, of x] calm_invD [OF calm, of "opposite x"] x o s(1) by (auto simp: calm_side_def)
  ultimately obtain i z where "offers_exec (Deliver_Message (opposite x) i) y = Some (MCL_LINK_OK, z)" "both_agreed z"
    using last_step [OF offers_invD(1) [OF inv] x o s(2)] by blast
  then show ?thesis using within_step [OF _ _ within_none, of "Deliver_Message (opposite x) i" y _ z 1] by (simp add: numeral_2_eq_2)
qed

text \<open>The other peer has yet to take the offer over.\<close>

lemma offer_taken:
  assumes inv: "offers_inv book t0 y" and calm: "calm_inv (\<lambda>_. q) y" and x: "spec_phase (view_of y x) = Offered w"
    and sent: "Transport_Offer (spec_local (view_of y x)) w \<in> set (messages y x)"
    and opp: "spec_phase (view_of y (opposite x)) = Settled
      \<or> (\<exists>v. spec_phase (view_of y (opposite x)) = Offered v \<and> owns y (opposite x)
          \<and> Offer_Key (spec_local (view_of y (opposite x))) (offer_ref v) < Offer_Key (spec_local (view_of y x)) (offer_ref w))"
  shows "within 3 y"
proof -
  obtain i where i: "i < length (messages y x)" "messages y x ! i = Transport_Offer (spec_local (view_of y x)) w"
    using sent by (auto simp: in_set_conv_nth)
  have w: "offer_named w" "offer_transport w \<noteq> spec_transport (view_of y (opposite x))"
    using sent_okD(1) [OF offers_invD(2) [OF inv] sent] offers_invD(3) [OF inv, of "opposite x"] by (simp_all add: phase_ok_def)
  have "becomes (receive_message (messages y x ! i) (offer_peers y (opposite x))) (view_of y (opposite x)\<lparr>spec_phase := Offered w\<rparr>) False []"
    unfolding i(2) using opp hears [OF offers_invD(1) [OF inv] _ w] yields [OF offers_invD(1) [OF inv] _ _ w] by blast
  from delivers [OF i(1) this] obtain z where z: "offers_exec (Deliver_Message x i) y = Some (MCL_LINK_OK, z)"
    "view_of z (opposite x) = view_of y (opposite x)\<lparr>spec_phase := Offered w\<rparr>" "\<not> owns z (opposite x)" "offer_peers z x = offer_peers y x"
    by metis
  have "offers_inv book t0 z \<and> calm_inv (\<lambda>_. q) z"
    using calm_offers.exec_inv [OF conjI [OF inv calm] _ z(1)] by simp
  then have "within 2 z" using answered [of book t0 z q x w] x z(2-4) by simp
  then show ?thesis using within_step [OF z(1), of 2] by (simp add: numeral_3_eq_3 numeral_2_eq_2)
qed

text \<open>Two peers whose own offers are pending have different keys: the smaller gives way.\<close>

lemma collision_concludes:
  assumes inv: "offers_inv book t0 y" and calm: "calm_inv (\<lambda>_. q) y"
    and own: "\<And>x. owns y x" and x: "spec_phase (view_of y x) = Offered w" and opp: "spec_phase (view_of y (opposite x)) = Offered v"
  shows "within 3 y"
proof -
  have sent: "Transport_Offer (spec_local (view_of y x)) w \<in> set (messages y x)"
    "Transport_Offer (spec_local (view_of y (opposite x))) v \<in> set (messages y (opposite x))"
    using calm_invD [OF calm, of x] calm_invD [OF calm, of "opposite x"] own x opp by (simp_all add: calm_side_def)
  have "offer_ref w \<noteq> offer_ref v"
    using offers_invD(3) [OF inv, of x] offers_invD(3) [OF inv, of "opposite x"] own x opp by (auto simp: phase_ok_def)
  then consider "Offer_Key (spec_local (view_of y (opposite x))) (offer_ref v) < Offer_Key (spec_local (view_of y x)) (offer_ref w)"
    | "Offer_Key (spec_local (view_of y x)) (offer_ref w) < Offer_Key (spec_local (view_of y (opposite x))) (offer_ref v)"
    by (metis linorder_less_linear offer_key.inject)
  then show ?thesis
  proof cases
    case 1
    then show ?thesis using offer_taken [OF inv calm x sent(1)] own opp by blast
  next
    case 2
    then show ?thesis using offer_taken [OF inv calm opp sent(2)] own x by simp
  qed
qed

lemma offered_concludes:
  assumes inv: "offers_inv book t0 y" and calm: "calm_inv (\<lambda>_. q) y" and up: "\<And>x. spec_phase (view_of y x) \<noteq> Closed"
    and own: "owns y x" and x: "spec_phase (view_of y x) = Offered w"
  shows "within 3 y"
proof -
  have S: "set (messages y x) = {Transport_Offer (spec_local (view_of y x)) w}"
    using calm_invD [OF calm, of x] own x by (simp add: calm_side_def)
  consider (idle) "spec_phase (view_of y (opposite x)) = Settled"
    | (heard) "\<not> owns y (opposite x)" "spec_phase (view_of y (opposite x)) \<in> {Offered w, Agreed w}"
    | (offers) v where "owns y (opposite x)" "spec_phase (view_of y (opposite x)) = Offered v"
    | (agreed) v where "owns y (opposite x)" "spec_phase (view_of y (opposite x)) = Agreed v"
    using calm_phases [OF inv calm up, of "opposite x"] S by (auto simp: overruled_def)
  then show ?thesis
  proof cases
    case idle
    then show ?thesis using offer_taken [OF inv calm x] S by simp
  next
    case heard
    have "within 2 y" by (rule answered [OF inv calm x heard(2,1)])
    then show ?thesis unfolding within_def by (elim exE conjE) (intro exI conjI; assumption?; linarith)
  next
    case offers
    have "owns y z" for z using own offers(1) side_cases [of z x] by auto
    from collision_concludes [OF inv calm this x offers(2)] show ?thesis .
  next
    case agreed
    then obtain s where "acceptance v s \<in> set (messages y x)"
      using offers_invD(3) [OF inv, of "opposite x"] by (auto simp: phase_ok_def)
    then show ?thesis using S by simp
  qed
qed

lemma standing_concludes:
  assumes inv: "offers_inv book t0 y" and calm: "calm_inv (\<lambda>_. q) y" and up: "\<And>x. spec_phase (view_of y x) \<noteq> Closed"
    and stands: "stands y x"
  shows "within 3 y"
proof -
  have own: "owns y x" and x: "phase_offer (spec_phase (view_of y x)) \<noteq> None" using stands by (simp_all add: stands_def)
  then consider w where "spec_phase (view_of y x) = Offered w" | w where "spec_phase (view_of y x) = Agreed w"
    using calm_phases [OF inv calm up, of x] by auto
  then show ?thesis
  proof cases
    case 1
    then show ?thesis using offered_concludes [OF inv calm up own] by blast
  next
    case (2 w)
    then obtain s where "acceptance w s \<in> set (messages y (opposite x))"
      using offers_invD(3) [OF inv, of x] own by (auto simp: phase_ok_def)
    then obtain v where "spec_phase (view_of y (opposite x)) = Agreed v"
      using acceptance_agreed [OF inv calm up] by blast
    then have "both_agreed y" using 2 by (intro side_pair [where x = x]) simp_all
    then show ?thesis by (rule within_none)
  qed
qed

text \<open>C12: no deadlock. Whatever has been lost, repeated and reordered so far, and whether one peer has offered or
  both: if an offer has been made, nobody has given up or closed, and the contacts were not
  bound to different sessions before, then at most three more events, each a delivery or an
  acceptance, take both contacts to an agreement on the same offer and session.\<close>

theorem offers_progress:
  assumes "offers_start book t0 y"
    and "contact_session_ref (held_contact (offer_peers y Left)) = contact_session_ref (held_contact (offer_peers y Right))"
    and "list_all (offers_legal book) es" "\<not> list_ex gives_up es" "run_calls offers_exec es y = Some z"
    and said: "messages z u \<noteq> []"
    and up: "\<And>x. contact_state (held_contact (offer_peers z x)) \<noteq> MCL_CONTACT_STATE_CLOSED"
  shows "\<exists>fs z'. length fs \<le> 3 \<and> list_all calm_event fs \<and> run_calls offers_exec fs z = Some z'
    \<and> (\<exists>x w s. book (offer_ref w) = Some (x, w) \<and> agreed_pair w s t0 (migration_of x z'))"
proof -
  have "spec_session (view_of y x) = spec_session (view_of y Left)" for x
    using assms(2) by (cases x) (simp_all add: contact_abs_def)
  then have q: "(\<lambda>x. spec_session (view_of y x)) = (\<lambda>_. spec_session (view_of y Left))" by (rule ext)
  have "offers_inv book t0 z \<and> calm_inv (\<lambda>x. spec_session (view_of y x)) z" by (rule calm_run [OF assms(1,3-5)])
  then have inv: "offers_inv book t0 z" and calm: "calm_inv (\<lambda>_. spec_session (view_of y Left)) z"
    by (simp_all only: q)
  have "spec_phase (view_of z x) \<noteq> Closed" for x
    using phase_closed [OF offers_invD(1) [OF inv]] up by simp
  then have "within 3 z" using some_offer_stands [OF inv calm _ said] standing_concludes [OF inv calm] by blast
  then obtain fs z' where fs: "length fs \<le> 3" "list_all calm_event fs" "run_calls offers_exec fs z = Some z'" "both_agreed z'"
    unfolding within_def by blast
  have l: "list_all (\<lambda>e. offers_legal book e \<and> \<not> gives_up e) fs"
    using fs(2) unfolding list_all_iff by (metis calm_event.simps(3-5) gives_up.simps(2,3,4) offer_event.exhaust offers_legal.simps(2,3))
  have inv': "offers_inv book t0 z' \<and> calm_inv (\<lambda>_. spec_session (view_of y Left)) z'"
    using calm_offers.run_inv [OF conjI [OF inv calm] l fs(3)] .
  have "contact_state (held_contact (offer_peers z' x)) = 3" for x
    using fs(4) agreed_view [OF offers_invD(1) [OF conjunct1 [OF inv']]] by blast
  from agreed_pair_exists [OF conjunct1 [OF inv'] this disjI1 [OF conjunct2 [OF inv']]] fs(1-3) show ?thesis by blast
qed

lemma offers_progress_witness:
  "\<exists>z fs z' x w s. run_calls offers_exec [Make_Offer Left (offer_to 9 2), Make_Offer Right (offer_to 10 3)] sample_offers = Some z
    \<and> run_calls offers_exec fs z = Some z' \<and> length fs \<le> 3 \<and> agreed_pair w s 1 (migration_of x z')"
proof -
  let ?es = "[Make_Offer Left (offer_to 9 2), Make_Offer Right (offer_to 10 3)]"
  have l: "list_all (offers_legal sample_book) ?es" "\<not> list_ex gives_up ?es" by (simp_all add: sample_book_def offer_to_def)
  obtain z where z: "run_calls offers_exec ?es sample_offers = Some z" "messages z Left \<noteq> []"
      "contact_state (held_contact (offer_peers z Left)) = 2" "contact_state (held_contact (offer_peers z Right)) = 2"
    by (simp add: sample_offers_def fresh_pair_def contact_start_def offers_defs offer_to_def contact_defs
        contact_helpers Let_def del: One_nat_def)
  have s: "contact_session_ref (held_contact (offer_peers sample_offers Left)) = contact_session_ref (held_contact (offer_peers sample_offers Right))"
    by (simp add: sample_offers_def fresh_pair_def contact_start_def)
  have "contact_state (held_contact (offer_peers z x)) \<noteq> 7" for x using z(3,4) by (cases x) simp_all
  from offers_progress [OF sample_offers_start s l z(1,2) this] z(1) show ?thesis by blast
qed

section \<open>When an acceptance is lost\<close>

text \<open>A session reference stays until the contact is closed.\<close>

definition bound_to :: "(side \<Rightarrow> u32) \<Rightarrow> offer_system \<Rightarrow> bool" where
  "bound_to r y \<longleftrightarrow> (\<forall>x. spec_phase (view_of y x) = Closed \<or> spec_session (view_of y x) = Some (r x))"

lemma move_keeps_session:
  assumes "peer_move mine heard quits a own a' own' msgs" "spec_phase a = Closed \<or> spec_session a = Some s"
  shows "spec_phase a' = Closed \<or> spec_session a' = Some s"
  using assms by (cases rule: peer_move.cases) auto

lemma bound_stays:
  assumes "offers_inv book t0 y" "bound_to r y" "list_all (offers_legal book) es" "run_calls offers_exec es y = Some z"
  shows "bound_to r z"
proof (rule offers.run_stable [where P = "bound_to r", OF _ assms])
  fix y e z
  assume y: "offers_inv book t0 y" "bound_to r y" "offers_legal book e" "offers_exec e y = Some (MCL_LINK_OK, z)"
  then have "contacts_ok y" by (simp add: offers_inv_def)
  from offers_move [OF this y(3)] y(4) obtain x msgs where m: "system_move book (gives_up e) x msgs y z" by auto
  show "bound_to r z" unfolding bound_to_def
  proof (rule side_pair [where x = x])
    show "spec_phase (view_of z x) = Closed \<or> spec_session (view_of z x) = Some (r x)"
      using move_keeps_session [OF m [unfolded system_move_def, THEN conjunct1]] y(2) by (simp add: bound_to_def)
    show "spec_phase (view_of z (opposite x)) = Closed \<or> spec_session (view_of z (opposite x)) = Some (r (opposite x))"
      unfolding system_move_sets [OF m] using y(2) by (simp add: bound_to_def)
  qed
qed

lemma bound_apart:
  assumes "offers_inv book t0 z" "bound_to r z" "r Left \<noteq> r Right"
  shows "\<not> agreed_pair w s t (migration_of x z)"
    "contact_state (held_contact (offer_peers z x)) = 7 \<or> contact_session_ref (held_contact (offer_peers z x)) = r x"
proof -
  have b: "contact_state (held_contact (offer_peers z u)) = 7 \<or> contact_session_ref (held_contact (offer_peers z u)) = r u" for u
    using assms(2) phase_closed [OF offers_invD(1) [OF assms(1)], of u] by (auto simp: bound_to_def abs_session)
  show "contact_state (held_contact (offer_peers z x)) = 7 \<or> contact_session_ref (held_contact (offer_peers z x)) = r x" by (rule b)
  show "\<not> agreed_pair w s t (migration_of x z)"
    using b [of x] b [of "opposite x"] assms(3) by (cases x) (auto simp: agreed_pair_def migration_of_def)
qed

text \<open>
  The left peer offers, the right one accepts with session 7, the acceptance is lost, and both give up. The
  right peer offers, the left one, who is bound to nothing yet, accepts with session 8, the
  right one refuses that, and both give up again.
\<close>

definition splitting_events :: "offer_event list" where
  "splitting_events = [Make_Offer Left (offer_to 9 2), Deliver_Message Left 0, Accept_Offer Right 7, Give_Up Left, Give_Up Right,
     Make_Offer Right (offer_to 10 3), Deliver_Message Right 1, Accept_Offer Left 8, Deliver_Message Left 1,
     Give_Up Right, Give_Up Left]"

lemma splitting_run: "\<exists>y. run_calls offers_exec splitting_events sample_offers = Some y
    \<and> contact_state (held_contact (offer_peers y Left)) = 1 \<and> contact_session_ref (held_contact (offer_peers y Left)) = 8
    \<and> contact_state (held_contact (offer_peers y Right)) = 1 \<and> contact_session_ref (held_contact (offer_peers y Right)) = 7"
  by (simp add: splitting_events_def sample_offers_def fresh_pair_def contact_start_def offers_defs offer_to_def contact_defs
      contact_helpers Let_def del: One_nat_def)

lemma splitting_legal: "sample_book \<subseteq>\<^sub>m book \<Longrightarrow> list_all (offers_legal book) splitting_events"
  by (auto simp: splitting_events_def map_le_def sample_book_def offer_to_def split: if_splits)

text \<open>C39: one lost acceptance can end all migration between two contacts. The contact that has accepted
  keeps the session reference when the migration is given up, the one that has not heard of it is still
  bound to none and takes another one with the next offer. After that both are at rest on the
  old medium, bound to different references; and whatever offers are made and accepted
  afterwards, until one of them closes the contact both stay bound as they are and never again agree
  on the same offer.\<close>

theorem lost_acceptance_splits_sessions:
  "\<exists>y. run_calls offers_exec splitting_events sample_offers = Some y
    \<and> (\<forall>x. contact_state (held_contact (offer_peers y x)) = MCL_CONTACT_STATE_ACTIVE)
    \<and> (\<forall>book es z. sample_book \<subseteq>\<^sub>m book \<and> book 0 = None \<and> list_all (offers_legal book) es \<and> run_calls offers_exec es y = Some z
        \<longrightarrow> (\<forall>x. contact_state (held_contact (offer_peers z x)) = MCL_CONTACT_STATE_CLOSED
              \<or> contact_session_ref (held_contact (offer_peers z x)) = (case x of Left \<Rightarrow> 8 | Right \<Rightarrow> 7))
          \<and> (\<forall>x w s t. \<not> agreed_pair w s t (migration_of x z)))"
proof -
  let ?r = "\<lambda>x. case x of Left \<Rightarrow> 8 | Right \<Rightarrow> 7"
  obtain y where y: "run_calls offers_exec splitting_events sample_offers = Some y"
    "contact_state (held_contact (offer_peers y Left)) = 1" "contact_session_ref (held_contact (offer_peers y Left)) = 8"
    "contact_state (held_contact (offer_peers y Right)) = 1" "contact_session_ref (held_contact (offer_peers y Right)) = 7"
    using splitting_run by blast
  have rest: "contact_state (held_contact (offer_peers y x)) = 1" for x using y(2,4) by (cases x) simp_all
  have bound: "bound_to ?r y" using y(3,5) by (auto simp: bound_to_def abs_session split: side.splits)
  have after: "(\<forall>x. contact_state (held_contact (offer_peers z x)) = 7 \<or> contact_session_ref (held_contact (offer_peers z x)) = ?r x)
      \<and> (\<forall>x w s t. \<not> agreed_pair w s t (migration_of x z))"
    if "sample_book \<subseteq>\<^sub>m book" "book 0 = None" "list_all (offers_legal book) es" "run_calls offers_exec es y = Some z" for book es z
  proof -
    have "contact_completed_migration_ref (held_contact (fresh_pair x)) = 0" for x by (cases x) (simp_all add: fresh_pair_def contact_start_def)
    then have "offers_start book 1 sample_offers"
      using sample_offers_start that(2) by (simp add: offers_start_def sample_offers_def Let_def)
    then have inv: "offers_inv book 1 y"
      by (rule offers.run_inv [OF offers_inv_start(1) splitting_legal [OF that(1)] y(1)])
    have "offers_inv book 1 z" by (rule offers.run_inv [OF inv that(3,4)])
    then show ?thesis using bound_apart [OF _ bound_stays [OF inv bound that(3,4)]] by simp
  qed
  then show ?thesis using y(1) rest by blast
qed

definition later_events :: "offer_event list" where
  "later_events = [Make_Offer Left (offer_to 11 2), Deliver_Message Left 2, Accept_Offer Right 7, Deliver_Message Right 2]"

lemma lost_acceptance_splits_sessions_witness:
  "\<exists>z. run_calls offers_exec (splitting_events @ later_events) sample_offers = Some z
    \<and> contact_state (held_contact (offer_peers z Right)) = MCL_CONTACT_STATE_AGREED
    \<and> contact_session_ref (held_contact (offer_peers z Right)) = 7
    \<and> (\<forall>w s t. \<not> agreed_pair w s t (migration_of Right z))"
proof -
  obtain z where z: "run_calls offers_exec (splitting_events @ later_events) sample_offers = Some z"
    "contact_state (held_contact (offer_peers z Right)) = 3"
    by (simp add: splitting_events_def later_events_def sample_offers_def fresh_pair_def contact_start_def offers_defs
        offer_to_def contact_defs contact_helpers Let_def del: One_nat_def)
  let ?book = "sample_book(11 \<mapsto> (Left, offer_to 11 2))"
  have b: "sample_book \<subseteq>\<^sub>m ?book" "?book 0 = None" "list_all (offers_legal ?book) later_events"
    by (simp_all add: map_le_def sample_book_def later_events_def offer_to_def)
  obtain y where y: "run_calls offers_exec splitting_events sample_offers = Some y" "run_calls offers_exec later_events y = Some z"
    using z(1) by (auto simp: run_calls_append bind_eq_Some_conv)
  have "(\<forall>x. contact_state (held_contact (offer_peers z x)) = 7
        \<or> contact_session_ref (held_contact (offer_peers z x)) = (case x of Left \<Rightarrow> 8 | Right \<Rightarrow> 7))
      \<and> (\<forall>x w s t. \<not> agreed_pair w s t (migration_of x z))"
    using lost_acceptance_splits_sessions y b by (elim exE conjE) (simp only: option.inject simp_thms)
  then show ?thesis using z by (auto dest: spec [of _ Right])
qed

end
