(* ===== verification/Mcl_Continuity.thy ===== *)
theory Mcl_Continuity
  imports Mcl_Offers
begin

text \<open>
  The whole life of a contact between two peers: any number of migrations, offered by either, one after
  the other or given up half way, over one network that can delay a message of one migration into
  the next. It joins the offers of \<open>Mcl_Offers\<close> and the handoff controls of \<open>Mcl_Migration\<close>; the peer
  whose offer stands probes the path and commits.

  One thing decides whether this is safe: an offer with which a peer has already dealt may come to it again. \<open>contact.c\<close>
  remembers only the reference of the last completed migration, and \<open>contact.h\<close> asks for no more. The argument
  \<open>careful\<close> is False for the caller that hands every offer to the contact, and True for one that remembers
  all references and drops such an offer. The properties assume that the caller is careful or that
  no such offer arrives (\<open>replays\<close> tells whether one does); \<open>replayed_handoff\<close> is a run in which one does.

  The system refines a small protocol on nodes (medium, last migration, stage, known references) that
  exchange signals; its invariants are proved there.
\<close>

section \<open>One peer\<close>

record handoff_peer =
  offer_part :: offer_peer
  known_refs :: "u32 list"

datatype handoff_message =
    Offer_Message offer_message
  | Control_Body "byte list"

type_synonym handoff_result = "(mcl_link_status \<times> handoff_peer \<times> handoff_message list) option"

abbreviation peer_contact :: "handoff_peer \<Rightarrow> mcl_contact" where
  "peer_contact p \<equiv> held_contact (offer_part p)"

text \<open>An operation of \<open>Mcl_Offers\<close>, after which the references \<open>ms\<close> are known if it is accepted; and one on
  the contact alone.\<close>

definition by_offers :: "u32 list \<Rightarrow> (offer_peer \<Rightarrow> offer_result) \<Rightarrow> handoff_peer \<Rightarrow> handoff_result" where
  "by_offers ms f p = do {
     (st, q, msgs) \<leftarrow> f (offer_part p);
     Some (st, p\<lparr>offer_part := q, known_refs := (if st = MCL_LINK_OK then ms else []) @ known_refs p\<rparr>,
       map Offer_Message msgs) }"

definition by_contact ::
  "(mcl_contact \<Rightarrow> (mcl_link_status \<times> mcl_contact \<times> byte list list) option) \<Rightarrow> handoff_peer \<Rightarrow> handoff_result" where
  "by_contact f p = do {
     (st, c, bodies) \<leftarrow> f (peer_contact p);
     Some (st, p\<lparr>offer_part := (offer_part p)\<lparr>held_contact := c\<rparr>\<rparr>, map Control_Body bodies) }"

definition sending :: "byte list list \<Rightarrow> (mcl_link_status \<times> mcl_contact) option
    \<Rightarrow> (mcl_link_status \<times> mcl_contact \<times> byte list list) option" where
  "sending bodies r = do {
     (st, c) \<leftarrow> r;
     Some (st, c, if st = MCL_LINK_OK then bodies else []) }"

text \<open>A new offer has a reference that has not been used.\<close>

definition offer_handoff :: "offer \<Rightarrow> handoff_peer \<Rightarrow> handoff_result" where
  "offer_handoff w p =
    (if offer_ref w \<in> set (known_refs p) then Some (MCL_LINK_ERR_INVALID_ARGUMENT, p, [])
     else by_offers [offer_ref w] (make_offer w) p)"

text \<open>The peer whose offer stands sends the challenge and the commit.\<close>

definition probe_path :: "byte list \<Rightarrow> handoff_peer \<Rightarrow> handoff_result" where
  "probe_path ch p =
    (if \<not> offer_own (offer_part p) then Some (MCL_LINK_ERR_INVALID_STATE, p, [])
     else by_contact (\<lambda>c. sending [refs_of challenge_body c ch] (contact_exec (Validation_Begin ch) c)) p)"

definition send_commit :: "handoff_peer \<Rightarrow> handoff_result" where
  "send_commit p =
    (if \<not> offer_own (offer_part p) then Some (MCL_LINK_ERR_INVALID_STATE, p, [])
     else by_contact (\<lambda>c. sending [refs_of commit_body c] (contact_exec Commit_Begin c)) p)"

text \<open>A control is handed to the function for its operation; a stale offer is ignored by a careful caller.\<close>

definition receive_control :: "byte list \<Rightarrow> mcl_contact \<Rightarrow> (mcl_link_status \<times> mcl_contact \<times> byte list list) option" where
  "receive_control B c = (case handoff_accept B of
     None \<Rightarrow> Some (MCL_LINK_ERR_RANGE, c, [])
   | Some k \<Rightarrow>
       if control_operation k = MCL_HANDOFF_OP_PATH_CHALLENGE \<or> control_operation k = MCL_HANDOFF_OP_COMMIT
       then receive_b c B else quiet (receive_a c B))"

definition stale :: "offer \<Rightarrow> handoff_peer \<Rightarrow> bool" where
  "stale w p \<longleftrightarrow> offer_ref w \<in> set (known_refs p) \<and> offer_ref w \<noteq> contact_pending_migration_ref (peer_contact p)"

fun receive_handoff :: "bool \<Rightarrow> handoff_message \<Rightarrow> handoff_peer \<Rightarrow> handoff_result" where
  "receive_handoff careful (Offer_Message (Transport_Offer source w)) p =
    (if careful \<and> stale w p then Some (MCL_LINK_ERR_INVALID_STATE, p, [])
     else by_offers [offer_ref w] (receive_message (Transport_Offer source w)) p)"
| "receive_handoff careful (Offer_Message (Transport_Accept m t f s)) p =
     by_offers [] (receive_message (Transport_Accept m t f s)) p"
| "receive_handoff careful (Control_Body B) p = by_contact (receive_control B) p"

section \<open>The system\<close>

record handoff_system =
  handoff_peers :: "side \<Rightarrow> handoff_peer"
  wires :: "side \<Rightarrow> handoff_message list"

datatype handoff_event =
    Handoff_Offer side offer
  | Handoff_Accept side u32
  | Handoff_Probe side "byte list"
  | Handoff_Commit side
  | Handoff_Deliver side nat
  | Handoff_Foreign side "byte list"
  | Handoff_Give_Up side
  | Handoff_Close side

definition at_handoff_peer :: "side \<Rightarrow> (handoff_peer \<Rightarrow> handoff_result) \<Rightarrow> handoff_system
    \<Rightarrow> (mcl_link_status \<times> handoff_system) option" where
  "at_handoff_peer x f y = do {
     (st, p, msgs) \<leftarrow> f (handoff_peers y x);
     Some (st, y\<lparr>handoff_peers := (handoff_peers y)(x := p), wires := (wires y)(x := wires y x @ msgs)\<rparr>) }"

text \<open>A retransmission is a second delivery of the same message.\<close>

fun handoffs_exec :: "bool \<Rightarrow> (handoff_event, handoff_system) call_exec" where
  "handoffs_exec careful (Handoff_Offer x w) y = at_handoff_peer x (offer_handoff w) y"
| "handoffs_exec careful (Handoff_Accept x s) y = at_handoff_peer x (by_offers [] (accept_offer s)) y"
| "handoffs_exec careful (Handoff_Probe x ch) y = at_handoff_peer x (probe_path ch) y"
| "handoffs_exec careful (Handoff_Commit x) y = at_handoff_peer x send_commit y"
| "handoffs_exec careful (Handoff_Deliver x i) y =
    (if i < length (wires y x) then at_handoff_peer (opposite x) (receive_handoff careful (wires y x ! i)) y
     else Some (MCL_LINK_ERR_INVALID_ARGUMENT, y))"
| "handoffs_exec careful (Handoff_Foreign x B) y = at_handoff_peer x (receive_handoff careful (Control_Body B)) y"
| "handoffs_exec careful (Handoff_Give_Up x) y = at_handoff_peer x (by_offers [] give_up) y"
| "handoffs_exec careful (Handoff_Close x) y = at_handoff_peer x (by_offers [] close_peer) y"

text \<open>A run in which an offer comes to a peer that has dealt with it and no longer has it pending.\<close>

fun brings_stale :: "handoff_event \<Rightarrow> handoff_system \<Rightarrow> bool" where
  "brings_stale (Handoff_Deliver x i) y \<longleftrightarrow> i < length (wires y x) \<and> (case wires y x ! i of
     Offer_Message (Transport_Offer source w) \<Rightarrow> stale w (handoff_peers y (opposite x))
   | _ \<Rightarrow> False)"
| "brings_stale _ y \<longleftrightarrow> False"

primrec replays :: "handoff_event list \<Rightarrow> handoff_system \<Rightarrow> bool" where
  "replays [] y \<longleftrightarrow> False"
| "replays (e # es) y \<longleftrightarrow> brings_stale e y
     \<or> (case handoffs_exec False e y of None \<Rightarrow> False | Some (st, z) \<Rightarrow> replays es z)"

text \<open>The book as in \<open>Mcl_Offers\<close>; challenges have eight bytes; foreign bytes name no migration of the book.\<close>

fun handoffs_legal :: "offer_book \<Rightarrow> handoff_event \<Rightarrow> bool" where
  "handoffs_legal book (Handoff_Offer x w) \<longleftrightarrow> book (offer_ref w) = Some (x, w)"
| "handoffs_legal book (Handoff_Probe x ch) \<longleftrightarrow> 8 \<le> length ch"
| "handoffs_legal book (Handoff_Foreign x B) \<longleftrightarrow>
    (case handoff_accept B of None \<Rightarrow> True | Some c \<Rightarrow> book (control_migration_ref c) = None)"
| "handoffs_legal book _ \<longleftrightarrow> True"

section \<open>The protocol on nodes\<close>

datatype stage = Idle | Pending bool offer | Sealed offer | Shut

record node =
  node_medium :: byte
  node_done :: "u32 option"
  node_stage :: stage
  node_known :: "u32 set"

datatype signal = Offer_Signal offer | Commit_Signal u32 | Confirm_Signal u32

text \<open>\<open>Pending True\<close> is an own offer. \<open>Sealed\<close> is the state after the commit has been sent. The step \<open>replace\<close> needs two
  offers with one reference, which the book excludes.\<close>

inductive node_move :: "(offer \<Rightarrow> bool) \<Rightarrow> signal set \<Rightarrow> node \<Rightarrow> node \<Rightarrow> signal set \<Rightarrow> bool"
  for mine heard n where
  quiet: "node_move mine heard n n {}"
| learn: "node_known n \<subseteq> K \<Longrightarrow> node_move mine heard n (n\<lparr>node_known := K\<rparr>) {}"
| propose: "node_stage n = Idle \<Longrightarrow> mine w \<Longrightarrow> offer_ref w \<notin> node_known n
    \<Longrightarrow> node_move mine heard n (n\<lparr>node_stage := Pending True w, node_known := insert (offer_ref w) (node_known n)\<rparr>) {Offer_Signal w}"
| hear: "node_stage n = Idle \<or> node_stage n = Pending True v \<Longrightarrow> Offer_Signal w \<in> heard \<Longrightarrow> offer_ref w \<notin> node_known n
    \<Longrightarrow> node_move mine heard n (n\<lparr>node_stage := Pending False w, node_known := insert (offer_ref w) (node_known n)\<rparr>) {}"
| replace: "node_stage n = Pending True v \<Longrightarrow> Offer_Signal w \<in> heard \<Longrightarrow> offer_ref w = offer_ref v
    \<Longrightarrow> node_move mine heard n n' {}"
| drop: "node_stage n = Pending own w \<Longrightarrow> node_known n \<subseteq> K
    \<Longrightarrow> node_move mine heard n (n\<lparr>node_stage := Idle, node_known := K\<rparr>) {}"
| seal: "node_stage n = Pending True w
    \<Longrightarrow> node_move mine heard n (n\<lparr>node_stage := Sealed w\<rparr>) {Commit_Signal (offer_ref w)}"
| follow: "node_stage n = Pending own w \<Longrightarrow> Commit_Signal (offer_ref w) \<in> heard
    \<Longrightarrow> node_move mine heard n (n\<lparr>node_stage := Idle, node_medium := offer_transport w, node_done := Some (offer_ref w)\<rparr>)
      {Confirm_Signal (offer_ref w)}"
| finish: "node_stage n = Sealed w \<Longrightarrow> Confirm_Signal (offer_ref w) \<in> heard
    \<Longrightarrow> node_move mine heard n (n\<lparr>node_stage := Idle, node_medium := offer_transport w, node_done := Some (offer_ref w)\<rparr>) {}"
| again: "node_stage n = Idle \<Longrightarrow> node_done n = Some m \<Longrightarrow> Commit_Signal m \<in> heard
    \<Longrightarrow> node_move mine heard n n {Confirm_Signal m}"
| shut: "node_known n \<subseteq> K \<Longrightarrow> node_move mine heard n (n\<lparr>node_stage := Shut, node_known := K\<rparr>) {}"

section \<open>Its invariants\<close>

text \<open>
  \<open>x\<close> has sent \<open>S\<close> and may hear \<open>R\<close>, what the other one has sent, and signals that name no migration of the
  book. First, what \<open>x\<close> has in hand and what it has sent as the owner of an offer.
\<close>

definition foreign_signals :: "offer_book \<Rightarrow> signal set" where
  "foreign_signals book = {Commit_Signal m | m. book m = None} \<union> {Confirm_Signal m | m. book m = None}"

definition owner_ok :: "offer_book \<Rightarrow> side \<Rightarrow> node \<Rightarrow> signal set \<Rightarrow> bool" where
  "owner_ok book x n S \<longleftrightarrow>
     (case node_stage n of
       Pending own w \<Rightarrow> book (offer_ref w) = Some (if own then x else opposite x, w) \<and> offer_ref w \<in> node_known n
         \<and> (own \<longrightarrow> Commit_Signal (offer_ref w) \<notin> S)
     | Sealed w \<Rightarrow> book (offer_ref w) = Some (x, w) \<and> offer_ref w \<in> node_known n
     | _ \<Rightarrow> True)
     \<and> (\<forall>w. Offer_Signal w \<in> S \<longrightarrow> book (offer_ref w) = Some (x, w))
     \<and> (\<forall>m. Commit_Signal m \<in> S \<longrightarrow> m \<in> node_known n \<and> (\<exists>w. m = offer_ref w \<and> book m = Some (x, w)))"

text \<open>What it has sent as the other one: a confirmation follows a commit, and ends the migration for good.\<close>

definition answer_ok :: "offer_book \<Rightarrow> side \<Rightarrow> node \<Rightarrow> signal set \<Rightarrow> signal set \<Rightarrow> bool" where
  "answer_ok book x n S R \<longleftrightarrow>
     (\<forall>m. Confirm_Signal m \<in> S \<longrightarrow> (\<forall>w. book m \<noteq> Some (x, w))
       \<and> (book m \<noteq> None \<longrightarrow> Commit_Signal m \<in> R \<and> m \<in> node_known n \<and> (\<forall>own w. node_stage n = Pending own w \<longrightarrow> offer_ref w \<noteq> m)))
     \<and> (\<forall>m. node_done n = Some m \<longrightarrow> book m \<noteq> None \<longrightarrow> m \<in> node_known n
       \<and> (\<forall>own w. node_stage n = Pending own w \<longrightarrow> offer_ref w \<noteq> m)
       \<and> (\<forall>w. book m = Some (opposite x, w) \<longrightarrow> Commit_Signal m \<in> R))"

text \<open>A commit is in flight until it is confirmed, and a confirmed one is the last thing the other one, \<open>d\<close>, has done.\<close>

definition commit_ok :: "offer_book \<Rightarrow> side \<Rightarrow> node \<Rightarrow> signal set \<Rightarrow> signal set \<Rightarrow> node \<Rightarrow> bool" where
  "commit_ok book x n S R d \<longleftrightarrow>
     (\<forall>w. Commit_Signal (offer_ref w) \<in> S \<longrightarrow> book (offer_ref w) = Some (x, w)
       \<longrightarrow> node_stage n = Sealed w \<or> node_stage n = Shut \<or> Confirm_Signal (offer_ref w) \<in> R)
     \<and> (\<forall>w. node_stage n = Sealed w \<longrightarrow> Confirm_Signal (offer_ref w) \<in> R \<longrightarrow> node_done d = Some (offer_ref w))"

text \<open>The media: one peer may be ahead, on the medium to which the other is committing.\<close>

definition ahead :: "node \<Rightarrow> node \<Rightarrow> bool" where
  "ahead n d \<longleftrightarrow> (case node_stage n of Sealed w \<Rightarrow> node_done d = Some (offer_ref w) | _ \<Rightarrow> False)"

definition target_ok :: "node \<Rightarrow> node \<Rightarrow> bool" where
  "target_ok n d \<longleftrightarrow> (\<forall>w. node_stage n = Sealed w \<longrightarrow> node_done d = Some (offer_ref w) \<longrightarrow> node_medium d = offer_transport w)"

definition media_ok :: "node \<Rightarrow> node \<Rightarrow> bool" where
  "media_ok n d \<longleftrightarrow> target_ok n d \<and> target_ok d n \<and> \<not> (ahead n d \<and> ahead d n)
     \<and> (node_stage n \<noteq> Shut \<longrightarrow> node_stage d \<noteq> Shut \<longrightarrow> \<not> ahead n d \<longrightarrow> \<not> ahead d n \<longrightarrow> node_medium n = node_medium d)"

lemma media_ok_sym: "media_ok n d \<longleftrightarrow> media_ok d n"
  by (auto simp: media_ok_def)

definition nodes_ok :: "offer_book \<Rightarrow> (side \<Rightarrow> node) \<Rightarrow> (side \<Rightarrow> signal set) \<Rightarrow> bool" where
  "nodes_ok book n S \<longleftrightarrow> media_ok (n Left) (n Right) \<and> (\<forall>x. owner_ok book x (n x) (S x)
     \<and> answer_ok book x (n x) (S x) (S (opposite x)) \<and> commit_ok book x (n x) (S x) (S (opposite x)) (n (opposite x)))"

text \<open>What is heard of a migration in the book has been sent.\<close>

lemma heard_owner:
  assumes "owner_ok book (opposite x) d R"
  shows "Offer_Signal w \<in> R \<union> foreign_signals book \<Longrightarrow> book (offer_ref w) = Some (opposite x, w)"
    "Commit_Signal m \<in> R \<union> foreign_signals book \<Longrightarrow> book m \<noteq> None \<Longrightarrow> Commit_Signal m \<in> R \<and> (\<exists>w. book m = Some (opposite x, w))"
    "Confirm_Signal m \<in> R \<union> foreign_signals book \<Longrightarrow> book m \<noteq> None \<Longrightarrow> Confirm_Signal m \<in> R"
  using assms by (auto simp: owner_ok_def foreign_signals_def)

lemma own_or_other:
  assumes "owner_ok book x n S"
  shows "node_stage n = Pending own w \<Longrightarrow> book (offer_ref w) = Some (if own then x else opposite x, w) \<and> offer_ref w \<in> node_known n"
    "node_stage n = Sealed w \<Longrightarrow> book (offer_ref w) = Some (x, w) \<and> offer_ref w \<in> node_known n"
    "node_stage n = Pending True w \<Longrightarrow> Commit_Signal (offer_ref w) \<notin> S"
    "Commit_Signal m \<in> S \<Longrightarrow> m \<in> node_known n \<and> (\<exists>w. m = offer_ref w \<and> book m = Some (x, w))"
  using assms by (auto simp: owner_ok_def)

subsection \<open>They are kept\<close>

abbreviation node_step :: "offer_book \<Rightarrow> side \<Rightarrow> signal set \<Rightarrow> node \<Rightarrow> node \<Rightarrow> signal set \<Rightarrow> bool" where
  "node_step book x R \<equiv> node_move (\<lambda>w. book (offer_ref w) = Some (x, w)) (R \<union> foreign_signals book)"

text \<open>Two offers with one reference do not occur, and a peer never follows its own offer.\<close>

lemma no_replace:
  assumes "owner_ok book x n S" "owner_ok book (opposite x) d R" "node_stage n = Pending True v"
    and "Offer_Signal w \<in> R \<union> foreign_signals book" "offer_ref w = offer_ref v"
  shows False
  using own_or_other(1) [OF assms(1,3)] heard_owner(1) [OF assms(2,4)] assms(5) by simp

lemma follow_other:
  assumes "owner_ok book x n S" "owner_ok book (opposite x) d R" "node_stage n = Pending own w"
    and "Commit_Signal (offer_ref w) \<in> R \<union> foreign_signals book"
  shows "\<not> own" "book (offer_ref w) = Some (opposite x, w)" "Commit_Signal (offer_ref w) \<in> R"
proof -
  have b: "book (offer_ref w) = Some (if own then x else opposite x, w)" using own_or_other(1) [OF assms(1,3)] by simp
  with heard_owner(2) [OF assms(2,4)] show "\<not> own" "Commit_Signal (offer_ref w) \<in> R" by (auto split: if_splits)
  with b show "book (offer_ref w) = Some (opposite x, w)" by simp
qed

lemma finish_confirmed:
  assumes "owner_ok book x n S" "owner_ok book (opposite x) d R" "node_stage n = Sealed w"
    and "Confirm_Signal (offer_ref w) \<in> R \<union> foreign_signals book"
  shows "book (offer_ref w) = Some (x, w)" "Confirm_Signal (offer_ref w) \<in> R"
  using own_or_other(2) [OF assms(1,3)] heard_owner(3) [OF assms(2,4)] by simp_all

lemma step_keeps_owner:
  assumes "node_step book x R n n' out" and n: "owner_ok book x n S" and d: "owner_ok book (opposite x) d R"
  shows "owner_ok book x n' (S \<union> out)"
  using assms(1)
proof (cases rule: node_move.cases)
  case (replace v w)
  then show ?thesis using no_replace [OF n d] by blast
next
  case (hear v w)
  then show ?thesis using n heard_owner(1) [OF d hear(4)] by (auto simp: owner_ok_def)
qed (use n in \<open>auto simp: owner_ok_def split: stage.splits if_splits\<close>)

lemma step_keeps_answer:
  assumes "node_step book x R n n' out" and n: "owner_ok book x n S" and d: "owner_ok book (opposite x) d R"
    and a: "answer_ok book x n S R"
  shows "answer_ok book x n' (S \<union> out) R"
  using assms(1)
proof (cases rule: node_move.cases)
  case (replace v w)
  then show ?thesis using no_replace [OF n d] by blast
next
  case (follow own w)
  note f = follow_other [OF n d follow(3,4)]
  have "offer_ref w \<in> node_known n" using own_or_other(1) [OF n follow(3)] by simp
  then show ?thesis using a f follow(1,2) by (auto simp: answer_ok_def)
next
  case (finish w)
  note f = finish_confirmed [OF n d finish(3,4)]
  have "offer_ref w \<in> node_known n" using own_or_other(2) [OF n finish(3)] by simp
  then show ?thesis using a f finish(1,2) by (auto simp: answer_ok_def)
next
  case (again m)
  then show ?thesis using a heard_owner(2) [OF d again(5)] by (auto simp: answer_ok_def)
qed (use a in \<open>auto simp: answer_ok_def\<close>)

text \<open>An own offer that is still pending has not been committed to, so the other one has not answered it.\<close>

lemma pending_undone:
  assumes n: "owner_ok book x n S" and d: "answer_ok book (opposite x) d R S" and "node_stage n = Pending True w"
  shows "Confirm_Signal (offer_ref w) \<notin> R" "node_done d \<noteq> Some (offer_ref w)"
proof -
  have b: "book (offer_ref w) = Some (x, w)" "Commit_Signal (offer_ref w) \<notin> S"
    using own_or_other(1,3) [OF n assms(3)] by simp_all
  show "Confirm_Signal (offer_ref w) \<notin> R" using d b by (auto simp: answer_ok_def)
  show "node_done d \<noteq> Some (offer_ref w)" using d b by (auto simp: answer_ok_def)
qed

lemma step_keeps_commit:
  assumes "node_step book x R n n' out" and n: "owner_ok book x n S" and d: "owner_ok book (opposite x) d R"
    and da: "answer_ok book (opposite x) d R S" and c: "commit_ok book x n S R d"
  shows "commit_ok book x n' (S \<union> out) R d"
  using assms(1)
proof (cases rule: node_move.cases)
  case (replace v w)
  then show ?thesis using no_replace [OF n d] by blast
next
  case (seal w)
  have w: "book (offer_ref w) = Some (x, w)" "Confirm_Signal (offer_ref w) \<notin> R"
    using own_or_other(1) [OF n seal(3)] pending_undone [OF n da seal(3)] by simp_all
  have "node_stage n' = Sealed v \<or> Confirm_Signal (offer_ref v) \<in> R"
    if v: "Commit_Signal (offer_ref v) \<in> S \<union> out" "book (offer_ref v) = Some (x, v)" for v
  proof (cases "offer_ref v = offer_ref w")
    case True
    then have "v = w" using v(2) w(1) by (metis option.inject prod.inject)
    then show ?thesis using seal(1) by simp
  next
    case False
    then have "Commit_Signal (offer_ref v) \<in> S" using v(1) seal(2) by simp
    then show ?thesis using c v(2) seal(3) by (simp add: commit_ok_def)
  qed
  moreover have "v = w" if "node_stage n' = Sealed v" for v using that seal(1) by simp
  ultimately show ?thesis using w(2) unfolding commit_ok_def by blast
next
  case (finish w)
  then show ?thesis using c finish_confirmed [OF n d finish(3,4)] by (auto simp: commit_ok_def)
qed (use c in \<open>auto simp: commit_ok_def\<close>)

text \<open>When \<open>x\<close> follows a commit, the other one is committing to that or has closed.\<close>

lemma follow_sealed:
  assumes n: "owner_ok book x n S" and a: "answer_ok book x n S R" and d: "owner_ok book (opposite x) d R"
    and dc: "commit_ok book (opposite x) d R S n"
    and p: "node_stage n = Pending own w" "Commit_Signal (offer_ref w) \<in> R \<union> foreign_signals book"
  shows "node_stage d = Sealed w \<or> node_stage d = Shut" "Confirm_Signal (offer_ref w) \<notin> S" "node_done n \<noteq> Some (offer_ref w)"
proof -
  note f = follow_other [OF n d p]
  show c: "Confirm_Signal (offer_ref w) \<notin> S" using a f(2) p(1) by (auto simp: answer_ok_def)
  show "node_stage d = Sealed w \<or> node_stage d = Shut" using dc f(2,3) c by (auto simp: commit_ok_def)
  show "node_done n \<noteq> Some (offer_ref w)" using a f(2) p(1) by (auto simp: answer_ok_def)
qed

text \<open>The same for the other one, whose commits \<open>x\<close> answers.\<close>

lemma step_keeps_other_commit:
  assumes "node_step book x R n n' out" and n: "owner_ok book x n S" and a: "answer_ok book x n S R" and c: "commit_ok book x n S R d"
    and d: "owner_ok book (opposite x) d R" and dc: "commit_ok book (opposite x) d R S n" and m: "media_ok n d"
  shows "commit_ok book (opposite x) d R (S \<union> out) n'"
proof -
  have confirmed: "node_done n' = Some (offer_ref w)"
    if w: "node_stage d = Sealed w" "Confirm_Signal (offer_ref w) \<in> S \<union> out" for w
    using assms(1)
  proof (cases rule: node_move.cases)
    case (replace u v)
    then show ?thesis using no_replace [OF n d] by blast
  next
    case (follow own v)
    note f = follow_sealed [OF n a d dc follow(3,4)]
    then have "v = w" using w(1) by simp
    then show ?thesis using follow(1) by simp
  next
    case (finish v)
    then have "node_done d = Some (offer_ref v)"
      using c finish_confirmed [OF n d finish(3,4)] by (simp add: commit_ok_def)
    moreover have "node_done n = Some (offer_ref w)" using dc w finish(2) by (simp add: commit_ok_def)
    ultimately have "ahead n d \<and> ahead d n" using finish(3) w(1) by (simp add: ahead_def)
    then show ?thesis using m by (simp add: media_ok_def)
  qed (use dc w in \<open>auto simp: commit_ok_def\<close>)
  show ?thesis using dc confirmed by (auto simp: commit_ok_def)
qed

lemma step_keeps_media:
  assumes "node_step book x R n n' out" and n: "owner_ok book x n S" and a: "answer_ok book x n S R" and c: "commit_ok book x n S R d"
    and d: "owner_ok book (opposite x) d R" and da: "answer_ok book (opposite x) d R S" and dc: "commit_ok book (opposite x) d R S n"
    and m: "media_ok n d"
  shows "media_ok n' d"
  using assms(1)
proof (cases rule: node_move.cases)
  case (replace u v)
  then show ?thesis using no_replace [OF n d] by blast
next
  case (seal w)
  then show ?thesis using m pending_undone(2) [OF n da seal(3)]
    by (auto simp: media_ok_def target_ok_def ahead_def split: stage.splits)
next
  case (follow own w)
  note f = follow_sealed [OF n a d dc follow(3,4)]
  then show ?thesis using follow(1) by (auto simp: media_ok_def target_ok_def ahead_def)
next
  case (finish w)
  have b: "book (offer_ref w) = Some (x, w)" "Confirm_Signal (offer_ref w) \<in> R" by (rule finish_confirmed [OF n d finish(3,4)])+
  then have o: "node_done d = Some (offer_ref w)" using c finish(3) by (simp add: commit_ok_def)
  then have "node_medium d = offer_transport w" using m finish(3) by (simp add: media_ok_def target_ok_def)
  moreover have "offer_ref v \<noteq> offer_ref w" if "node_stage d = Sealed v" for v
    using own_or_other(2) [OF d that] b(1) by auto
  ultimately show ?thesis using finish(1) by (auto simp: media_ok_def target_ok_def ahead_def split: stage.splits)
qed (use m in \<open>auto simp: media_ok_def target_ok_def ahead_def split: stage.splits\<close>)

lemma answer_ok_mono: "answer_ok book x n S R \<Longrightarrow> R \<subseteq> R' \<Longrightarrow> answer_ok book x n S R'"
  by (auto simp: answer_ok_def)

lemma nodes_ok_step:
  assumes ok: "nodes_ok book n S" and step: "node_step book x (S (opposite x)) (n x) n' out"
  shows "nodes_ok book (n(x := n')) (S(x := S x \<union> out))"
proof -
  have i: "owner_ok book u (n u) (S u)" "answer_ok book u (n u) (S u) (S (opposite u))"
    "commit_ok book u (n u) (S u) (S (opposite u)) (n (opposite u))" for u
    using ok by (simp_all add: nodes_ok_def)
  note o = i [of "opposite x", unfolded opposite_simps]
  have m: "media_ok (n x) (n (opposite x))" using ok media_ok_sym by (cases x) (auto simp: nodes_ok_def)
  have "media_ok n' (n (opposite x))" by (rule step_keeps_media [OF step i o m])
  then have "media_ok ((n(x := n')) Left) ((n(x := n')) Right)" using media_ok_sym by (cases x) auto
  moreover have "owner_ok book u ((n(x := n')) u) ((S(x := S x \<union> out)) u)
      \<and> answer_ok book u ((n(x := n')) u) ((S(x := S x \<union> out)) u) ((S(x := S x \<union> out)) (opposite u))
      \<and> commit_ok book u ((n(x := n')) u) ((S(x := S x \<union> out)) u) ((S(x := S x \<union> out)) (opposite u)) ((n(x := n')) (opposite u))"
    if "u = x \<or> u = opposite x" for u
    using that
  proof
    assume "u = x"
    then show ?thesis
      using step_keeps_owner [OF step i(1) o(1)] step_keeps_answer [OF step i(1) o(1) i(2)]
        step_keeps_commit [OF step i(1) o(1,2) i(3)] by simp
  next
    assume "u = opposite x"
    then show ?thesis
      using o(1) answer_ok_mono [OF o(2)] step_keeps_other_commit [OF step i o(1,3) m] by simp
  qed
  ultimately show ?thesis unfolding nodes_ok_def using side_cases by blast
qed

section \<open>The code as the protocol\<close>

fun stage_of :: "bool \<Rightarrow> phase \<Rightarrow> stage" where
  "stage_of own Settled = Idle"
| "stage_of own (Offered w) = Pending own w"
| "stage_of own (Agreed w) = Pending own w"
| "stage_of own (Validating w ch) = Pending own w"
| "stage_of own (Validated w ch) = Pending own w"
| "stage_of own (Committing w ch) = Sealed w"
| "stage_of own Closed = Shut"

definition node_view :: "bool \<Rightarrow> u32 set \<Rightarrow> contact_spec \<Rightarrow> node" where
  "node_view own K a = \<lparr>node_medium = spec_transport a, node_done = spec_completed a,
     node_stage = stage_of own (spec_phase a), node_known = K\<rparr>"

abbreviation node_of :: "handoff_peer \<Rightarrow> node" where
  "node_of p \<equiv> node_view (offer_own (offer_part p)) (set (known_refs p)) (contact_abs (peer_contact p))"

fun signal_of :: "handoff_message \<Rightarrow> signal option" where
  "signal_of (Offer_Message (Transport_Offer source w)) = Some (Offer_Signal w)"
| "signal_of (Offer_Message (Transport_Accept m t f s)) = None"
| "signal_of (Control_Body B) = (case handoff_accept B of
     None \<Rightarrow> None
   | Some c \<Rightarrow>
       if control_operation c = MCL_HANDOFF_OP_COMMIT then Some (Commit_Signal (control_migration_ref c))
       else if control_operation c = MCL_HANDOFF_OP_CONFIRM then Some (Confirm_Signal (control_migration_ref c))
       else None)"

definition signals :: "handoff_message list \<Rightarrow> signal set" where
  "signals msgs = {sig. \<exists>msg \<in> set msgs. signal_of msg = Some sig}"

lemma signals_simps [simp]:
  "signals [] = {}"
  "signals (msg # msgs) = set_option (signal_of msg) \<union> signals msgs"
  "signals (msgs @ msgs') = signals msgs \<union> signals msgs'"
  by (auto simp: signals_def)

lemma body_signals:
  assumes "m \<noteq> 0" "s \<noteq> 0"
  shows "8 \<le> length ch \<Longrightarrow> signal_of (Control_Body (challenge_body m s ch)) = None"
    "8 \<le> length ch \<Longrightarrow> signal_of (Control_Body (response_body m s ch)) = None"
    "signal_of (Control_Body (commit_body m s)) = Some (Commit_Signal m)"
    "signal_of (Control_Body (confirm_body m s)) = Some (Confirm_Signal m)"
  using accept_bodies [OF assms] by (simp_all add: path_control_def plain_control_def)

text \<open>A result that is a step of the protocol, and changes nothing if it is a refusal.\<close>

definition goes_well :: "(offer \<Rightarrow> bool) \<Rightarrow> signal set \<Rightarrow> handoff_peer \<Rightarrow> handoff_result \<Rightarrow> bool" where
  "goes_well mine heard p r \<longleftrightarrow> (\<exists>st p' msgs. r = Some (st, p', msgs) \<and> contact_inv (peer_contact p')
     \<and> node_move mine heard (node_of p) (node_of p') (signals msgs)
     \<and> (st \<noteq> MCL_LINK_OK \<longrightarrow> p' = p \<and> msgs = []))"

lemma refusal_goes: "contact_inv (peer_contact p) \<Longrightarrow> st \<noteq> MCL_LINK_OK \<Longrightarrow> goes_well mine heard p (Some (st, p, []))"
  by (simp add: goes_well_def node_move.quiet)

text \<open>The offers. \<open>K\<close> is what is known afterwards.\<close>

lemma node_view_simps [simp]:
  "node_stage (node_view own K a) = stage_of own (spec_phase a)" "node_medium (node_view own K a) = spec_transport a"
  "node_done (node_view own K a) = spec_completed a" "node_known (node_view own K a) = K"
  by (simp_all add: node_view_def)

lemma node_learn: "K \<subseteq> K' \<Longrightarrow> node_move mine heard (node_view own K a) (node_view own K' a) {}"
  using node_move.learn [of "node_view own K a" K' mine heard] by (simp add: node_view_def)

lemma node_drop: "stage_of own (spec_phase a) = Pending own w \<Longrightarrow> K \<subseteq> K'
    \<Longrightarrow> node_move mine heard (node_view own K a) (node_view own' K' (a\<lparr>spec_phase := Settled\<rparr>)) {}"
  using node_move.drop [of "node_view own K a" own w K' mine heard] by (simp add: node_view_def)

lemma by_offers_goes:
  assumes "moves_well mine' heard' quits (offer_part p) (f (offer_part p))"
    and "\<And>a' own' msgs. peer_move mine' heard' quits (contact_view (offer_part p)) (offer_own (offer_part p)) a' own' msgs
      \<Longrightarrow> node_move mine heard (node_of p) (node_view own' (set ms \<union> set (known_refs p)) a') (signals (map Offer_Message msgs))"
    and "contact_inv (peer_contact p)"
  shows "goes_well mine heard p (by_offers ms f p)"
proof -
  obtain st q msgs where r: "f (offer_part p) = Some (st, q, msgs)" "contact_inv (held_contact q)"
    "peer_move mine' heard' quits (contact_view (offer_part p)) (offer_own (offer_part p)) (contact_view q) (offer_own q) msgs"
    "st \<noteq> MCL_LINK_OK \<Longrightarrow> q = offer_part p \<and> msgs = []"
    using assms(1) by (auto simp: moves_well_def)
  show ?thesis
  proof (cases "st = MCL_LINK_OK")
    case True
    then show ?thesis using r(1,2) assms(2) [OF r(3)] by (simp add: by_offers_def goes_well_def)
  next
    case False
    then show ?thesis using r(1,4) refusal_goes [OF assms(3) False] by (simp add: by_offers_def)
  qed
qed

text \<open>Operations that neither make nor hear an offer.\<close>

lemma plain_node_move:
  assumes "peer_move (\<lambda>_. False) heard' quits a own a' own' msgs" "\<And>source w. Transport_Offer source w \<notin> heard'"
  shows "node_move mine heard (node_view own K a) (node_view own' K a') (signals (map Offer_Message msgs))"
  using assms(1)
proof (cases rule: peer_move.cases)
  case quit
  then show ?thesis
  proof (cases "spec_phase a = Settled")
    case True
    then have "a' = a" using quit(1) by simp
    then show ?thesis using quit(2,3) by (simp add: node_learn)
  next
    case False
    then obtain w where "stage_of own (spec_phase a) = Pending own w" using quit(5,6) by (cases "spec_phase a") auto
    then show ?thesis using quit(1-3) node_drop by simp
  qed
next
  case close
  then show ?thesis using node_move.shut [of "node_view own K a" K mine heard] by (simp add: node_view_def)
qed (use assms(2) node_learn [of K K mine heard own a] in \<open>simp_all add: node_view_def\<close>)

lemma plain_goes:
  assumes "contact_inv (peer_contact p)"
  shows "goes_well mine heard p (by_offers [] (accept_offer s) p)" "goes_well mine heard p (by_offers [] give_up p)"
    "goes_well mine heard p (by_offers [] close_peer p)"
    "goes_well mine heard p (by_offers [] (receive_message (Transport_Accept m t f s)) p)"
proof -
  have none: "\<And>source w. Transport_Offer source w \<notin> {Transport_Accept m t f s}" by simp
  note g = by_offers_goes [OF _ _ assms, where mine = mine and heard = heard and ms = "[]"
      and mine' = "\<lambda>_. False" and quits = True and heard' = "{Transport_Accept m t f s}"]
  show "goes_well mine heard p (by_offers [] (accept_offer s) p)"
    by (rule g [where f = "accept_offer s", OF accept_offer_moves [OF assms]]) (use plain_node_move [OF _ none] in simp)
  show "goes_well mine heard p (by_offers [] give_up p)"
    by (rule g [where f = "give_up", OF leave_moves(1) [OF assms TrueI]]) (use plain_node_move [OF _ none] in simp)
  show "goes_well mine heard p (by_offers [] close_peer p)"
    by (rule g [where f = "close_peer", OF leave_moves(2) [OF assms]]) (use plain_node_move [OF _ none] in simp)
  show "goes_well mine heard p (by_offers [] (receive_message (Transport_Accept m t f s)) p)"
    by (rule g [where f = "receive_message (Transport_Accept m t f s)", OF receive_accept_moves [OF assms singletonI]]) (use plain_node_move [OF _ none] in simp)
qed

text \<open>Making an offer, and hearing one that is not stale.\<close>

lemma make_node_move:
  assumes "peer_move (\<lambda>v. v = w \<and> mine w) {} False a own a' own' msgs" "offer_ref w \<notin> K"
  shows "node_move mine heard (node_view own K a) (node_view own' (insert (offer_ref w) K) a') (signals (map Offer_Message msgs))"
  using assms(1)
proof (cases rule: peer_move.cases)
  case (make v)
  then show ?thesis using node_move.propose [of "node_view own K a" mine w heard] assms(2) by (simp add: node_view_def)
next
  case close
  then show ?thesis using node_move.shut [of "node_view own K a" "insert (offer_ref w) K" mine heard] by (auto simp: node_view_def)
qed (use node_learn [of K "insert (offer_ref w) K" mine heard own a] in \<open>auto simp: node_view_def\<close>)

lemma hear_node_move:
  assumes "peer_move (\<lambda>_. False) {Transport_Offer source w} False a own a' own' msgs" and heard: "Offer_Signal w \<in> heard"
    and fresh: "offer_ref w \<in> K \<Longrightarrow> offer_ref w \<noteq> 0 \<Longrightarrow> \<exists>v. phase_offer (spec_phase a) = Some v \<and> offer_ref v = offer_ref w"
  shows "node_move mine heard (node_view own K a) (node_view own' (insert (offer_ref w) K) a') (signals (map Offer_Message msgs))"
  using assms(1)
proof (cases rule: peer_move.cases)
  case (hear _ v)
  then have "v = w" "offer_ref w \<notin> K" using fresh by (auto simp: offer_named_def)
  then show ?thesis using hear node_move.hear [of "node_view own K a" v w heard mine] heard by (simp add: node_view_def)
next
  case (yield v _ u)
  then have u: "u = w" by simp
  show ?thesis
  proof (cases "offer_ref w \<in> K")
    case True
    then have "offer_ref w = offer_ref v" using fresh yield(4,7) u by (auto simp: offer_named_def)
    then show ?thesis using yield node_move.replace [of "node_view own K a" v w heard mine] heard by simp
  next
    case False
    then show ?thesis using yield u node_move.hear [of "node_view own K a" v w heard mine] heard by (simp add: node_view_def)
  qed
next
  case (tie v _ u)
  then have "stage_of own (spec_phase a) = Pending own v" by simp
  then show ?thesis using tie(1,3) node_drop [of own a v K "insert (offer_ref w) K"] by auto
next
  case close
  then show ?thesis using node_move.shut [of "node_view own K a" "insert (offer_ref w) K" mine heard] by (auto simp: node_view_def)
qed (use node_learn [of K "insert (offer_ref w) K" mine heard own a] in \<open>auto simp: node_view_def\<close>)

lemma offer_handoff_goes:
  assumes inv: "contact_inv (peer_contact p)" and "mine w"
  shows "goes_well mine heard p (offer_handoff w p)"
proof (cases "offer_ref w \<in> set (known_refs p)")
  case False
  have "goes_well mine heard p (by_offers [offer_ref w] (make_offer w) p)"
  proof (rule by_offers_goes [where f = "make_offer w", OF _ _ inv])
    show "moves_well (\<lambda>v. v = w \<and> mine w) {} False (offer_part p) (make_offer w (offer_part p))"
      by (rule make_offer_moves [OF inv]) (simp add: assms(2))
  qed (use make_node_move [OF _ False] in simp)
  then show ?thesis using False by (simp add: offer_handoff_def)
qed (simp add: offer_handoff_def refusal_goes [OF inv])

text \<open>An offer that is not stale is pending, if it is known at all.\<close>

lemma not_stale:
  assumes inv: "contact_inv (peer_contact p)" and "\<not> stale w p" "offer_ref w \<in> set (known_refs p)" "offer_ref w \<noteq> 0"
  shows "\<exists>v. phase_offer (spec_phase (contact_abs (peer_contact p))) = Some v \<and> offer_ref v = offer_ref w"
proof -
  have r: "offer_ref (pending_offer (peer_contact p)) = offer_ref w" using assms(2,3) by (simp add: stale_def pending_offer_def)
  then have "contact_pending_migration_ref (peer_contact p) \<noteq> 0" using assms(4) by (simp add: pending_offer_def)
  then have "migrating (peer_contact p)" using inv by (auto simp: contact_inv_def split: if_splits)
  then have "phase_offer (phase_of (peer_contact p)) = Some (pending_offer (peer_contact p))"
    by (auto simp: migrating_def phase_state)
  then show ?thesis using r by simp
qed

lemma receive_offer_goes:
  assumes inv: "contact_inv (peer_contact p)" and heard: "signals [Offer_Message msg] \<subseteq> heard"
  shows "goes_well mine heard p (receive_handoff True (Offer_Message msg) p)"
proof (cases msg)
  case (Transport_Offer source w)
  show ?thesis
  proof (cases "stale w p")
    case False
    have h: "Offer_Signal w \<in> heard" using heard Transport_Offer by simp
    have "goes_well mine heard p (by_offers [offer_ref w] (receive_message (Transport_Offer source w)) p)"
    proof (rule by_offers_goes [where f = "receive_message (Transport_Offer source w)", OF _ _ inv])
      show "moves_well (\<lambda>_. False) {Transport_Offer source w} False (offer_part p) (receive_message (Transport_Offer source w) (offer_part p))"
        by (rule receive_moves [OF inv]) simp
    qed (use hear_node_move [OF _ h not_stale [OF inv False]] in simp)
    then show ?thesis using Transport_Offer False by simp
  qed (use Transport_Offer refusal_goes [OF inv] in simp)
qed (use plain_goes(4) [OF inv] in \<open>simp del: receive_message.simps\<close>)

text \<open>The handoff controls. An operation on the contact keeps the mark and the known references.\<close>

lemma by_contact_goes:
  assumes "f (peer_contact p) = Some (st, c, bodies)" "contact_inv c"
    and "node_move mine heard (node_of p) (node_view (offer_own (offer_part p)) (set (known_refs p)) (contact_abs c))
      (signals (map Control_Body bodies))"
    and "st \<noteq> MCL_LINK_OK \<Longrightarrow> c = peer_contact p \<and> bodies = []"
  shows "goes_well mine heard p (by_contact f p)"
  using assms by (auto simp: goes_well_def by_contact_def)

lemma same_stage:
  assumes "spec_transport b = spec_transport a" "spec_completed b = spec_completed a"
    and "stage_of own (spec_phase b) = stage_of own (spec_phase a)"
  shows "node_move mine heard (node_view own K a) (node_view own K b) {}"
  using assms node_learn [of K K mine heard own a] by (simp add: node_view_def)

lemma session_nz:
  assumes "contact_inv c" "phase_offer (spec_phase (contact_abs c)) = Some w"
  shows "offer_ref w = contact_pending_migration_ref c" "offer_ref w \<noteq> 0"
    "contact_state c \<noteq> 2 \<Longrightarrow> contact_session_ref c \<noteq> 0"
proof -
  have "contact_state c \<in> {2, 3, 4, 5, 6} \<and> w = pending_offer c"
    using assms by (cases rule: state_cases [OF assms(1)]) (auto simp: phase_state)
  then show "offer_ref w = contact_pending_migration_ref c" "offer_ref w \<noteq> 0" "contact_state c \<noteq> 2 \<Longrightarrow> contact_session_ref c \<noteq> 0"
    using inv_pending_nz [OF assms(1)] inv_session_nz [OF assms(1)] by (auto simp: pending_offer_def)
qed

text \<open>An accepted or refused call, seen from the specification.\<close>

lemma call_result:
  assumes "contact_inv c" "contact_legal call"
  obtains st c' where "contact_exec call c = Some (st, c')" "contact_inv c'"
    "contact_spec_exec call (contact_abs c) = (st, contact_abs c')" "st \<noteq> MCL_LINK_OK \<Longrightarrow> c' = c"
  using contact.exec_safe [OF assms] contact.exec_inv [OF assms] contact_refines [OF assms] contact.exec_refused [OF assms]
  by blast

lemma sending_goes:
  assumes inv: "contact_inv (peer_contact p)" and legal: "contact_legal call"
    and move: "\<And>x. contact_spec_exec call (contact_abs (peer_contact p)) = (MCL_LINK_OK, x) \<Longrightarrow>
      node_move mine heard (node_of p) (node_view (offer_own (offer_part p)) (set (known_refs p)) x)
        (signals (map Control_Body (g (peer_contact p))))"
  shows "goes_well mine heard p (by_contact (\<lambda>c. sending (g c) (contact_exec call c)) p)"
proof -
  obtain st c' where r: "contact_exec call (peer_contact p) = Some (st, c')" "contact_inv c'"
    "contact_spec_exec call (contact_abs (peer_contact p)) = (st, contact_abs c')" "st \<noteq> MCL_LINK_OK \<Longrightarrow> c' = peer_contact p"
    using call_result [OF inv legal] by blast
  note goes = by_contact_goes [where f = "\<lambda>c. sending (g c) (contact_exec call c)" and st = st, OF _ r(2)]
  show ?thesis
  proof (cases "st = MCL_LINK_OK")
    case True
    show ?thesis
      by (rule goes [where bodies = "g (peer_contact p)"])
        (use r True move in \<open>simp_all add: sending_def del: contact_exec.simps contact_spec_exec.simps signal_of.simps\<close>)
  next
    case False
    show ?thesis
      by (rule goes [where bodies = "[]"])
        (use r False in \<open>simp_all add: sending_def same_stage del: contact_exec.simps\<close>)
  qed
qed

lemma quiet_sending: "quiet r = sending [] r"
  by (cases r) (auto simp: quiet_def sending_def)

lemma probe_path_goes:
  assumes inv: "contact_inv (peer_contact p)" and ch: "8 \<le> length ch"
  shows "goes_well mine heard p (probe_path ch p)"
proof (cases "offer_own (offer_part p)")
  case True
  let ?c = "peer_contact p"
  have "goes_well mine heard p (by_contact (\<lambda>c. sending [refs_of challenge_body c ch] (contact_exec (Validation_Begin ch) c)) p)"
  proof (rule sending_goes [where g = "\<lambda>c. [refs_of challenge_body c ch]", OF inv])
    show "contact_legal (Validation_Begin ch)" using ch by simp
    fix x assume "contact_spec_exec (Validation_Begin ch) (contact_abs ?c) = (MCL_LINK_OK, x)"
    then obtain w where w: "spec_phase (contact_abs ?c) = Agreed w" "x = (contact_abs ?c)\<lparr>spec_phase := Validating w (take 8 ch)\<rparr>"
      by (auto simp: spec_challenge_def split: phase.splits)
    then have "contact_state ?c \<noteq> 2" by (auto simp: phase_state)
    moreover have "phase_offer (spec_phase (contact_abs ?c)) = Some w" using w(1) by simp
    ultimately have "contact_pending_migration_ref ?c \<noteq> 0" "contact_session_ref ?c \<noteq> 0"
      using session_nz [OF inv] by metis+
    then have "signals [Control_Body (refs_of challenge_body ?c ch)] = {}"
      using body_signals(1) ch by (simp add: refs_of_def del: signal_of.simps)
    then show "node_move mine heard (node_of p) (node_view (offer_own (offer_part p)) (set (known_refs p)) x)
        (signals (map Control_Body [refs_of challenge_body ?c ch]))"
      using w by (simp add: same_stage del: signals_simps(2))
  qed
  then show ?thesis using True by (simp add: probe_path_def del: contact_exec.simps)
qed (simp add: probe_path_def refusal_goes [OF inv])

lemma send_commit_goes:
  assumes inv: "contact_inv (peer_contact p)"
  shows "goes_well mine heard p (send_commit p)"
proof (cases "offer_own (offer_part p)")
  case True
  let ?c = "peer_contact p" and ?K = "set (known_refs p)"
  have "goes_well mine heard p (by_contact (\<lambda>c. sending [refs_of commit_body c] (contact_exec Commit_Begin c)) p)"
  proof (rule sending_goes [where g = "\<lambda>c. [refs_of commit_body c]", OF inv])
    show "contact_legal Commit_Begin" by simp
    fix x assume "contact_spec_exec Commit_Begin (contact_abs ?c) = (MCL_LINK_OK, x)"
    then obtain w ch where w: "spec_phase (contact_abs ?c) = Validated w ch" "x = (contact_abs ?c)\<lparr>spec_phase := Committing w ch\<rparr>"
      by (auto simp: spec_commit_def split: phase.splits)
    then have "contact_state ?c \<noteq> 2" by (auto simp: phase_state)
    moreover have "phase_offer (spec_phase (contact_abs ?c)) = Some w" using w(1) by simp
    ultimately have nz: "contact_pending_migration_ref ?c \<noteq> 0" "contact_session_ref ?c \<noteq> 0" "offer_ref w = contact_pending_migration_ref ?c"
      using session_nz [OF inv] by metis+
    then have "signals [Control_Body (refs_of commit_body ?c)] = {Commit_Signal (offer_ref w)}"
      using body_signals(3) by (simp add: refs_of_def del: signal_of.simps)
    moreover have "node_view True ?K x = (node_view True ?K (contact_abs ?c))\<lparr>node_stage := Sealed w\<rparr>"
      using w(2) by (simp add: node_view_def)
    moreover have "node_stage (node_view True ?K (contact_abs ?c)) = Pending True w" using w(1) by simp
    ultimately show "node_move mine heard (node_of p) (node_view (offer_own (offer_part p)) ?K x)
        (signals (map Control_Body [refs_of commit_body ?c]))"
      using True node_move.seal [of "node_of p" w mine heard] by (simp del: signals_simps(2))
  qed
  then show ?thesis using True by (simp add: send_commit_def del: contact_exec.simps)
qed (simp add: send_commit_def refusal_goes [OF inv])

lemma confirm_moves:
  assumes "contact_spec_exec (Commit_Confirm m s) a = (MCL_LINK_OK, x)" "Confirm_Signal m \<in> heard"
  shows "node_move mine heard (node_view own K a) (node_view own K x) {}"
proof -
  consider "x = a" | w ch where "spec_phase a = Committing w ch" "m = offer_ref w" "x = spec_settle w a"
    using assms(1) by (auto simp: spec_confirm_def split: phase.splits if_splits)
  then show ?thesis
    using node_move.finish [of "node_view own K a" _ heard mine] assms(2)
    by cases (simp_all add: same_stage node_view_def spec_settle_def node_move.quiet)
qed

text \<open>A response changes no stage; a confirmation finishes the migration that has been committed to.\<close>

lemma receive_a_goes:
  assumes inv: "contact_inv (peer_contact p)" and k: "handoff_accept B = Some k" and heard: "signals [Control_Body B] \<subseteq> heard"
  shows "goes_well mine heard p (by_contact (\<lambda>c. quiet (receive_a c B)) p)"
proof -
  let ?a = "contact_abs (peer_contact p)" and ?m = "control_migration_ref k" and ?s = "control_session_ref k"
  let ?own = "offer_own (offer_part p)" and ?K = "set (known_refs p)"
  consider (response) "control_operation k = 2" | (confirm) "control_operation k = 4"
    | (other) "control_operation k \<noteq> 2" "control_operation k \<noteq> 4" by blast
  then show ?thesis
  proof cases
    case response
    have "goes_well mine heard p (by_contact (\<lambda>c. sending [] (contact_exec (Validation_Response ?m ?s (control_challenge k)) c)) p)"
    proof (rule sending_goes [where g = "\<lambda>c. []", OF inv])
      show "contact_legal (Validation_Response ?m ?s (control_challenge k))" using accepted_shape(3) [OF k] by simp
      fix x assume "contact_spec_exec (Validation_Response ?m ?s (control_challenge k)) ?a = (MCL_LINK_OK, x)"
      then show "node_move mine heard (node_of p) (node_view ?own ?K x) (signals (map Control_Body []))"
        by (auto simp: spec_response_def same_stage split: phase.splits if_splits)
    qed
    then show ?thesis using response k by (simp add: receive_a_def quiet_sending del: contact_exec.simps)
  next
    case confirm
    then have h: "Confirm_Signal ?m \<in> heard" using heard k by simp
    have "goes_well mine heard p (by_contact (\<lambda>c. sending [] (contact_exec (Commit_Confirm ?m ?s) c)) p)"
    proof (rule sending_goes [where g = "\<lambda>c. []", OF inv])
      fix x assume x: "contact_spec_exec (Commit_Confirm ?m ?s) ?a = (MCL_LINK_OK, x)"
      show "node_move mine heard (node_of p) (node_view ?own ?K x) (signals (map Control_Body []))"
        using confirm_moves [OF x h] by simp
    qed simp
    then show ?thesis using confirm k by (simp add: receive_a_def quiet_sending del: contact_exec.simps)
  next
    case other
    then have "by_contact (\<lambda>c. quiet (receive_a c B)) p = Some (MCL_LINK_ERR_INVALID_STATE, p, [])"
      using k by (simp add: receive_a_def quiet_def by_contact_def)
    then show ?thesis using refusal_goes [OF inv] by simp
  qed
qed

text \<open>A challenge changes no stage, and a commit that is accepted or answered again is confirmed.\<close>

lemma challenge_echoed:
  assumes inv: "contact_inv c" and agreed: "contact_state c = 3"
    and refs: "m = contact_pending_migration_ref c \<and> s = contact_session_ref c" and nz: "s \<noteq> 0" and ch: "8 \<le> length ch"
  shows "\<exists>c2. receive_challenge c m s ch = Some (MCL_LINK_OK, c2, [response_body m s ch]) \<and> contact_inv c2
    \<and> contact_abs c2 = (contact_abs c)\<lparr>spec_phase := Validated (pending_offer c) (take 8 ch)\<rparr>"
proof -
  obtain c1 where c1: "contact_exec (Validation_Begin ch) c = Some (MCL_LINK_OK, c1)" "contact_inv c1"
      "contact_abs c1 = (contact_abs c)\<lparr>spec_phase := Validating (pending_offer c) (take 8 ch)\<rparr>"
    using contact_does [OF inv, of "Validation_Begin ch"] ch phase_agreed [OF inv agreed] by (force simp: spec_challenge_def)
  have "contact_spec_exec (Validation_Response m s ch) (contact_abs c1)
      = (MCL_LINK_OK, (contact_abs c)\<lparr>spec_phase := Validated (pending_offer c) (take 8 ch)\<rparr>)"
    using refs nz inv_session [OF inv] by (simp add: c1(3) spec_response_def pending_offer_def abs_session)
  then obtain c2 where c2: "contact_exec (Validation_Response m s ch) c1 = Some (MCL_LINK_OK, c2)"
      "contact_inv c2" "contact_abs c2 = (contact_abs c)\<lparr>spec_phase := Validated (pending_offer c) (take 8 ch)\<rparr>"
    using contact_does [OF c1(2)] ch by (metis contact_legal.simps(2))
  then show ?thesis using agreed refs c1(1) by (simp add: receive_challenge_def del: contact_exec.simps)
qed

lemma receive_challenge_goes:
  assumes inv: "contact_inv (peer_contact p)" and ch: "8 \<le> length ch" and nz: "m \<noteq> 0" "s \<noteq> 0"
  shows "goes_well mine heard p (by_contact (\<lambda>c. receive_challenge c m s ch) p)"
proof -
  let ?c = "peer_contact p" and ?own = "offer_own (offer_part p)" and ?K = "set (known_refs p)"
  note goes = by_contact_goes [where f = "\<lambda>c. receive_challenge c m s ch"]
  have same: "node_move mine heard (node_of p) (node_of p) {}" by (rule same_stage) simp_all
  have stay: "receive_challenge ?c m s ch = Some (st, ?c, []) \<Longrightarrow> goes_well mine heard p (by_contact (\<lambda>c. receive_challenge c m s ch) p)" for st
    using goes [OF _ inv, where bodies = "[]"] same by simp
  have answer: "goes_well mine heard p (by_contact (\<lambda>c. receive_challenge c m s ch) p)"
    if "receive_challenge ?c m s ch = Some (MCL_LINK_OK, ?c, [response_body m s ch])"
    using goes [OF that inv] same body_signals(2) [OF nz ch] by (simp del: signal_of.simps)
  show ?thesis
  proof (cases "contact_state ?c = 3")
    case agreed: True
    note ph = phase_agreed [OF inv agreed]
    show ?thesis
    proof (cases "m = contact_pending_migration_ref ?c \<and> s = contact_session_ref ?c")
      case refs: True
      obtain c2 where r: "receive_challenge ?c m s ch = Some (MCL_LINK_OK, c2, [response_body m s ch])" and c2: "contact_inv c2"
        "contact_abs c2 = (contact_abs ?c)\<lparr>spec_phase := Validated (pending_offer ?c) (take 8 ch)\<rparr>"
        using challenge_echoed [OF inv agreed refs nz(2) ch] by blast
      have "node_move mine heard (node_of p) (node_view ?own ?K (contact_abs c2)) {}"
        by (rule same_stage) (use ph in \<open>simp_all add: c2(2)\<close>)
      then show ?thesis using goes [OF r c2(1)] body_signals(2) [OF nz ch] by (simp del: signal_of.simps)
    next
      case False
      with agreed show ?thesis by (intro stay [of MCL_LINK_ERR_CONTEXT_MISMATCH]) (simp add: receive_challenge_def)
    qed
  next
    case False
    then have "receive_challenge ?c m s ch = Some (if echoed m s ch (contact_abs ?c)
        then (MCL_LINK_OK, ?c, [response_body m s ch]) else (MCL_LINK_ERR_INVALID_STATE, ?c, []))"
      using challenge_repeat_eq [OF inv ch, of m s 0] by (simp add: receive_challenge_def)
    then show ?thesis
      using answer stay [of MCL_LINK_ERR_INVALID_STATE] by (cases "echoed m s ch (contact_abs ?c)") simp_all
  qed
qed

lemma receive_commit_goes:
  assumes inv: "contact_inv (peer_contact p)" and nz: "m \<noteq> 0" "s \<noteq> 0" and heard: "Commit_Signal m \<in> heard"
  shows "goes_well mine heard p (by_contact (\<lambda>c. receive_commit c m s) p)"
proof -
  let ?c = "peer_contact p" and ?own = "offer_own (offer_part p)" and ?K = "set (known_refs p)"
  note goes = by_contact_goes [where f = "\<lambda>c. receive_commit c m s"]
  have l: "contact_legal (Commit_Accept m s)" by simp
  obtain st c1 where c1: "contact_exec (Commit_Accept m s) ?c = Some (st, c1)" "contact_inv c1"
      "contact_spec_exec (Commit_Accept m s) (contact_abs ?c) = (st, contact_abs c1)"
    using call_result [OF inv l] by blast
  show ?thesis
  proof (cases "st = MCL_LINK_OK")
    case True
    then obtain w ch where w: "spec_phase (contact_abs ?c) = Validated w ch" "m = offer_ref w"
        "contact_abs c1 = spec_settle w (contact_abs ?c)"
      using c1(3) by (auto simp: spec_accept_def split: phase.splits if_splits)
    have r: "receive_commit ?c m s = Some (MCL_LINK_OK, c1, [confirm_body m s])"
      using c1(1) True by (simp add: receive_commit_def del: contact_exec.simps)
    have "node_move mine heard (node_of p) (node_view ?own ?K (contact_abs c1)) {Confirm_Signal m}"
      using w heard node_move.follow [of "node_of p" ?own w heard mine] by (simp add: node_view_def spec_settle_def)
    then show ?thesis using goes [OF r c1(2)] body_signals(4) [OF nz] by (simp del: signal_of.simps)
  next
    case refused: False
    then have r: "receive_commit ?c m s = Some (if settled_with m s (contact_abs ?c)
        then (MCL_LINK_OK, ?c, [confirm_body m s]) else (st, ?c, []))"
      using c1(1) commit_repeat_eq [OF inv, of m s 0] by (simp add: receive_commit_def Let_def del: contact_exec.simps)
    show ?thesis
    proof (cases "settled_with m s (contact_abs ?c)")
      case True
      then have "node_move mine heard (node_of p) (node_of p) {Confirm_Signal m}"
        by (intro node_move.again) (use heard in \<open>simp_all add: settled_with_def\<close>)
      moreover have "receive_commit ?c m s = Some (MCL_LINK_OK, ?c, [confirm_body m s])" using r True by simp
      ultimately show ?thesis
        using goes [where p = p and c = ?c and st = MCL_LINK_OK and bodies = "[confirm_body m s]", OF _ inv]
          body_signals(4) [OF nz] by (simp del: signal_of.simps)
    next
      case False
      with r refused show ?thesis using refusal_goes [OF inv refused] by (simp add: by_contact_def)
    qed
  qed
qed

lemma receive_control_goes:
  assumes inv: "contact_inv (peer_contact p)" and heard: "signals [Control_Body B] \<subseteq> heard"
  shows "goes_well mine heard p (by_contact (receive_control B) p)"
proof (cases "handoff_accept B")
  case None
  then show ?thesis using refusal_goes [OF inv] by (simp add: by_contact_def receive_control_def)
next
  case (Some k)
  note shape = accepted_shape [OF Some]
  consider (challenge) "control_operation k = 1" | (commit) "control_operation k = 3"
    | (other) "control_operation k \<noteq> 1" "control_operation k \<noteq> 3" by blast
  then show ?thesis
  proof cases
    case challenge
    then have "receive_control B = (\<lambda>c. receive_challenge c (control_migration_ref k) (control_session_ref k) (control_challenge k))"
      using Some by (simp add: receive_control_def receive_b_def fun_eq_iff)
    then show ?thesis using receive_challenge_goes [OF inv _ shape(1,2), of "control_challenge k"] shape(3) by simp
  next
    case commit
    then have "receive_control B = (\<lambda>c. receive_commit c (control_migration_ref k) (control_session_ref k))"
      using Some by (simp add: receive_control_def receive_b_def fun_eq_iff)
    then show ?thesis using receive_commit_goes [OF inv shape(1,2)] heard commit Some by simp
  next
    case other
    then have "receive_control B = (\<lambda>c. quiet (receive_a c B))"
      using Some by (simp add: receive_control_def fun_eq_iff)
    then show ?thesis using receive_a_goes [OF inv Some heard] by simp
  qed
qed

section \<open>Runs\<close>

abbreviation nodes_of :: "handoff_system \<Rightarrow> side \<Rightarrow> node" where
  "nodes_of y x \<equiv> node_of (handoff_peers y x)"

definition handoffs_inv :: "offer_book \<Rightarrow> handoff_system \<Rightarrow> bool" where
  "handoffs_inv book y \<longleftrightarrow> (\<forall>x. contact_inv (peer_contact (handoff_peers y x)))
     \<and> nodes_ok book (nodes_of y) (\<lambda>x. signals (wires y x))"

abbreviation sent_signals :: "handoff_system \<Rightarrow> side \<Rightarrow> signal set" where
  "sent_signals y x \<equiv> signals (wires y x)"

definition joint_step :: "offer_book \<Rightarrow> handoff_system \<Rightarrow> handoff_system \<Rightarrow> bool" where
  "joint_step book y z \<longleftrightarrow> (\<exists>x n out. node_step book x (sent_signals y (opposite x)) (nodes_of y x) n out
     \<and> nodes_of z = (nodes_of y)(x := n) \<and> sent_signals z = (sent_signals y)(x := sent_signals y x \<union> out))"

definition steps_well :: "offer_book \<Rightarrow> handoff_system \<Rightarrow> (mcl_link_status \<times> handoff_system) option \<Rightarrow> bool" where
  "steps_well book y r \<longleftrightarrow> (\<exists>st z. r = Some (st, z) \<and> handoffs_inv book z \<and> joint_step book y z \<and> (st \<noteq> MCL_LINK_OK \<longrightarrow> z = y))"

lemma joint_refl: "joint_step book y y"
proof -
  have "node_step book Left (sent_signals y (opposite Left)) (nodes_of y Left) (nodes_of y Left) {}" by (rule node_move.quiet)
  moreover have "nodes_of y = (nodes_of y)(Left := nodes_of y Left)"
    "sent_signals y = (sent_signals y)(Left := sent_signals y Left \<union> {})" by (simp_all add: fun_eq_iff)
  ultimately show ?thesis unfolding joint_step_def by blast
qed

abbreviation handoff_goes :: "offer_book \<Rightarrow> handoff_system \<Rightarrow> side \<Rightarrow> handoff_result \<Rightarrow> bool" where
  "handoff_goes book y x \<equiv> goes_well (\<lambda>w. book (offer_ref w) = Some (x, w))
     (signals (wires y (opposite x)) \<union> foreign_signals book) (handoff_peers y x)"

lemma at_handoff_peer_steps:
  assumes inv: "handoffs_inv book y" and goes: "handoff_goes book y x (f (handoff_peers y x))"
  shows "steps_well book y (at_handoff_peer x f y)"
proof -
  obtain st p msgs where r: "f (handoff_peers y x) = Some (st, p, msgs)" "contact_inv (peer_contact p)"
    "node_step book x (signals (wires y (opposite x))) (nodes_of y x) (node_of p) (signals msgs)"
    "st \<noteq> MCL_LINK_OK \<Longrightarrow> p = handoff_peers y x \<and> msgs = []"
    using goes by (auto simp: goes_well_def)
  let ?z = "y\<lparr>handoff_peers := (handoff_peers y)(x := p), wires := (wires y)(x := wires y x @ msgs)\<rparr>"
  have "nodes_ok book ((nodes_of y)(x := node_of p)) ((\<lambda>u. signals (wires y u))(x := signals (wires y x) \<union> signals msgs))"
    by (rule nodes_ok_step) (use inv r(3) in \<open>simp_all add: handoffs_inv_def\<close>)
  moreover have "nodes_of ?z = (nodes_of y)(x := node_of p)"
    "(\<lambda>u. signals (wires ?z u)) = (\<lambda>u. signals (wires y u))(x := signals (wires y x) \<union> signals msgs)"
    by (simp_all add: fun_eq_iff)
  ultimately have "handoffs_inv book ?z" "joint_step book y ?z"
    using inv r(2,3) unfolding joint_step_def by (auto simp: handoffs_inv_def)
  moreover have "?z = y" if "st \<noteq> MCL_LINK_OK" using r(4) [OF that] by simp
  ultimately show ?thesis using r(1) by (simp add: steps_well_def at_handoff_peer_def)
qed

lemma delivered_signals: "i < length msgs \<Longrightarrow> signals [msgs ! i] \<subseteq> signals msgs"
  by (auto simp: signals_def)

lemma foreign_signals_body:
  assumes "handoffs_legal book (Handoff_Foreign x B)"
  shows "signals [Control_Body B] \<subseteq> foreign_signals book"
  using assms by (auto simp: foreign_signals_def split: option.splits if_splits)

lemma deliver_steps:
  assumes inv: "handoffs_inv book y" and n: "n < length (wires y x)"
  shows "steps_well book y (at_handoff_peer (opposite x) (receive_handoff True (wires y x ! n)) y)"
proof (rule at_handoff_peer_steps [OF inv])
  have i: "contact_inv (peer_contact (handoff_peers y u))" for u using inv by (simp add: handoffs_inv_def)
  have h: "signals [wires y x ! n] \<subseteq> signals (wires y x) \<union> foreign_signals book" using delivered_signals [OF n] by blast
  show "handoff_goes book y (opposite x) (receive_handoff True (wires y x ! n) (handoff_peers y (opposite x)))"
    using receive_offer_goes [OF i] receive_control_goes [OF i] h
    by (cases "wires y x ! n") (simp_all del: signals_simps(2) receive_handoff.simps(1,2))
qed

lemma handoffs_step:
  assumes inv: "handoffs_inv book y" and legal: "handoffs_legal book e"
  shows "steps_well book y (handoffs_exec True e y)"
proof -
  have i: "contact_inv (peer_contact (handoff_peers y x))" for x using inv by (simp add: handoffs_inv_def)
  note at = at_handoff_peer_steps [OF inv]
  show ?thesis
  proof (cases e)
    case (Handoff_Offer x w)
    then show ?thesis using at [where x = x and f = "offer_handoff w"] offer_handoff_goes [OF i] legal by simp
  next
    case (Handoff_Accept x s)
    then show ?thesis using at [where x = x and f = "by_offers [] (accept_offer s)"] plain_goes(1) [OF i] by simp
  next
    case (Handoff_Probe x ch)
    then show ?thesis using at [where x = x and f = "probe_path ch"] probe_path_goes [OF i] legal by simp
  next
    case (Handoff_Commit x)
    then show ?thesis using at [where x = x and f = "send_commit"] send_commit_goes [OF i] by simp
  next
    case (Handoff_Deliver x n)
    then show ?thesis using deliver_steps [OF inv, of n x] inv joint_refl by (simp add: steps_well_def)
  next
    case (Handoff_Foreign x B)
    then have "signals [Control_Body B] \<subseteq> signals (wires y (opposite x)) \<union> foreign_signals book"
      using foreign_signals_body legal by blast
    then show ?thesis
      using at [where x = x and f = "receive_handoff True (Control_Body B)"] receive_control_goes [OF i] Handoff_Foreign
      by (simp del: signals_simps(2))
  next
    case (Handoff_Give_Up x)
    then show ?thesis using at [where x = x and f = "by_offers [] give_up"] plain_goes(2) [OF i] by simp
  next
    case (Handoff_Close x)
    then show ?thesis using at [where x = x and f = "by_offers [] close_peer"] plain_goes(3) [OF i] by simp
  qed
qed

interpretation handoffs: call_machine "handoffs_exec True" "handoffs_inv book" "handoffs_legal book"
proof
  fix y e st z
  assume "handoffs_inv book y" "handoffs_legal book e"
  then have s: "steps_well book y (handoffs_exec True e y)" by (rule handoffs_step)
  then show "\<exists>st z. handoffs_exec True e y = Some (st, z)" by (auto simp: steps_well_def)
  assume "handoffs_exec True e y = Some (st, z)"
  with s show "handoffs_inv book z" "st \<noteq> MCL_LINK_OK \<Longrightarrow> z = y" by (auto simp: steps_well_def)
qed

text \<open>As long as no such offer arrives, the two callers do the same.\<close>

lemma receive_careful:
  assumes "\<not> (case msg of Offer_Message (Transport_Offer source w) \<Rightarrow> stale w p | _ \<Rightarrow> False)"
  shows "receive_handoff False msg p = receive_handoff True msg p"
proof (cases msg)
  case (Offer_Message m)
  then show ?thesis using assms by (cases m) simp_all
qed simp

lemma exec_careful: "\<not> brings_stale e y \<Longrightarrow> handoffs_exec False e y = handoffs_exec True e y"
  using receive_careful by (cases e) (auto simp: at_handoff_peer_def)

lemma run_careful: "\<not> replays es y \<Longrightarrow> run_calls (handoffs_exec False) es y = run_calls (handoffs_exec True) es y"
  by (induction es arbitrary: y) (auto simp: exec_careful split: option.splits)

lemma replays_append: "replays es y \<Longrightarrow> replays (es @ fs) y"
  by (induction es arbitrary: y) (auto split: option.splits)

lemma run_either: "careful \<or> \<not> replays es y \<Longrightarrow> run_calls (handoffs_exec careful) es y = run_calls (handoffs_exec True) es y"
  using run_careful by (cases careful) auto

section \<open>No split\<close>

text \<open>
  The start: two settled contacts on the medium \<open>t0\<close>, nothing on the wire, and no reference in the
  book that a contact has used for its last migration.
\<close>

definition handoffs_start :: "offer_book \<Rightarrow> byte \<Rightarrow> handoff_system \<Rightarrow> bool" where
  "handoffs_start book t0 y \<longleftrightarrow> (\<forall>x. let c = peer_contact (handoff_peers y x) in
     contact_inv c \<and> contact_state c = MCL_CONTACT_STATE_ACTIVE \<and> contact_active_transport c = t0
     \<and> book (contact_completed_migration_ref c) = None \<and> wires y x = [])"

lemma handoffs_inv_start:
  assumes "handoffs_start book t0 y"
  shows "handoffs_inv book y"
proof -
  have s: "contact_inv (peer_contact (handoff_peers y x))" "wires y x = []" for x
    using assms by (simp_all add: handoffs_start_def Let_def)
  have n: "node_stage (nodes_of y x) = Idle" "node_medium (nodes_of y x) = t0" "node_done (nodes_of y x) = Some m \<Longrightarrow> book m = None" for x m
    using assms by (auto simp: handoffs_start_def Let_def phase_state(1) contact_abs_def nonzero_def split: if_splits)
  have "owner_ok book x (nodes_of y x) {}" "answer_ok book x (nodes_of y x) {} {}"
    "commit_ok book x (nodes_of y x) {} {} (nodes_of y (opposite x))" for x
    using n [of x] by (auto simp: owner_ok_def answer_ok_def commit_ok_def)
  moreover have "media_ok (nodes_of y Left) (nodes_of y Right)"
    using n by (simp add: media_ok_def target_ok_def ahead_def)
  ultimately show ?thesis using s by (simp add: handoffs_inv_def nodes_ok_def)
qed

definition contact_at :: "handoff_system \<Rightarrow> side \<Rightarrow> mcl_contact" where
  "contact_at y x = peer_contact (handoff_peers y x)"

text \<open>\<open>x\<close> has committed and waits; the other one is already on the medium \<open>x\<close> is moving to.\<close>

definition catching_up :: "handoff_system \<Rightarrow> side \<Rightarrow> bool" where
  "catching_up y x \<longleftrightarrow> contact_state (contact_at y x) = MCL_CONTACT_STATE_COMMITTING
     \<and> contact_active_transport (contact_at y (opposite x)) = contact_pending_transport (contact_at y x)
     \<and> contact_completed_migration_ref (contact_at y (opposite x)) = contact_pending_migration_ref (contact_at y x)
     \<and> mcl_contact_data_transport (Some (contact_at y x)) (Some 0) (Some 0)
       = (MCL_LINK_OK, Some (contact_active_transport (contact_at y x)), Some 1)"

lemma ahead_catching_up:
  assumes inv: "handoffs_inv book y" and ahead: "ahead (nodes_of y x) (nodes_of y (opposite x))"
  shows "catching_up y x"
proof -
  let ?c = "peer_contact (handoff_peers y x)" and ?d = "peer_contact (handoff_peers y (opposite x))"
  have i: "contact_inv ?c" using inv by (simp add: handoffs_inv_def)
  obtain w where w: "node_stage (nodes_of y x) = Sealed w" "node_done (nodes_of y (opposite x)) = Some (offer_ref w)"
    using ahead by (auto simp: ahead_def split: stage.splits)
  have "media_ok (nodes_of y x) (nodes_of y (opposite x))"
    using inv media_ok_sym by (cases x) (auto simp: handoffs_inv_def nodes_ok_def)
  then have m: "contact_active_transport ?d = offer_transport w"
    using w by (simp add: media_ok_def target_ok_def contact_abs_def)
  have c: "contact_state ?c = 6" "w = pending_offer ?c"
    using w(1) by (cases rule: state_cases [OF i]; simp add: phase_state)+
  moreover have "contact_completed_migration_ref ?d = offer_ref w" using w(2) by (simp add: abs_completed)
  ultimately show ?thesis
    using m by (simp add: catching_up_def contact_at_def pending_offer_def mcl_contact_data_transport_def)
qed

lemma media_agree:
  assumes inv: "handoffs_inv book y" and up: "\<And>x. contact_state (contact_at y x) \<noteq> 7"
  shows "contact_active_transport (contact_at y Left) = contact_active_transport (contact_at y Right) \<or> (\<exists>x. catching_up y x)"
proof -
  have "node_stage (nodes_of y x) \<noteq> Shut" for x
  proof -
    have i: "contact_inv (peer_contact (handoff_peers y x))" using inv by (simp add: handoffs_inv_def)
    show ?thesis using up [of x] by (cases rule: state_cases [OF i]) (simp_all add: phase_state contact_at_def)
  qed
  moreover have "media_ok (nodes_of y Left) (nodes_of y Right)" using inv by (simp add: handoffs_inv_def nodes_ok_def)
  ultimately have "node_medium (nodes_of y Left) = node_medium (nodes_of y Right)
      \<or> ahead (nodes_of y Left) (nodes_of y Right) \<or> ahead (nodes_of y Right) (nodes_of y Left)"
    by (auto simp: media_ok_def)
  then show ?thesis
    using ahead_catching_up [OF inv, of Left] ahead_catching_up [OF inv, of Right] by (auto simp: contact_at_def contact_abs_def)
qed

text \<open>C6: a contact is not split, however many migrations it makes, as long as no peer is offered again what it has dealt
  with. Either peer offers, probes and
  commits, in any number of migrations one after the other, completed or given up; what has been sent
  is delivered late, in any order, any number of times or never, also in the middle of a later
  migration. Every new offer has its own reference. Assume that no old offer reaches a peer that has dealt with it,
  or that the callers remember the references and drop such an offer. Then no call faults, and unless a
  contact has been closed, the two
  are on the same medium, or one of them has committed and waits for the confirmation, the other one
  is already on the medium it is moving to and has completed just that migration, and the waiting
  one announces its old medium as provisional. In particular, two contacts at rest are on the same
  medium.\<close>

theorem handoffs_no_split:
  assumes "handoffs_start book t0 y" "list_all (handoffs_legal book) es" "careful \<or> \<not> replays es y"
  shows "\<exists>z. run_calls (handoffs_exec careful) es y = Some z
    \<and> (contact_active_transport (contact_at z Left) = contact_active_transport (contact_at z Right)
      \<or> (\<exists>x. contact_state (contact_at z x) = MCL_CONTACT_STATE_CLOSED) \<or> (\<exists>x. catching_up z x))"
proof -
  obtain z where z: "run_calls (handoffs_exec True) es y = Some z" "handoffs_inv book z"
    using handoffs.run_total [OF handoffs_inv_start [OF assms(1)] assms(2)] by blast
  then show ?thesis using media_agree [OF z(2)] run_either [OF assms(3)] by auto
qed

text \<open>One migration to the medium 2, up to the point where only the confirmation is missing, and its end.\<close>

definition fresh_handoffs :: handoff_system where
  "fresh_handoffs = \<lparr>handoff_peers = (\<lambda>x. \<lparr>offer_part = fresh_pair x, known_refs = []\<rparr>), wires = (\<lambda>x. [])\<rparr>"

definition handoff_book :: offer_book where
  "handoff_book = [9 \<mapsto> (Left, offer_to 9 2), 10 \<mapsto> (Left, offer_to 10 3), 11 \<mapsto> (Right, offer_to 11 4)]"

definition first_handoff :: "handoff_event list" where
  "first_handoff = [Handoff_Offer Left (offer_to 9 2), Handoff_Deliver Left 0, Handoff_Accept Right 7, Handoff_Deliver Right 0,
     Handoff_Probe Left [1, 2, 3, 4, 5, 6, 7, 8], Handoff_Deliver Left 1, Handoff_Deliver Right 1,
     Handoff_Commit Left, Handoff_Deliver Left 2]"

lemma fresh_handoffs_start: "handoffs_start handoff_book 1 fresh_handoffs"
proof -
  have "contact_inv (held_contact (fresh_pair x)) \<and> contact_state (held_contact (fresh_pair x)) = 1
      \<and> contact_active_transport (held_contact (fresh_pair x)) = 1 \<and> contact_completed_migration_ref (held_contact (fresh_pair x)) = 0" for x
    by (cases x) (simp_all add: fresh_pair_def begin_inv, simp_all add: contact_start_def)
  then show ?thesis by (simp add: handoffs_start_def fresh_handoffs_def handoff_book_def Let_def)
qed

lemmas handoffs_defs = at_handoff_peer_def offer_handoff_def by_offers_def by_contact_def sending_def probe_path_def
  send_commit_def receive_control_def stale_def

lemmas sample_defs = fresh_handoffs_def fresh_pair_def contact_start_def offer_to_def

lemma first_handoff_run: "\<exists>z. run_calls (handoffs_exec careful) first_handoff fresh_handoffs = Some z
    \<and> contact_state (contact_at z Left) = 6 \<and> contact_active_transport (contact_at z Left) = 1
    \<and> contact_state (contact_at z Right) = 1 \<and> contact_active_transport (contact_at z Right) = 2"
  by (simp add: first_handoff_def sample_defs handoffs_defs offers_defs system_defs accept_bodies path_control_def plain_control_def
      contact_defs contact_helpers contact_at_def Let_def del: One_nat_def)

lemma first_handoff_fresh: "\<not> replays first_handoff fresh_handoffs"
  by (simp add: first_handoff_def sample_defs handoffs_defs offers_defs system_defs accept_bodies path_control_def plain_control_def
      contact_defs contact_helpers Let_def del: One_nat_def)

lemma handoffs_no_split_witness:
  "\<exists>z. run_calls (handoffs_exec False) first_handoff fresh_handoffs = Some z
    \<and> contact_active_transport (contact_at z Left) = 1 \<and> contact_active_transport (contact_at z Right) = 2 \<and> (\<exists>x. catching_up z x)"
proof -
  obtain z where z: "run_calls (handoffs_exec False) first_handoff fresh_handoffs = Some z"
    "contact_state (contact_at z Left) = 6" "contact_active_transport (contact_at z Left) = 1"
    "contact_state (contact_at z Right) = 1" "contact_active_transport (contact_at z Right) = 2"
    using first_handoff_run by blast
  have l: "list_all (handoffs_legal handoff_book) first_handoff" by (simp add: first_handoff_def handoff_book_def offer_to_def)
  have "contact_state (contact_at z x) \<noteq> 7" for x using z(2,4) by (cases x) simp_all
  with handoffs_no_split [OF fresh_handoffs_start l disjI2 [OF first_handoff_fresh], of False] z show ?thesis by auto
qed

section \<open>Without the care\<close>

text \<open>The end of the first migration, and a second one, to the medium 3.\<close>

definition second_handoff :: "handoff_event list" where
  "second_handoff =
    [Handoff_Offer Left (offer_to 10 3), Handoff_Deliver Left 3, Handoff_Accept Right 7, Handoff_Deliver Right 3,
     Handoff_Probe Left [8, 7, 6, 5, 4, 3, 2, 1], Handoff_Deliver Left 4, Handoff_Deliver Right 4,
     Handoff_Commit Left, Handoff_Deliver Left 5, Handoff_Deliver Right 5]"

definition two_handoffs :: "handoff_event list" where
  "two_handoffs = first_handoff @ [Handoff_Deliver Right 2] @ second_handoff"

text \<open>The first offer, challenge and commit arrive once more.\<close>

definition replayed_handoff :: "handoff_event list" where
  "replayed_handoff = [Handoff_Deliver Left 0, Handoff_Accept Right 7, Handoff_Deliver Left 1, Handoff_Deliver Left 2]"

text \<open>Both peers at rest on the medium \<open>t\<close> after the migration \<open>m\<close>, and what has been sent by then.\<close>

definition rested :: "byte \<Rightarrow> u32 \<Rightarrow> byte \<Rightarrow> u32 \<Rightarrow> u16 \<Rightarrow> mcl_contact" where
  "rested role r t m n = (contact_start role r t)\<lparr>contact_session_ref := 7, contact_session_valid := 1,
     contact_migration_count := n, contact_completed_migration_ref := m\<rparr>"

definition rest_after :: "byte \<Rightarrow> u32 \<Rightarrow> u16 \<Rightarrow> u32 list \<Rightarrow> handoff_system \<Rightarrow> bool" where
  "rest_after t m n K y \<longleftrightarrow>
     handoff_peers y Left = \<lparr>offer_part = \<lparr>held_contact = rested 0 3 t m n, offer_own = True\<rparr>, known_refs = K\<rparr>
   \<and> handoff_peers y Right = \<lparr>offer_part = \<lparr>held_contact = rested 1 5 t m n, offer_own = False\<rparr>, known_refs = K\<rparr>"

definition asked :: "u32 \<Rightarrow> byte \<Rightarrow> byte list \<Rightarrow> handoff_message list" where
  "asked m t ch = [Offer_Message (Transport_Offer 3 (offer_to m t)), Control_Body (challenge_body m 7 ch), Control_Body (commit_body m 7)]"

definition answers :: "u32 \<Rightarrow> byte \<Rightarrow> byte list \<Rightarrow> handoff_message list" where
  "answers m t ch = [Offer_Message (Transport_Accept m t 1 7), Control_Body (response_body m 7 ch), Control_Body (confirm_body m 7)]"

lemmas replay_defs = handoffs_defs offers_defs system_defs accept_bodies path_control_def plain_control_def
  contact_defs contact_helpers rest_after_def rested_def contact_start_def asked_def answers_def offer_to_def

lemma first_handoff_rests: "\<exists>y. run_calls (handoffs_exec careful) (first_handoff @ [Handoff_Deliver Right 2]) fresh_handoffs = Some y
    \<and> rest_after 2 9 (count_up 0) [9] y
    \<and> wires y Left = asked 9 2 [1, 2, 3, 4, 5, 6, 7, 8] \<and> wires y Right = answers 9 2 [1, 2, 3, 4, 5, 6, 7, 8]"
  by (simp add: first_handoff_def sample_defs replay_defs Let_def del: One_nat_def)

lemma second_handoff_rests:
  assumes "rest_after 2 9 n [9] y" "wires y Left = asked 9 2 ch" "wires y Right = answers 9 2 ch"
  shows "\<exists>z. run_calls (handoffs_exec careful) second_handoff y = Some z
    \<and> rest_after 3 10 (count_up n) [10, 9] z \<and> (\<exists>rest. wires z Left = asked 9 2 ch @ rest)"
  using assms by (simp add: second_handoff_def replay_defs Let_def del: One_nat_def)

lemma all_sides: "(\<forall>x. P x) \<longleftrightarrow> P Left \<and> P Right"
  by (metis side.exhaust)

lemma replay_runs:
  assumes "rest_after 3 10 n [10, 9] y" "wires y Left = asked 9 2 [1, 2, 3, 4, 5, 6, 7, 8] @ rest"
  shows "\<exists>z. run_calls (handoffs_exec careful) replayed_handoff y = Some z
    \<and> (\<forall>x. contact_state (contact_at z x) = 1) \<and> contact_active_transport (contact_at z Left) = 3
    \<and> contact_active_transport (contact_at z Right) = (if careful then 3 else 2)"
  unfolding all_sides using assms
  by (cases careful) (simp_all add: replayed_handoff_def contact_at_def replay_defs Let_def del: One_nat_def)

text \<open>C38: what the memory of \<open>contact.c\<close> does not cover. After two completed migrations both peers are at rest on
  the medium 3. The offer, the challenge and the commit of the first one arrive at the receiver a second
  time. If its caller does not remember the reference, the contact takes the offer for a new one, the old
  challenge validates the path, the old commit is accepted, and it is at rest on the medium 2, while
  its peer has done nothing and is at rest on the medium 3. With a careful caller both stay on the
  medium 3. Nothing else in the run differs from what the property above assumes.\<close>

theorem replayed_migration_splits:
  "list_all (handoffs_legal handoff_book) (two_handoffs @ replayed_handoff) \<and>
   (\<exists>y z u. run_calls (handoffs_exec False) two_handoffs fresh_handoffs = Some y
    \<and> (\<forall>x. contact_state (contact_at y x) = MCL_CONTACT_STATE_ACTIVE \<and> contact_active_transport (contact_at y x) = 3)
    \<and> run_calls (handoffs_exec False) replayed_handoff y = Some z
    \<and> (\<forall>x. contact_state (contact_at z x) = MCL_CONTACT_STATE_ACTIVE)
    \<and> contact_active_transport (contact_at z Left) = 3 \<and> contact_active_transport (contact_at z Right) = 2
    \<and> run_calls (handoffs_exec True) replayed_handoff y = Some u
    \<and> (\<forall>x. contact_active_transport (contact_at u x) = 3))"
proof -
  have "list_all (handoffs_legal handoff_book) (two_handoffs @ replayed_handoff)"
    by (simp add: two_handoffs_def first_handoff_def second_handoff_def replayed_handoff_def handoff_book_def offer_to_def)
  moreover obtain y0 where y0: "run_calls (handoffs_exec False) (first_handoff @ [Handoff_Deliver Right 2]) fresh_handoffs = Some y0"
    "rest_after 2 9 (count_up 0) [9] y0" "wires y0 Left = asked 9 2 [1, 2, 3, 4, 5, 6, 7, 8]"
    "wires y0 Right = answers 9 2 [1, 2, 3, 4, 5, 6, 7, 8]"
    using first_handoff_rests by blast
  moreover obtain y rest where y: "run_calls (handoffs_exec False) second_handoff y0 = Some y"
    "rest_after 3 10 (count_up (count_up 0)) [10, 9] y" "wires y Left = asked 9 2 [1, 2, 3, 4, 5, 6, 7, 8] @ rest"
    using second_handoff_rests [OF y0(2-4)] by blast
  moreover have "run_calls (handoffs_exec False) two_handoffs fresh_handoffs = Some y"
    unfolding two_handoffs_def append_assoc [symmetric] run_calls_append [of _ "first_handoff @ [Handoff_Deliver Right 2]"]
    using y0(1) y(1) by simp
  moreover have "contact_state (contact_at y x) = 1 \<and> contact_active_transport (contact_at y x) = 3" for x
    using y(2) by (cases x) (simp_all add: rest_after_def rested_def contact_start_def contact_at_def)
  ultimately show ?thesis
    using replay_runs [OF y(2,3), of False] replay_runs [OF y(2,3), of True] by (auto simp: all_sides simp del: handoffs_exec.simps)
qed

end
