(* ===== verification/Mcl_Recovery.thy ===== *)
theory Mcl_Recovery
  imports Mcl_Continuity
begin

text \<open>
  What \<open>Mcl_Continuity\<close> leaves open: a contact that has committed and waits, while the other one has already
  moved, can always catch up, however many migrations have gone before and whatever has been
  lost. The commit it has sent names the session reference that both contacts are bound to; that is
  the second invariant of the system. The last section is about the contact that cannot catch up, since the
  other one has given the migration up.
\<close>

section \<open>References of commits\<close>

fun commit_ref_of :: "handoff_message \<Rightarrow> (u32 \<times> u32) option" where
  "commit_ref_of (Offer_Message msg) = None"
| "commit_ref_of (Control_Body B) = (case handoff_accept B of
     None \<Rightarrow> None
   | Some k \<Rightarrow> if control_operation k = MCL_HANDOFF_OP_COMMIT then Some (control_migration_ref k, control_session_ref k) else None)"

definition commit_refs :: "handoff_message list \<Rightarrow> (u32 \<times> u32) set" where
  "commit_refs msgs = {r. \<exists>msg \<in> set msgs. commit_ref_of msg = Some r}"

lemma commit_refs_simps [simp]:
  "commit_refs [] = {}"
  "commit_refs (msg # msgs) = set_option (commit_ref_of msg) \<union> commit_refs msgs"
  "commit_refs (msgs @ msgs') = commit_refs msgs \<union> commit_refs msgs'"
  "commit_refs (map Offer_Message ms) = {}"
  by (auto simp: commit_refs_def)

lemma body_commit_refs:
  assumes "m \<noteq> 0" "s \<noteq> 0"
  shows "8 \<le> length ch \<Longrightarrow> commit_ref_of (Control_Body (challenge_body m s ch)) = None"
    "8 \<le> length ch \<Longrightarrow> commit_ref_of (Control_Body (response_body m s ch)) = None"
    "commit_ref_of (Control_Body (commit_body m s)) = Some (m, s)"
    "commit_ref_of (Control_Body (confirm_body m s)) = None"
  using accept_bodies [OF assms] by (simp_all add: path_control_def plain_control_def)

section \<open>What a step does to the session\<close>

text \<open>\<open>H\<close> are the references of the commits that may be heard.\<close>

definition session_kept :: "contact_spec \<Rightarrow> contact_spec \<Rightarrow> bool" where
  "session_kept a b \<longleftrightarrow> (spec_phase a = Closed \<longrightarrow> spec_phase b = Closed)
     \<and> (spec_phase b = Closed \<or> spec_session a = None \<or> spec_session b = spec_session a)"

definition completes :: "(u32 \<times> u32) set \<Rightarrow> contact_spec \<Rightarrow> contact_spec \<Rightarrow> bool" where
  "completes H a b \<longleftrightarrow> spec_completed b = spec_completed a
     \<or> (\<exists>m s. spec_completed b = Some m \<and> spec_session b = Some s
       \<and> ((m, s) \<in> H \<or> (\<exists>w ch. spec_phase a = Committing w ch \<and> offer_ref w = m)))"

definition binds :: "(u32 \<times> u32) set \<Rightarrow> contact_spec \<Rightarrow> contact_spec \<Rightarrow> (u32 \<times> u32) set \<Rightarrow> bool" where
  "binds H a b sent \<longleftrightarrow> session_kept a b \<and> completes H a b \<and> (\<forall>(m, s) \<in> sent. spec_session b = Some s)"

lemma binds_refl [simp]: "binds H a a {}"
  by (simp add: binds_def session_kept_def completes_def)

lemma binds_trans:
  assumes "binds H a b {}" "binds H b c {}" "spec_completed b = spec_completed a"
    "\<And>w ch. spec_phase b \<noteq> Committing w ch"
  shows "binds H a c {}"
  using assms by (auto simp: binds_def session_kept_def completes_def)

lemma move_binds: "peer_move mine heard quits a own b own' msgs \<Longrightarrow> binds H a b {}"
  by (cases rule: peer_move.cases, assumption) (auto simp: binds_def session_kept_def completes_def)

lemma call_keeps_session: "contact_spec_exec call a = (st, b) \<Longrightarrow> session_kept a b"
  by (cases call) (auto simp: session_kept_def spec_defs Let_def split: phase.splits option.splits if_splits)

lemma call_completes: "contact_spec_exec call a = (st, b) \<Longrightarrow> (\<And>m s. call = Commit_Accept m s \<Longrightarrow> (m, s) \<in> H) \<Longrightarrow> completes H a b"
  by (cases call) (auto simp: completes_def spec_defs Let_def split: phase.splits option.splits if_splits)

lemma exec_binds:
  assumes "contact_inv c" "contact_legal call" "contact_exec call c = Some (st, c')"
    and "\<And>m s. call = Commit_Accept m s \<Longrightarrow> (m, s) \<in> H"
  shows "binds H (contact_abs c) (contact_abs c') {}"
  using call_keeps_session call_completes [OF _ assms(4)] contact_refines [OF assms(1-3)] by (simp add: binds_def)

section \<open>The operations of a peer\<close>

text \<open>A result of an operation on the contact, and one of a peer.\<close>

definition result_binds :: "(u32 \<times> u32) set \<Rightarrow> mcl_contact \<Rightarrow> (mcl_link_status \<times> mcl_contact \<times> byte list list) option \<Rightarrow> bool" where
  "result_binds H c r \<longleftrightarrow> (\<forall>st c' bodies. r = Some (st, c', bodies)
     \<longrightarrow> binds H (contact_abs c) (contact_abs c') (commit_refs (map Control_Body bodies)))"

definition peer_binds :: "(u32 \<times> u32) set \<Rightarrow> handoff_peer \<Rightarrow> handoff_result \<Rightarrow> bool" where
  "peer_binds H p r \<longleftrightarrow> (\<forall>st p' msgs. r = Some (st, p', msgs)
     \<longrightarrow> binds H (contact_abs (peer_contact p)) (contact_abs (peer_contact p')) (commit_refs msgs))"

lemma refusal_binds [simp]: "peer_binds H p (Some (st, p, []))" "result_binds H c (Some (st, c, []))"
  by (simp_all add: peer_binds_def result_binds_def)

lemma by_contact_binds: "result_binds H (peer_contact p) (f (peer_contact p)) \<Longrightarrow> peer_binds H p (by_contact f p)"
  by (auto simp: peer_binds_def result_binds_def by_contact_def split: Option.bind_splits)

lemma by_offers_binds:
  assumes "moves_well mine heard quits (offer_part p) (f (offer_part p))"
  shows "peer_binds H p (by_offers ms f p)"
  using assms move_binds by (auto simp: peer_binds_def by_offers_def moves_well_def)

lemma sending_binds:
  assumes "contact_inv c" "contact_legal call" "\<And>m s. call = Commit_Accept m s \<Longrightarrow> (m, s) \<in> H"
    and "\<And>c'. contact_exec call c = Some (MCL_LINK_OK, c') \<Longrightarrow>
      \<forall>(m, s) \<in> commit_refs (map Control_Body bodies). spec_session (contact_abs c') = Some s"
  shows "result_binds H c (sending bodies (contact_exec call c))"
  using exec_binds [OF assms(1,2) _ assms(3)] assms(4)
  by (auto simp: result_binds_def sending_def binds_def split: Option.bind_splits)

text \<open>The challenge and the response are no commits, the commit names the session of the contact.\<close>

lemma begin_agreed:
  assumes "contact_inv c" "contact_exec (Validation_Begin ch) c = Some (MCL_LINK_OK, c')" "8 \<le> length ch"
  shows "contact_pending_migration_ref c \<noteq> 0 \<and> contact_session_ref c \<noteq> 0"
proof -
  have "contact_spec_exec (Validation_Begin ch) (contact_abs c) = (MCL_LINK_OK, contact_abs c')"
    using contact_refines [OF assms(1) _ assms(2)] assms(3) by simp
  then obtain w where w: "spec_phase (contact_abs c) = Agreed w" by (auto simp: spec_challenge_def split: phase.splits)
  then have "contact_state c \<noteq> 2" by (auto simp: phase_state)
  with session_nz [OF assms(1), of w] w show ?thesis by simp
qed

lemma probe_path_binds:
  assumes inv: "contact_inv (peer_contact p)" and ch: "8 \<le> length ch"
  shows "peer_binds H p (probe_path ch p)"
proof -
  let ?c = "peer_contact p"
  have "result_binds H ?c (sending [refs_of challenge_body ?c ch] (contact_exec (Validation_Begin ch) ?c))"
    by (rule sending_binds [OF inv])
      (use ch begin_agreed [OF inv] body_commit_refs(1) in \<open>auto simp: refs_of_def simp del: commit_ref_of.simps contact_exec.simps\<close>)
  then have "peer_binds H p (by_contact (\<lambda>c. sending [refs_of challenge_body c ch] (contact_exec (Validation_Begin ch) c)) p)"
    by (rule by_contact_binds)
  then show ?thesis by (simp add: probe_path_def del: contact_exec.simps)
qed

lemma commit_begin_session:
  assumes "contact_inv c" "contact_exec Commit_Begin c = Some (MCL_LINK_OK, c')"
  shows "contact_pending_migration_ref c \<noteq> 0" "contact_session_ref c \<noteq> 0"
    "spec_session (contact_abs c') = Some (contact_session_ref c)"
proof -
  have r: "contact_spec_exec Commit_Begin (contact_abs c) = (MCL_LINK_OK, contact_abs c')"
    using contact_refines [OF assms(1) _ assms(2)] by simp
  then obtain w ch where w: "spec_phase (contact_abs c) = Validated w ch" "contact_abs c' = (contact_abs c)\<lparr>spec_phase := Committing w ch\<rparr>"
    by (auto simp: spec_commit_def split: phase.splits)
  then have "contact_state c \<noteq> 2" by (auto simp: phase_state)
  with session_nz [OF assms(1), of w] w(1) show nz: "contact_pending_migration_ref c \<noteq> 0" "contact_session_ref c \<noteq> 0" by simp_all
  show "spec_session (contact_abs c') = Some (contact_session_ref c)" using w(2) nz by (simp add: abs_session)
qed

lemma send_commit_binds:
  assumes inv: "contact_inv (peer_contact p)"
  shows "peer_binds H p (send_commit p)"
proof -
  let ?c = "peer_contact p"
  have "result_binds H ?c (sending [refs_of commit_body ?c] (contact_exec Commit_Begin ?c))"
    by (rule sending_binds [OF inv])
      (use commit_begin_session [OF inv] body_commit_refs(3) in \<open>auto simp: refs_of_def simp del: commit_ref_of.simps contact_exec.simps\<close>)
  then have "peer_binds H p (by_contact (\<lambda>c. sending [refs_of commit_body c] (contact_exec Commit_Begin c)) p)"
    by (rule by_contact_binds)
  then show ?thesis by (simp add: send_commit_def del: contact_exec.simps)
qed

text \<open>A commit is only accepted if it may be heard.\<close>

lemma receive_challenge_binds:
  assumes inv: "contact_inv c" and ch: "8 \<le> length ch" and nz: "m \<noteq> 0" "s \<noteq> 0"
  shows "result_binds H c (receive_challenge c m s ch)"
proof -
  note quiet = body_commit_refs(2) [OF nz ch]
  have "binds H (contact_abs c) (contact_abs c2) {}"
    if c1: "contact_exec (Validation_Begin ch) c = Some (st1, c1)" and c2: "contact_exec (Validation_Response m s ch) c1 = Some (st2, c2)"
    for c1 c2 st1 st2
  proof -
    have l: "contact_legal (Validation_Begin ch)" "contact_legal (Validation_Response m s ch)" using ch by simp_all
    have r: "contact_spec_exec (Validation_Begin ch) (contact_abs c) = (st1, contact_abs c1)" by (rule contact_refines [OF inv l(1) c1])
    note b = exec_binds [OF inv l(1) c1] exec_binds [OF contact.exec_inv [OF inv l(1) c1] l(2) c2]
    show ?thesis
    proof (cases "st1 = MCL_LINK_OK")
      case True
      then obtain w where w: "(contact_abs c)\<lparr>spec_phase := Validating w (take 8 ch)\<rparr> = contact_abs c1"
        using r by (auto simp: spec_challenge_def split: phase.splits)
      show ?thesis by (rule binds_trans [OF b]) (simp_all only: w [symmetric], simp_all)
    next
      case False
      then show ?thesis using b(2) contact.exec_refused [OF inv l(1) c1] by simp
    qed
  qed
  then show ?thesis using quiet
    by (auto simp: result_binds_def receive_challenge_def simp del: contact_exec.simps commit_ref_of.simps
        split: Option.bind_splits if_splits prod.splits)
qed

lemma receive_commit_binds:
  assumes inv: "contact_inv c" and nz: "m \<noteq> 0" "s \<noteq> 0" and H: "(m, s) \<in> H"
  shows "result_binds H c (receive_commit c m s)"
  using exec_binds [OF inv, of "Commit_Accept m s"] H body_commit_refs(4) [OF nz]
  by (auto simp: result_binds_def receive_commit_def Let_def simp del: contact_exec.simps commit_ref_of.simps
      split: Option.bind_splits if_splits prod.splits)

lemma receive_a_binds:
  assumes inv: "contact_inv c"
  shows "result_binds H c (quiet (receive_a c B))"
proof -
  have "8 \<le> length (control_challenge k)" if "handoff_accept B = Some k" for k using accepted_shape(3) [OF that] by simp
  then show ?thesis
    using exec_binds [OF inv, of "Validation_Response m s e" for m s e] exec_binds [OF inv, of "Commit_Confirm m s" for m s]
    by (auto simp: result_binds_def receive_a_def quiet_def simp del: contact_exec.simps split: option.splits if_splits)
qed

lemma receive_control_binds:
  assumes inv: "contact_inv (peer_contact p)" and H: "commit_refs [Control_Body B] \<subseteq> H"
  shows "peer_binds H p (by_contact (receive_control B) p)"
proof (rule by_contact_binds)
  show "result_binds H (peer_contact p) (receive_control B (peer_contact p))"
  proof (cases "handoff_accept B")
    case (Some k)
    note shape = accepted_shape [OF Some]
    consider "control_operation k = 1" | "control_operation k = 3" | "control_operation k \<noteq> 1" "control_operation k \<noteq> 3" by blast
    then show ?thesis
    proof cases
      case 1
      then show ?thesis using Some receive_challenge_binds [OF inv _ shape(1,2)] shape(3) by (simp add: receive_control_def receive_b_def)
    next
      case 2
      then show ?thesis using Some receive_commit_binds [OF inv shape(1,2)] H by (simp add: receive_control_def receive_b_def)
    next
      case 3
      then show ?thesis using Some receive_a_binds [OF inv] by (simp add: receive_control_def)
    qed
  qed (simp add: receive_control_def)
qed

text \<open>The operations of \<open>Mcl_Offers\<close>.\<close>

lemma offer_ops_bind:
  assumes inv: "contact_inv (peer_contact p)"
  shows "peer_binds H p (offer_handoff w p)" "peer_binds H p (by_offers [] (accept_offer s) p)"
    "peer_binds H p (by_offers [] give_up p)" "peer_binds H p (by_offers [] close_peer p)"
    "peer_binds H p (receive_handoff careful (Offer_Message msg) p)"
proof -
  note g = by_offers_binds [where mine = "\<lambda>_. True" and quits = True]
  show "peer_binds H p (offer_handoff w p)"
    using g [where f = "make_offer w"] make_offer_moves [OF inv] by (simp add: offer_handoff_def)
  show "peer_binds H p (by_offers [] (accept_offer s) p)" "peer_binds H p (by_offers [] give_up p)" "peer_binds H p (by_offers [] close_peer p)"
    by (rule g [where f = "accept_offer s", OF accept_offer_moves [OF inv]] g [where f = give_up, OF leave_moves(1) [OF inv TrueI]]
        g [where f = close_peer, OF leave_moves(2) [OF inv]])+
  have "peer_binds H p (by_offers ms (receive_message msg) p)" for ms
    by (rule g [where f = "receive_message msg", OF receive_moves [OF inv]]) (rule UNIV_I)
  then show "peer_binds H p (receive_handoff careful (Offer_Message msg) p)"
    by (cases msg) (simp_all del: receive_message.simps)
qed

section \<open>The invariant\<close>

text \<open>A commit on the wire names the session of its sender, and of the receiver that has carried it out.\<close>

definition session_ok :: "offer_book \<Rightarrow> side \<Rightarrow> contact_spec \<Rightarrow> (u32 \<times> u32) set \<Rightarrow> (u32 \<times> u32) set \<Rightarrow> bool" where
  "session_ok book x a S R \<longleftrightarrow> spec_phase a = Closed
     \<or> (\<forall>(m, s) \<in> S. spec_session a = Some s)
       \<and> (\<forall>m w. spec_completed a = Some m \<longrightarrow> book m = Some (opposite x, w) \<longrightarrow> (\<exists>s. spec_session a = Some s \<and> (m, s) \<in> R))"

abbreviation spec_at :: "handoff_system \<Rightarrow> side \<Rightarrow> contact_spec" where
  "spec_at y x \<equiv> contact_abs (contact_at y x)"

definition sessions_ok :: "offer_book \<Rightarrow> handoff_system \<Rightarrow> bool" where
  "sessions_ok book y \<longleftrightarrow> (\<forall>x. session_ok book x (spec_at y x) (commit_refs (wires y x)) (commit_refs (wires y (opposite x))))"

definition unlisted :: "offer_book \<Rightarrow> (u32 \<times> u32) set" where
  "unlisted book = {(m, s). book m = None}"

lemma session_ok_mono: "session_ok book x a S R \<Longrightarrow> R \<subseteq> R' \<Longrightarrow> session_ok book x a S R'"
  unfolding session_ok_def by blast

lemma binds_keeps:
  assumes b: "binds (R \<union> unlisted book) a a' sent" and ok: "session_ok book x a S R"
    and own: "\<And>w ch. spec_phase a = Committing w ch \<Longrightarrow> book (offer_ref w) = Some (x, w)"
  shows "session_ok book x a' (S \<union> sent) R"
proof (cases "spec_phase a' = Closed")
  case False
  then have a: "spec_phase a \<noteq> Closed" "spec_session a = None \<or> spec_session a' = spec_session a"
    and sent: "\<forall>(m, s) \<in> sent. spec_session a' = Some s"
    using b by (auto simp: binds_def session_kept_def)
  have "\<forall>(m, s) \<in> S \<union> sent. spec_session a' = Some s" using ok a sent by (auto simp: session_ok_def)
  moreover have "\<exists>s. spec_session a' = Some s \<and> (m, s) \<in> R" if m: "spec_completed a' = Some m" "book m = Some (opposite x, w)" for m w
  proof -
    consider "spec_completed a' = spec_completed a" | s where "spec_session a' = Some s" "(m, s) \<in> R \<union> unlisted book"
      | v ch where "spec_phase a = Committing v ch" "offer_ref v = m"
      using b m(1) by (auto simp: binds_def completes_def)
    then show ?thesis
    proof cases
      case 1
      then show ?thesis using ok a m by (fastforce simp: session_ok_def)
    next
      case 2
      then show ?thesis using m(2) by (auto simp: unlisted_def)
    next
      case 3
      then show ?thesis using own m(2) by fastforce
    qed
  qed
  ultimately show ?thesis by (simp add: session_ok_def)
qed (simp add: session_ok_def)

lemma committing_own:
  assumes "handoffs_inv book y" "spec_phase (spec_at y x) = Committing w ch"
  shows "book (offer_ref w) = Some (x, w)"
proof -
  have "owner_ok book x (nodes_of y x) (signals (wires y x))" using assms(1) by (simp add: handoffs_inv_def nodes_ok_def)
  then show ?thesis using assms(2) own_or_other(2) [of book x "nodes_of y x"] by (simp add: contact_at_def)
qed

lemma at_handoff_peer_sessions:
  assumes inv: "handoffs_inv book y" and ok: "sessions_ok book y"
    and step: "at_handoff_peer x f y = Some (st, z)"
    and f: "peer_binds (commit_refs (wires y (opposite x)) \<union> unlisted book) (handoff_peers y x) (f (handoff_peers y x))"
  shows "sessions_ok book z"
proof -
  obtain p msgs where r: "f (handoff_peers y x) = Some (st, p, msgs)"
    and z: "z = y\<lparr>handoff_peers := (handoff_peers y)(x := p), wires := (wires y)(x := wires y x @ msgs)\<rparr>"
    using step by (auto simp: at_handoff_peer_def split: Option.bind_splits)
  have i: "session_ok book u (spec_at y u) (commit_refs (wires y u)) (commit_refs (wires y (opposite u)))" for u
    using ok by (simp add: sessions_ok_def)
  have b: "binds (commit_refs (wires y (opposite x)) \<union> unlisted book) (spec_at y x) (contact_abs (peer_contact p)) (commit_refs msgs)"
    using f r by (simp add: peer_binds_def contact_at_def)
  show ?thesis unfolding sessions_ok_def
  proof (rule side_pair [where x = x])
    show "session_ok book x (spec_at z x) (commit_refs (wires z x)) (commit_refs (wires z (opposite x)))"
      using binds_keeps [OF b i committing_own [OF inv]] by (simp add: z contact_at_def)
    show "session_ok book (opposite x) (spec_at z (opposite x)) (commit_refs (wires z (opposite x))) (commit_refs (wires z (opposite (opposite x))))"
      using session_ok_mono [OF i [of "opposite x"]] by (simp add: z contact_at_def)
  qed
qed

lemma delivered_refs: "i < length msgs \<Longrightarrow> commit_refs [msgs ! i] \<subseteq> commit_refs msgs"
  by (auto simp: commit_refs_def)

lemma deliver_sessions:
  assumes inv: "handoffs_inv book y" and ok: "sessions_ok book y" and n: "n < length (wires y x)"
    and step: "at_handoff_peer (opposite x) (receive_handoff True (wires y x ! n)) y = Some (st, z)"
  shows "sessions_ok book z"
proof (rule at_handoff_peer_sessions [OF inv ok step])
  have i: "contact_inv (peer_contact (handoff_peers y u))" for u using inv by (simp add: handoffs_inv_def)
  have h: "commit_refs [wires y x ! n] \<subseteq> commit_refs (wires y (opposite (opposite x))) \<union> unlisted book"
    using delivered_refs [OF n] by auto
  show "peer_binds (commit_refs (wires y (opposite (opposite x))) \<union> unlisted book) (handoff_peers y (opposite x))
      (receive_handoff True (wires y x ! n) (handoff_peers y (opposite x)))"
    using offer_ops_bind(5) [OF i] receive_control_binds [OF i] h
    by (cases "wires y x ! n") (simp_all del: commit_refs_simps(2) receive_handoff.simps(1,2))
qed

lemma exec_sessions:
  assumes inv: "handoffs_inv book y" and ok: "sessions_ok book y" and legal: "handoffs_legal book e"
    and step: "handoffs_exec True e y = Some (st, z)"
  shows "sessions_ok book z"
proof -
  have i: "contact_inv (peer_contact (handoff_peers y x))" for x using inv by (simp add: handoffs_inv_def)
  note at = at_handoff_peer_sessions [OF inv ok]
  show ?thesis
  proof (cases e)
    case (Handoff_Offer x w)
    then show ?thesis using step by (intro at [where f = "offer_handoff w" and x = x, OF _ offer_ops_bind(1) [OF i]]) simp
  next
    case (Handoff_Accept x s)
    then show ?thesis
      using step by (intro at [where f = "by_offers [] (accept_offer s)" and x = x, OF _ offer_ops_bind(2) [OF i]]) simp
  next
    case (Handoff_Probe x ch)
    then have "8 \<le> length ch" using legal by simp
    from at [where f = "probe_path ch" and x = x, OF _ probe_path_binds [OF i this]] show ?thesis using step Handoff_Probe by simp
  next
    case (Handoff_Commit x)
    then show ?thesis using step by (intro at [where f = send_commit and x = x, OF _ send_commit_binds [OF i]]) simp
  next
    case (Handoff_Deliver x n)
    then show ?thesis using deliver_sessions [OF inv ok, of n x] step ok by (auto split: if_splits)
  next
    case (Handoff_Foreign x B)
    then have "commit_refs [Control_Body B] \<subseteq> unlisted book"
      using legal by (auto simp: unlisted_def split: option.splits if_splits)
    then have "commit_refs [Control_Body B] \<subseteq> commit_refs (wires y (opposite x)) \<union> unlisted book" by blast
    from at [where f = "by_contact (receive_control B)" and x = x, OF _ receive_control_binds [OF i this]] show ?thesis
      using step Handoff_Foreign by (simp add: at_handoff_peer_def)
  next
    case (Handoff_Give_Up x)
    then show ?thesis using step by (intro at [where f = "by_offers [] give_up" and x = x, OF _ offer_ops_bind(3) [OF i]]) simp
  next
    case (Handoff_Close x)
    then show ?thesis using step by (intro at [where f = "by_offers [] close_peer" and x = x, OF _ offer_ops_bind(4) [OF i]]) simp
  qed
qed

lemma sessions_ok_start:
  assumes "handoffs_start book t0 y"
  shows "sessions_ok book y"
  using assms by (auto simp: handoffs_start_def Let_def sessions_ok_def session_ok_def contact_at_def abs_completed)

lemma handoffs_reach:
  assumes "handoffs_start book t0 y" "list_all (handoffs_legal book) es" "run_calls (handoffs_exec True) es y = Some z"
  shows "handoffs_inv book z" "sessions_ok book z"
proof -
  note inv = handoffs_inv_start [OF assms(1)]
  show "handoffs_inv book z" by (rule handoffs.run_inv [OF inv assms(2,3)])
  show "sessions_ok book z"
    by (rule handoffs.run_stable [where P = "sessions_ok book", OF exec_sessions inv sessions_ok_start [OF assms(1)] assms(2,3)])
qed


section \<open>Catching up\<close>












section \<open>Left behind\<close>

text \<open>\<open>n\<close> has committed to \<open>w\<close>, and \<open>d\<close>, who knows that offer, neither has it pending any more nor has completed it.\<close>

definition stranded :: "offer \<Rightarrow> node \<Rightarrow> node \<Rightarrow> signal set \<Rightarrow> bool" where
  "stranded w n d R \<longleftrightarrow> (node_stage n = Sealed w \<or> node_stage n = Shut) \<and> offer_ref w \<in> node_known d
     \<and> (\<forall>own v. node_stage d = Pending own v \<longrightarrow> offer_ref v \<noteq> offer_ref w)
     \<and> node_done d \<noteq> Some (offer_ref w) \<and> Confirm_Signal (offer_ref w) \<notin> R"

lemma stranded_sender:
  assumes "node_step book x R n n' out" and st: "stranded w n d R" and b: "book (offer_ref w) = Some (x, w)"
  shows "stranded w n' d R \<and> node_medium n' = node_medium n"
  using assms(1) st b
  by (cases rule: node_move.cases) (auto simp: stranded_def foreign_signals_def)

lemma stranded_receiver:
  assumes "node_step book (opposite x) S d d' out" and st: "stranded w n d R" and b: "book (offer_ref w) = Some (x, w)"
    and d: "owner_ok book (opposite x) d R" and n: "owner_ok book (opposite (opposite x)) n S"
  shows "stranded w n d' (R \<union> out)"
  using assms(1)
proof (cases rule: node_move.cases)
  case (replace v u)
  then show ?thesis using no_replace [OF d n] by blast
next
  case (finish v)
  then have "offer_ref v \<noteq> offer_ref w" using own_or_other(2) [OF d finish(3)] b by auto
  then show ?thesis using st finish by (auto simp: stranded_def)
qed (use st in \<open>auto simp: stranded_def\<close>)

definition stranded_at :: "side \<Rightarrow> offer \<Rightarrow> byte \<Rightarrow> handoff_system \<Rightarrow> bool" where
  "stranded_at x w t y \<longleftrightarrow> stranded w (nodes_of y x) (nodes_of y (opposite x)) (sent_signals y (opposite x))
     \<and> node_medium (nodes_of y x) = t"

lemma stranded_stays:
  assumes inv: "handoffs_inv book y" and st: "stranded_at x w t y" and b: "book (offer_ref w) = Some (x, w)" and "joint_step book y z"
  shows "stranded_at x w t z"
proof -
  obtain u n out where step: "node_step book u (sent_signals y (opposite u)) (nodes_of y u) n out"
    and z: "nodes_of z = (nodes_of y)(u := n)" "sent_signals z = (sent_signals y)(u := sent_signals y u \<union> out)"
    using assms(4) unfolding joint_step_def by blast
  have o: "owner_ok book v (nodes_of y v) (sent_signals y v)" for v using inv by (simp add: handoffs_inv_def nodes_ok_def)
  note at = fun_cong [OF z(1)] fun_cong [OF z(2)]
  consider (sender) "u = x" | (receiver) "u = opposite x" using side_cases by blast
  then show ?thesis
  proof cases
    case sender
    have st': "stranded w (nodes_of y x) (nodes_of y (opposite x)) (sent_signals y (opposite x))" "node_medium (nodes_of y x) = t"
      using st by (simp_all add: stranded_at_def)
    have "stranded w n (nodes_of y (opposite x)) (sent_signals y (opposite x)) \<and> node_medium n = node_medium (nodes_of y x)"
      by (rule stranded_sender [OF step [unfolded sender] st'(1) b])
    then show ?thesis using st'(2) sender by (simp add: stranded_at_def at)
  next
    case receiver
    then show ?thesis
      using stranded_receiver [OF step [unfolded receiver] _ b o] o [of x] st unfolding stranded_at_def at by simp
  qed
qed

lemma stranded_run:
  assumes "handoffs_inv book y" "stranded_at x w t y" "book (offer_ref w) = Some (x, w)"
    and "list_all (handoffs_legal book) fs" "run_calls (handoffs_exec True) fs y = Some u"
  shows "stranded_at x w t u"
proof (rule handoffs.run_stable [where P = "stranded_at x w t", OF _ assms(1,2,4,5)])
  fix d e d' assume "handoffs_inv book d" "stranded_at x w t d" "handoffs_legal book e" "handoffs_exec True e d = Some (MCL_LINK_OK, d')"
  then show "stranded_at x w t d'"
    using handoffs_step [of book d e] stranded_stays [of book d x w t d'] assms(3) by (auto simp: steps_well_def)
qed

lemma stranded_start:
  assumes inv: "handoffs_inv book y" and c: "contact_state (contact_at y x) = 6"
    and d: "contact_pending_migration_ref (contact_at y x) \<in> set (known_refs (handoff_peers y (opposite x)))"
      "contact_pending_migration_ref (contact_at y (opposite x)) \<noteq> contact_pending_migration_ref (contact_at y x)"
      "contact_completed_migration_ref (contact_at y (opposite x)) \<noteq> contact_pending_migration_ref (contact_at y x)"
  shows "stranded_at x (pending_offer (contact_at y x)) (contact_active_transport (contact_at y x)) y"
proof -
  let ?w = "pending_offer (contact_at y x)"
  have i: "contact_inv (peer_contact (handoff_peers y u))" for u using inv by (simp add: handoffs_inv_def)
  have w: "node_stage (nodes_of y x) = Sealed ?w" using c by (simp add: phase_state contact_at_def)
  have ref: "offer_ref ?w = contact_pending_migration_ref (contact_at y x)" by (simp add: pending_offer_def)
  have "offer_ref v = contact_pending_migration_ref (contact_at y (opposite x))" if "node_stage (nodes_of y (opposite x)) = Pending own v" for own v
  proof -
    have "phase_offer (spec_phase (contact_abs (peer_contact (handoff_peers y (opposite x))))) = Some v"
      using that by (cases "phase_of (peer_contact (handoff_peers y (opposite x)))") auto
    then show ?thesis using session_nz(1) [OF i] by (simp add: contact_at_def)
  qed
  moreover have dn: "node_done (nodes_of y (opposite x)) \<noteq> Some (offer_ref ?w)" using d(3) ref by (simp add: abs_completed contact_at_def)
  moreover have "Confirm_Signal (offer_ref ?w) \<notin> sent_signals y (opposite x)"
    using inv w dn by (auto simp: handoffs_inv_def nodes_ok_def commit_ok_def)
  ultimately show ?thesis using w d(1,2) ref by (auto simp: stranded_at_def stranded_def contact_at_def)
qed

text \<open>C37: a receiver that gives up strands the sender. If a contact is committing and the other one, whose caller has dealt with the
  offer, has dropped that migration without completing it (it gave up the validated path), then no further
  run, with whatever other migrations, in which no old offer reaches a peer that has dealt
  with it, or the callers drop such an offer, brings the committing contact anywhere but to its
  close: it can neither complete the migration nor leave it, and stays on its old medium.\<close>

theorem handoffs_stranded:
  assumes "handoffs_start book t0 y" "list_all (handoffs_legal book) (es @ fs)" "careful \<or> \<not> replays (es @ fs) y"
    and "run_calls (handoffs_exec careful) es y = Some z" "run_calls (handoffs_exec careful) fs z = Some u"
    and "contact_state (contact_at z x) = MCL_CONTACT_STATE_COMMITTING"
    and "contact_pending_migration_ref (contact_at z x) \<in> set (known_refs (handoff_peers z (opposite x)))"
    and "contact_pending_migration_ref (contact_at z (opposite x)) \<noteq> contact_pending_migration_ref (contact_at z x)"
    and "contact_completed_migration_ref (contact_at z (opposite x)) \<noteq> contact_pending_migration_ref (contact_at z x)"
  shows "contact_state (contact_at u x) \<in> {MCL_CONTACT_STATE_COMMITTING, MCL_CONTACT_STATE_CLOSED}
    \<and> contact_active_transport (contact_at u x) = contact_active_transport (contact_at z x)"
proof -
  let ?w = "pending_offer (contact_at z x)"
  have l: "list_all (handoffs_legal book) es" "list_all (handoffs_legal book) fs" using assms(2) by simp_all
  have r: "run_calls (handoffs_exec True) (es @ fs) y = Some u"
    using run_either [OF assms(3)] assms(4,5) by (simp add: run_calls_append)
  have rz: "careful \<or> \<not> replays es y" using assms(3) replays_append by blast
  have z: "run_calls (handoffs_exec True) es y = Some z" using run_either [OF rz] assms(4) by simp
  have fu: "run_calls (handoffs_exec True) fs z = Some u" using r z by (simp add: run_calls_append)
  note inv = handoffs_reach(1) [OF assms(1) l(1) z]
  have "spec_phase (spec_at z x) = Committing ?w (contact_challenge (contact_at z x))" using assms(6) by (simp add: phase_state)
  then have b: "book (offer_ref ?w) = Some (x, ?w)" by (rule committing_own [OF inv])
  have st: "stranded_at x ?w (contact_active_transport (contact_at z x)) u"
    using stranded_run [OF inv stranded_start [OF inv assms(6-9)] b l(2) fu] by simp
  have "contact_inv (contact_at u x)" using handoffs_reach(1) [OF assms(1,2) r] by (simp add: handoffs_inv_def contact_at_def)
  then show ?thesis using st
    by (cases rule: state_cases) (auto simp: stranded_at_def stranded_def phase_state contact_at_def contact_abs_def)
qed

text \<open>One migration in which the receiver gives up after the commit has been sent, and what may follow.\<close>

definition stranding_events :: "handoff_event list" where
  "stranding_events =
    [Handoff_Offer Left (offer_to 9 2), Handoff_Deliver Left 0, Handoff_Accept Right 7, Handoff_Deliver Right 0,
     Handoff_Probe Left [1, 2, 3, 4, 5, 6, 7, 8], Handoff_Deliver Left 1, Handoff_Deliver Right 1,
     Handoff_Commit Left, Handoff_Give_Up Right]"

definition later_events :: "handoff_event list" where
  "later_events = [Handoff_Deliver Left 2, Handoff_Give_Up Left, Handoff_Offer Right (offer_to 11 4), Handoff_Deliver Right 2]"

lemma stranding_fresh: "\<not> replays (stranding_events @ later_events) fresh_handoffs"
  by (simp add: stranding_events_def later_events_def sample_defs replay_defs Let_def del: One_nat_def)

lemma stranding_run: "\<exists>z. run_calls (handoffs_exec careful) stranding_events fresh_handoffs = Some z
    \<and> contact_state (contact_at z Left) = 6 \<and> contact_pending_migration_ref (contact_at z Left) = 9
    \<and> contact_active_transport (contact_at z Left) = 1
    \<and> 9 \<in> set (known_refs (handoff_peers z Right)) \<and> contact_pending_migration_ref (contact_at z Right) = 0
    \<and> contact_completed_migration_ref (contact_at z Right) = 0
    \<and> (\<exists>u. run_calls (handoffs_exec careful) later_events z = Some u \<and> contact_active_transport (contact_at u Right) = 1)"
  by (simp add: stranding_events_def later_events_def sample_defs replay_defs contact_at_def Let_def del: One_nat_def)

lemma handoffs_stranded_witness:
  "\<exists>z u. run_calls (handoffs_exec False) stranding_events fresh_handoffs = Some z
    \<and> run_calls (handoffs_exec False) later_events z = Some u
    \<and> contact_state (contact_at u Left) \<in> {6, 7} \<and> contact_active_transport (contact_at u Left) = 1"
proof -
  obtain z u where z: "run_calls (handoffs_exec False) stranding_events fresh_handoffs = Some z"
    "contact_state (contact_at z Left) = 6" "contact_pending_migration_ref (contact_at z Left) = 9"
    "contact_active_transport (contact_at z Left) = 1" "9 \<in> set (known_refs (handoff_peers z Right))"
    "contact_pending_migration_ref (contact_at z Right) = 0" "contact_completed_migration_ref (contact_at z Right) = 0"
    and u: "run_calls (handoffs_exec False) later_events z = Some u"
    using stranding_run by blast
  have l: "list_all (handoffs_legal handoff_book) (stranding_events @ later_events)"
    by (simp add: stranding_events_def later_events_def handoff_book_def offer_to_def)
  from handoffs_stranded [OF fresh_handoffs_start l disjI2 [OF stranding_fresh] z(1) u, of Left] z u show ?thesis
    by (auto simp del: handoffs_exec.simps run_calls.simps)
qed

text \<open>The side condition is needed: when the old offer itself comes to the receiver again and it takes it up
  once more, the old challenge and the old commit follow, and both are at rest on the new medium.\<close>

definition rescuing_events :: "handoff_event list" where
  "rescuing_events = [Handoff_Deliver Left 0, Handoff_Accept Right 7, Handoff_Deliver Left 1, Handoff_Deliver Left 2, Handoff_Deliver Right 4]"

lemma stranded_rescued:
  "\<exists>z. run_calls (handoffs_exec False) (stranding_events @ rescuing_events) fresh_handoffs = Some z
    \<and> (\<forall>x. contact_state (contact_at z x) = MCL_CONTACT_STATE_ACTIVE \<and> contact_active_transport (contact_at z x) = 2)"
  unfolding all_sides
  by (simp add: stranding_events_def rescuing_events_def sample_defs replay_defs contact_at_def Let_def del: One_nat_def)

end
