(* ===== verification/Mcl_Session.thy ===== *)
theory Mcl_Session
  imports Mcl_Link Mcl_Frame Mcl_Negotiation
begin

text \<open>
  Two peers that negotiate a session: \<open>link.c\<close> and \<open>negotiation.c\<close> put together the way
  \<open>spec/link-negotiation-v1.md\<close> sections 3 to 5 and \<open>spec/link-v0.md\<close> section 2 tell a caller to. Each
  peer advertises its capability, proposes the selection once it knows the other's, and checks the
  proposal it receives; its link follows along with \<open>mcl_link_transition\<close>. Bodies travel in
  frames. A frame that has been sent can be delivered at any later time, in any order, any
  number of times or never; bytes that hold no such body can arrive in between; and either peer can
  leave at any time, forget the other and start again.

  The system is a \<open>call_machine\<close> whose calls are the events. Neither peer has a role, so the
  peers are a function on \<open>side\<close>.
\<close>

section \<open>Bodies\<close>

datatype session_body =
    Advertised mcl_link_capability
  | Proposed mcl_link_negotiation

definition advertisement :: "mcl_link_frame \<Rightarrow> mcl_link_capability \<Rightarrow> byte list" where
  "advertisement header c = frame_emit (framed header MCL_LINK_CLASS_CAPABILITY (capability_emit c))"

definition proposal :: "mcl_link_frame \<Rightarrow> mcl_link_negotiation \<Rightarrow> byte list" where
  "proposal header n = frame_emit (framed header MCL_LINK_CLASS_NEGOTIATION (negotiation_emit n))"

text \<open>A datagram is one whole frame; the payload goes to the decoder of the frame's class.\<close>

definition session_body :: "byte list \<Rightarrow> session_body option" where
  "session_body B = (case frame_accept B of
     None \<Rightarrow> None
   | Some (f, k) \<Rightarrow>
       if k \<noteq> length B then None
       else if frame_class f = MCL_LINK_CLASS_CAPABILITY
       then map_option Advertised (capability_accept (payload_bytes f))
       else if frame_class f = MCL_LINK_CLASS_NEGOTIATION
       then map_option Proposed (negotiation_accept (payload_bytes f))
       else None)"

lemma session_bodies:
  assumes "frame_wire header"
  shows "capability_valid c \<Longrightarrow> session_body (advertisement header c) = Some (Advertised c)"
    "negotiation_valid n \<Longrightarrow> session_body (proposal header n) = Some (Proposed n)"
proof -
  have c: "length (capability_emit c) = 9" if "capability_valid c" using that by (simp add: capability_emit_eq)
  have n: "length (negotiation_emit n) = 7" if "negotiation_valid n" using that by (simp add: negotiation_emit_eq)
  note w = framed_wire [OF assms]
  have a: "frame_accept (frame_emit f) = Some (f, length (frame_emit f))" if "frame_wire f" for f
    using frame.accept_emit [OF that, of "[]"] by simp
  show "session_body (advertisement header c) = Some (Advertised c)" if v: "capability_valid c"
    using w [of 1 "capability_emit c"] c [OF v]
    by (simp add: session_body_def advertisement_def a capability.accept_emit [OF v])
  show "session_body (proposal header n) = Some (Proposed n)" if v: "negotiation_valid n"
    using w [of 2 "negotiation_emit n"] n [OF v]
    by (simp add: session_body_def proposal_def a negotiation.accept_emit [OF v])
qed

section \<open>One peer\<close>

record session_peer =
  own_capability :: mcl_link_capability
  own_header :: mcl_link_frame
  own_link :: mcl_link
  heard_capability :: "mcl_link_capability option"
  outcome :: "mcl_link_negotiation option"

type_synonym peer_result = "(mcl_link_status \<times> session_peer \<times> byte list list) option"

text \<open>The states in which the session is up.\<close>

definition in_session :: "session_peer \<Rightarrow> bool" where
  "in_session p \<longleftrightarrow> link_state (own_link p) \<in> {MCL_LINK_STATE_ESTABLISHED, MCL_LINK_STATE_ADAPTING,
     MCL_LINK_STATE_HANDOFF, MCL_LINK_STATE_FALLBACK}"

text \<open>Move the link through the given states, in order; stop at the first refusal.\<close>

fun link_through :: "byte list \<Rightarrow> mcl_link \<Rightarrow> (mcl_link_status \<times> mcl_link) option" where
  "link_through [] l = Some (MCL_LINK_OK, l)"
| "link_through (b # bs) l = do {
     (st, l') \<leftarrow> link_exec (Link_Transition b) l;
     if st = MCL_LINK_OK then link_through bs l' else Some (st, l') }"

text \<open>
  An operation that is possible from the state \<open>low\<close> on takes the link through the states it has
  not reached yet, up to \<open>goal\<close>. Only if every step is accepted is the peer updated and are
  the frames sent.
\<close>

definition route :: "byte \<Rightarrow> byte \<Rightarrow> byte \<Rightarrow> byte list option" where
  "route low goal state = (if low \<le> state \<and> state \<le> MCL_LINK_STATE_FALLBACK
     then Some (filter (\<lambda>b. state < b \<and> b \<le> goal)
       [MCL_LINK_STATE_CAPABILITIES, MCL_LINK_STATE_NEGOTIATING, MCL_LINK_STATE_ESTABLISHED])
     else None)"

definition advance :: "byte \<Rightarrow> byte \<Rightarrow> session_peer \<Rightarrow> session_peer \<Rightarrow> byte list list \<Rightarrow> peer_result" where
  "advance low goal p p' frames = (case route low goal (link_state (own_link p)) of
     None \<Rightarrow> Some (MCL_LINK_ERR_INVALID_STATE, p, [])
   | Some bs \<Rightarrow> do {
       (st, l) \<leftarrow> link_through bs (own_link p);
       Some (if st = MCL_LINK_OK then (st, p'\<lparr>own_link := l\<rparr>, frames) else (st, p, [])) })"

text \<open>
  A peer advertises its capability, once or again. It proposes the selection that it computes from
  its own capability and the one it has heard. A capability that arrives replaces the one
  heard before; a proposal that arrives has to pass \<open>mcl_link_negotiation_check\<close>, which is given
  the peer's capability if it has been heard.
\<close>

definition advertise :: "session_peer \<Rightarrow> peer_result" where
  "advertise p = advance MCL_LINK_STATE_DISCOVERED MCL_LINK_STATE_CAPABILITIES p p
     [advertisement (own_header p) (own_capability p)]"

definition propose :: "session_peer \<Rightarrow> peer_result" where
  "propose p = (case mcl_link_negotiation_select (Some (own_capability p)) (heard_capability p) (Some blank_negotiation) of
     (MCL_LINK_OK, Some n) \<Rightarrow> advance MCL_LINK_STATE_CAPABILITIES MCL_LINK_STATE_NEGOTIATING p p [proposal (own_header p) n]
   | (st, _) \<Rightarrow> Some (st, p, []))"

definition receive_frame :: "session_peer \<Rightarrow> byte list \<Rightarrow> peer_result" where
  "receive_frame p B = (case session_body B of
     None \<Rightarrow> Some (MCL_LINK_ERR_RANGE, p, [])
   | Some (Advertised c) \<Rightarrow>
       if link_state (own_link p) = MCL_LINK_STATE_IDLE \<or> link_state (own_link p) = MCL_LINK_STATE_CLOSED
       then Some (MCL_LINK_ERR_INVALID_STATE, p, [])
       else Some (MCL_LINK_OK, p\<lparr>heard_capability := Some c\<rparr>, [])
   | Some (Proposed n) \<Rightarrow>
       (let st = mcl_link_negotiation_check (Some n) (Some (own_capability p)) (heard_capability p) in
        if st \<noteq> MCL_LINK_OK then Some (st, p, [])
        else advance MCL_LINK_STATE_CAPABILITIES MCL_LINK_STATE_ESTABLISHED p (p\<lparr>outcome := Some n\<rparr>) []))"

text \<open>
  All other movements of the link are up to the peer, except those the negotiation makes: it goes
  to \<open>ESTABLISHED\<close> only back from a later state. Where the code drops the context the peer
  drops what it has heard and agreed.
\<close>

definition forgets :: "byte \<Rightarrow> bool" where
  "forgets b \<longleftrightarrow> b \<in> {MCL_LINK_STATE_IDLE, MCL_LINK_STATE_DISCOVERED, MCL_LINK_STATE_CLOSED}"

definition move_link :: "byte \<Rightarrow> session_peer \<Rightarrow> peer_result" where
  "move_link b p =
    (if b = MCL_LINK_STATE_CAPABILITIES \<or> b = MCL_LINK_STATE_NEGOTIATING
        \<or> b = MCL_LINK_STATE_ESTABLISHED \<and> outcome p = None
     then Some (MCL_LINK_ERR_INVALID_ARGUMENT, p, [])
     else do {
       (st, l) \<leftarrow> link_exec (Link_Transition b) (own_link p);
       Some (st, if st \<noteq> MCL_LINK_OK then p
         else if forgets b then p\<lparr>own_link := l, heard_capability := None, outcome := None\<rparr>
         else p\<lparr>own_link := l\<rparr>, []) })"

definition install :: "mcl_link_context_key \<Rightarrow> session_peer \<Rightarrow> peer_result" where
  "install k p = do {
     (st, l) \<leftarrow> link_exec (Link_Install k) (own_link p);
     Some (st, p\<lparr>own_link := l\<rparr>, []) }"

section \<open>The system\<close>

record session_system =
  peers :: "side \<Rightarrow> session_peer"
  sent :: "side \<Rightarrow> byte list list"

datatype session_event =
    Advertise side
  | Propose side
  | Deliver_From side nat
  | Foreign_Frame side "byte list"
  | Move_Link side byte
  | Install side mcl_link_context_key

definition at_side :: "side \<Rightarrow> (session_peer \<Rightarrow> peer_result) \<Rightarrow> session_system
    \<Rightarrow> (mcl_link_status \<times> session_system) option" where
  "at_side x f y = do {
     (st, p, frames) \<leftarrow> f (peers y x);
     Some (st, y\<lparr>peers := (peers y)(x := p), sent := (sent y)(x := sent y x @ frames)\<rparr>) }"

fun session_exec :: "(session_event, session_system) call_exec" where
  "session_exec (Advertise x) y = at_side x advertise y"
| "session_exec (Propose x) y = at_side x propose y"
| "session_exec (Deliver_From x i) y =
    (if i < length (sent y x) then at_side (opposite x) (\<lambda>p. receive_frame p (sent y x ! i)) y
     else Some (MCL_LINK_ERR_INVALID_ARGUMENT, y))"
| "session_exec (Foreign_Frame x B) y = at_side x (\<lambda>p. receive_frame p B) y"
| "session_exec (Move_Link x b) y = at_side x (move_link b) y"
| "session_exec (Install x k) y = at_side x (install k) y"

text \<open>Foreign bytes hold no capability and no proposal; a context key is an object of its type.\<close>

fun session_legal :: "session_event \<Rightarrow> bool" where
  "session_legal (Foreign_Frame x B) \<longleftrightarrow> session_body B = None"
| "session_legal (Install x k) \<longleftrightarrow> key_object k"
| "session_legal _ \<longleftrightarrow> True"

text \<open>The start: two idle links that support the Wire majors the peers will advertise.\<close>

definition session_start :: "(side \<Rightarrow> mcl_link_capability) \<Rightarrow> (side \<Rightarrow> mcl_link_frame) \<Rightarrow> session_system" where
  "session_start caps headers = \<lparr>
     peers = (\<lambda>x. \<lparr>own_capability = caps x, own_header = headers x, own_link = link_start (cap_wire_majors (caps x)),
       heard_capability = None, outcome = None\<rparr>),
     sent = (\<lambda>x. [])\<rparr>"

section \<open>The invariant\<close>

text \<open>A peer with capability \<open>c\<close> whose partner has capability \<open>d\<close>.\<close>

definition peer_ok :: "mcl_link_capability \<Rightarrow> mcl_link_capability \<Rightarrow> session_peer \<Rightarrow> bool" where
  "peer_ok c d p \<longleftrightarrow> link_inv (own_link p) \<and> link_supported_wire_majors_mask (own_link p) = cap_wire_majors c
     \<and> frame_wire (own_header p) \<and> own_capability p = c \<and> capability_valid c
     \<and> (heard_capability p = None \<or> heard_capability p = Some d)
     \<and> (case outcome p of None \<Rightarrow> \<not> in_session p
        | Some n \<Rightarrow> in_session p \<and> selectable c d \<and> n = selected c d)"

text \<open>Everything on the wire was said by the peer that has these capabilities.\<close>

definition frames_ok :: "mcl_link_capability \<Rightarrow> mcl_link_capability \<Rightarrow> byte list list \<Rightarrow> bool" where
  "frames_ok c d frames \<longleftrightarrow> (\<forall>B \<in> set frames. session_body B = Some (Advertised c)
     \<or> selectable c d \<and> session_body B = Some (Proposed (selected c d)))"

definition session_inv :: "(side \<Rightarrow> mcl_link_capability) \<Rightarrow> session_system \<Rightarrow> bool" where
  "session_inv caps y \<longleftrightarrow> (\<forall>x. peer_ok (caps x) (caps (opposite x)) (peers y x)
     \<and> frames_ok (caps x) (caps (opposite x)) (sent y x))"

text \<open>A result that keeps all this, and that changes nothing if it is a refusal.\<close>

definition peer_good :: "mcl_link_capability \<Rightarrow> mcl_link_capability \<Rightarrow> session_peer \<Rightarrow> peer_result \<Rightarrow> bool" where
  "peer_good c d p r \<longleftrightarrow> (\<exists>st p' frames. r = Some (st, p', frames) \<and> peer_ok c d p' \<and> frames_ok c d frames
     \<and> (st \<noteq> MCL_LINK_OK \<longrightarrow> p' = p \<and> frames = []))"

subsection \<open>What the link does\<close>

lemma link_moves:
  assumes "link_inv l" "lifecycle_of (link_state l) = Some s" "lifecycle_of b = Some t" "lifecycle_edge s t"
  shows "\<exists>l'. link_exec (Link_Transition b) l = Some (MCL_LINK_OK, l') \<and> link_inv l' \<and> link_state l' = b
    \<and> link_supported_wire_majors_mask l' = link_supported_wire_majors_mask l"
proof -
  have "key_object (link_active_context l)" using assms(1) by (simp add: link_inv_def)
  from transition_accepted [OF assms(2-4) this] link_refines [OF assms(1), of "Link_Transition b"]
  show ?thesis by (auto split: if_splits)
qed

lemma link_stays:
  assumes "link_inv l" "link_exec (Link_Transition b) l = Some (st, l')" "st \<noteq> MCL_LINK_OK"
  shows "l' = l"
  using link.exec_refused [OF assms(1) _ assms(2,3)] by simp

lemma byte_states: "link_inv l \<Longrightarrow> link_state l \<in> {0, 1, 2, 3, 4, 5, 6, 7, 8}"
  using lifecycle_of_cases [of "link_state l"] by (auto simp: link_inv_def)

text \<open>The way of an operation through the states it has not reached is always open.\<close>

fun consecutive :: "byte \<Rightarrow> byte list \<Rightarrow> bool" where
  "consecutive state [] \<longleftrightarrow> True"
| "consecutive state (b # bs) \<longleftrightarrow> (state, b) \<in> {(1, 2), (2, 3), (3, 4)} \<and> consecutive b bs"

lemma link_through_consecutive:
  "link_inv l \<Longrightarrow> consecutive (link_state l) bs \<Longrightarrow>
    \<exists>l'. link_through bs l = Some (MCL_LINK_OK, l') \<and> link_inv l' \<and> link_state l' = last (link_state l # bs)
    \<and> link_supported_wire_majors_mask l' = link_supported_wire_majors_mask l"
proof (induction bs arbitrary: l)
  case (Cons b bs)
  then have "\<exists>s t. lifecycle_of (link_state l) = Some s \<and> lifecycle_of b = Some t \<and> lifecycle_edge s t"
    by (auto intro: lifecycle_edge.intros)
  then obtain l1 where l1: "link_exec (Link_Transition b) l = Some (MCL_LINK_OK, l1)" "link_inv l1"
      "link_state l1 = b" "link_supported_wire_majors_mask l1 = link_supported_wire_majors_mask l"
    using link_moves [OF Cons.prems(1)] by blast
  have "consecutive (link_state l1) bs" using Cons.prems(2) l1(3) by simp
  from Cons.IH [OF l1(2) this] l1 show ?case by (auto simp del: link_exec.simps)
qed simp

lemma route_cases: "\<forall>s \<in> set [0, 1, 2, 3, 4, 5, 6, 7, 8]. \<forall>(low, goal) \<in> set [(1, 2), (2, 3), (2, 4)].
    case route low goal s of None \<Rightarrow> s < low \<or> s = 8
    | Some bs \<Rightarrow> low \<le> s \<and> s < 8 \<and> consecutive s bs \<and> last (s # bs) = max goal s"
  by (simp add: route_def max_def word_le_nat_alt)

lemma route_consecutive:
  assumes "s \<in> {0, 1, 2, 3, 4, 5, 6, 7, 8}" "(low, goal) \<in> {(1, 2), (2, 3), (2, 4)}"
  shows "case route low goal s of None \<Rightarrow> s < low \<or> s = 8
    | Some bs \<Rightarrow> low \<le> s \<and> s < 8 \<and> consecutive s bs \<and> last (s # bs) = max goal s"
  using route_cases assms by (metis (mono_tags, lifting) case_prodD list.set(1) list.set(2))

lemma advance_eq:
  assumes inv: "link_inv (own_link p)" and low: "(low, goal) \<in> {(1, 2), (2, 3), (2, 4)}"
  obtains (refused) "link_state (own_link p) < low \<or> link_state (own_link p) = 8"
      "\<And>p' frames. advance low goal p p' frames = Some (MCL_LINK_ERR_INVALID_STATE, p, [])"
  | (taken) l where "low \<le> link_state (own_link p)" "link_state (own_link p) < 8"
      "\<And>p' frames. advance low goal p p' frames = Some (MCL_LINK_OK, p'\<lparr>own_link := l\<rparr>, frames)"
      "link_inv l" "link_state l = max goal (link_state (own_link p))"
      "link_supported_wire_majors_mask l = link_supported_wire_majors_mask (own_link p)"
proof (cases "route low goal (link_state (own_link p))")
  case None
  then show ?thesis
    using refused route_consecutive [OF byte_states [OF inv] low] by (simp add: advance_def)
next
  case (Some bs)
  then have r: "low \<le> link_state (own_link p)" "link_state (own_link p) < 8" "consecutive (link_state (own_link p)) bs"
      "last (link_state (own_link p) # bs) = max goal (link_state (own_link p))"
    using route_consecutive [OF byte_states [OF inv] low] by simp_all
  obtain l where "link_through bs (own_link p) = Some (MCL_LINK_OK, l)" "link_inv l"
      "link_state l = last (link_state (own_link p) # bs)"
      "link_supported_wire_majors_mask l = link_supported_wire_majors_mask (own_link p)"
    using link_through_consecutive [OF inv r(3)] by blast
  then show ?thesis using taken r Some by (simp add: advance_def del: last.simps)
qed

subsection \<open>What an operation does to a peer\<close>

lemma frames_ok_simps [simp]:
  "frames_ok c d []"
  "frames_ok c d (frames @ frames') \<longleftrightarrow> frames_ok c d frames \<and> frames_ok c d frames'"
  by (auto simp: frames_ok_def)

lemma in_session_iff: "link_inv (own_link p) \<Longrightarrow> in_session p \<longleftrightarrow> 4 \<le> link_state (own_link p) \<and> link_state (own_link p) < 8"
  using byte_states [of "own_link p"] by (auto simp: in_session_def word_le_nat_alt word_less_nat_alt)

lemma peer_okD:
  assumes "peer_ok c d p"
  shows "link_inv (own_link p)" "frame_wire (own_header p)" "own_capability p = c" "capability_valid c"
    "link_supported_wire_majors_mask (own_link p) = cap_wire_majors c"
    "heard_capability p = None \<or> heard_capability p = Some d"
    "in_session p \<longleftrightarrow> outcome p \<noteq> None" "outcome p = Some n \<Longrightarrow> selectable c d \<and> n = selected c d"
  using assms by (auto simp: peer_ok_def split: option.splits)

lemma peer_good_refused: "peer_ok c d p \<Longrightarrow> st \<noteq> MCL_LINK_OK \<Longrightarrow> peer_good c d p (Some (st, p, []))"
  by (simp add: peer_good_def)

text \<open>A step to a state before the session changes only the link.\<close>

lemma advance_good:
  assumes ok: "peer_ok c d p" and low: "(low, goal) \<in> {(1, 2), (2, 3)}" and frames: "frames_ok c d frames"
  shows "peer_good c d p (advance low goal p p frames)"
proof -
  have g: "(low, goal) \<in> {(1, 2), (2, 3), (2, 4)}" using low by auto
  show ?thesis
  proof (cases rule: advance_eq [OF peer_okD(1) [OF ok] g])
    case 1
    then show ?thesis using ok by (simp add: peer_good_refused)
  next
    case (2 l)
    have "in_session (p\<lparr>own_link := l\<rparr>) \<longleftrightarrow> in_session p"
      using 2 low by (auto simp: in_session_iff peer_okD(1) [OF ok] max_def word_le_nat_alt word_less_nat_alt)
    then have "peer_ok c d (p\<lparr>own_link := l\<rparr>)" using 2 ok by (simp add: peer_ok_def split: option.splits)
    then show ?thesis using 2(3) frames by (simp add: peer_good_def)
  qed
qed

lemma advertise_good: "peer_ok c d p \<Longrightarrow> peer_good c d p (advertise p)"
  unfolding advertise_def
  by (rule advance_good) (simp_all add: frames_ok_def session_bodies peer_okD)

lemma propose_refused: "heard_capability p = Some d \<Longrightarrow> \<not> selectable (own_capability p) d
    \<Longrightarrow> propose p = Some (MCL_LINK_ERR_RANGE, p, [])"
  "heard_capability p = None \<Longrightarrow> propose p = Some (MCL_LINK_ERR_INVALID_ARGUMENT, p, [])"
  by (simp_all add: propose_def select_eq) (simp add: mcl_link_negotiation_select_def)

lemma propose_good:
  assumes ok: "peer_ok c d p"
  shows "peer_good c d p (propose p)"
proof (cases "heard_capability p = Some d \<and> selectable c d")
  case True
  then have "propose p = advance 2 3 p p [proposal (own_header p) (selected c d)]"
    using peer_okD(3) [OF ok] by (simp add: propose_def select_eq)
  moreover have "frames_ok c d [proposal (own_header p) (selected c d)]"
    using True peer_okD(2) [OF ok] by (simp add: frames_ok_def session_bodies selected_valid)
  ultimately show ?thesis using advance_good [OF ok] by simp
next
  case False
  then show ?thesis
    using peer_okD(3,6) [OF ok] propose_refused [of p] peer_good_refused [OF ok] by auto
qed

text \<open>Receiving: the frame comes from the other peer, or holds nothing of this kind.\<close>

definition arriving :: "mcl_link_capability \<Rightarrow> mcl_link_capability \<Rightarrow> byte list \<Rightarrow> bool" where
  "arriving c d B \<longleftrightarrow> session_body B = None \<or> session_body B = Some (Advertised d)
     \<or> selectable c d \<and> session_body B = Some (Proposed (selected c d))"

lemma settle_good:
  assumes ok: "peer_ok c d p" and sel: "selectable c d"
  shows "peer_good c d p (advance 2 4 p (p\<lparr>outcome := Some (selected c d)\<rparr>) [])"
proof -
  have g: "(2, 4) \<in> {(1, 2), (2, 3), (2, 4 :: byte)}" by simp
  show ?thesis
  proof (cases rule: advance_eq [OF peer_okD(1) [OF ok] g])
    case 1
    then show ?thesis using ok by (simp add: peer_good_refused)
  next
    case (2 l)
    then have "in_session (p\<lparr>outcome := Some (selected c d), own_link := l\<rparr>)"
      by (simp add: in_session_iff max_def word_le_nat_alt word_less_nat_alt)
    then have "peer_ok c d (p\<lparr>outcome := Some (selected c d), own_link := l\<rparr>)" using 2 ok sel by (simp add: peer_ok_def)
    then show ?thesis using 2(3) by (simp add: peer_good_def)
  qed
qed

lemma receive_proposed:
  assumes ok: "peer_ok c d p" and sel: "selectable c d" and B: "session_body B = Some (Proposed (selected c d))"
  shows "receive_frame p B = advance 2 4 p (p\<lparr>outcome := Some (selected c d)\<rparr>) []"
proof -
  have "mcl_link_negotiation_check (Some (selected c d)) (Some (own_capability p)) (heard_capability p) = MCL_LINK_OK"
    using peer_okD(3,6) [OF ok] sel selected_weak [OF sel] by (auto simp: strong_check_eq weak_check_eq)
  then show ?thesis using B by (simp add: receive_frame_def)
qed

lemma receive_good:
  assumes ok: "peer_ok c d p" and B: "arriving c d B"
  shows "peer_good c d p (receive_frame p B)"
proof -
  consider "session_body B = None" | "session_body B = Some (Advertised d)"
    | "selectable c d" "session_body B = Some (Proposed (selected c d))"
    using B by (auto simp: arriving_def)
  then show ?thesis
  proof cases
    case 1
    then show ?thesis using peer_good_refused [OF ok] by (simp add: receive_frame_def)
  next
    case 2
    have "peer_ok c d (p\<lparr>heard_capability := Some d\<rparr>)"
      using ok by (simp add: peer_ok_def in_session_def split: option.splits)
    then show ?thesis using 2 ok by (simp add: receive_frame_def peer_good_def)
  next
    case 3
    then show ?thesis using receive_proposed [OF ok] settle_good [OF ok] by simp
  qed
qed

text \<open>Other movements of the link, and the context.\<close>

lemma link_moved:
  assumes inv: "link_inv l" and r: "link_exec (Link_Transition b) l = Some (MCL_LINK_OK, l')"
  obtains s t where "lifecycle_of (link_state l) = Some s" "lifecycle_of b = Some t" "lifecycle_edge s t"
    "link_inv l'" "link_state l' = b" "link_supported_wire_majors_mask l' = link_supported_wire_majors_mask l"
proof -
  obtain s where s: "lifecycle_of (link_state l) = Some s" using inv by (auto simp: link_inv_def)
  have "\<not> (case lifecycle_of b of None \<Rightarrow> True | Some t \<Rightarrow> \<not> lifecycle_edge s t)"
    using transition_refused [OF s, of b] r by auto
  then obtain t where t: "lifecycle_of b = Some t" "lifecycle_edge s t" by (auto split: option.splits)
  then show ?thesis using that link_moves [OF inv s t] s r by auto
qed

lemma edge_leaves:
  assumes "lifecycle_of x = Some s" "lifecycle_of b = Some t" "lifecycle_edge s t" "b \<in> {5, 6, 7}"
  shows "x \<in> {4, 5}"
  using assms(3,4) lifecycle_of_cases [OF assms(1)] lifecycle_of_cases [OF assms(2)]
  by (elim lifecycle_edgeE) auto

lemma move_good:
  assumes ok: "peer_ok c d p"
  shows "peer_good c d p (move_link b p)"
proof -
  have inv: "link_inv (own_link p)" by (rule peer_okD(1) [OF ok])
  obtain st l where r: "link_exec (Link_Transition b) (own_link p) = Some (st, l)"
    using link.exec_safe [OF inv, of "Link_Transition b"] by auto
  consider (refused) "b = 2 \<or> b = 3 \<or> b = 4 \<and> outcome p = None \<or> st \<noteq> MCL_LINK_OK"
    | (moved) "b \<noteq> 2" "b \<noteq> 3" "b = 4 \<Longrightarrow> outcome p \<noteq> None" "st = MCL_LINK_OK" by blast
  then show ?thesis
  proof cases
    case refused
    then show ?thesis using r ok by (auto simp: move_link_def peer_good_refused simp del: link_exec.simps)
  next
    case moved
    then obtain s t where m: "lifecycle_of (link_state (own_link p)) = Some s" "lifecycle_of b = Some t"
        "lifecycle_edge s t" "link_inv l" "link_state l = b"
        "link_supported_wire_majors_mask l = cap_wire_majors c"
      using link_moved [OF inv, of b l] r peer_okD(5) [OF ok] by (metis (no_types))
    have b: "b \<in> {4, 5, 6, 7} \<longleftrightarrow> \<not> forgets b"
      using lifecycle_of_cases [OF m(2)] moved(1,2) by (auto simp: forgets_def)
    have l: "in_session p' \<longleftrightarrow> \<not> forgets b" if "own_link p' = l" for p'
      using b by (simp add: in_session_def that m(5))
    have "outcome p \<noteq> None" if "b \<in> {4, 5, 6, 7}"
      using that edge_leaves [OF m(1-3)] moved(3) peer_okD(7) [OF ok] by (auto simp: in_session_def)
    then have "peer_ok c d (if forgets b then p\<lparr>own_link := l, heard_capability := None, outcome := None\<rparr>
        else p\<lparr>own_link := l\<rparr>)"
      using ok m(4,6) b by (cases "forgets b") (simp_all add: peer_ok_def l split: option.splits)
    then show ?thesis using moved r ok by (simp add: move_link_def peer_good_def del: link_exec.simps)
  qed
qed

lemma install_keeps:
  assumes "link_inv l" "key_object k" "link_exec (Link_Install k) l = Some (st, l')"
  shows "link_inv l'" "st \<noteq> MCL_LINK_OK \<Longrightarrow> l' = l" "link_state l' = link_state l"
    "link_supported_wire_majors_mask l' = link_supported_wire_majors_mask l"
proof -
  show "link_inv l'" "st \<noteq> MCL_LINK_OK \<Longrightarrow> l' = l"
    using link.exec_inv [OF assms(1) _ assms(3)] link.exec_refused [OF assms(1) _ assms(3)] assms(2) by simp_all
  obtain s where s: "lifecycle_of (link_state l) = Some s" and obj: "key_object (link_active_context l)"
    using assms(1) by (auto simp: link_inv_def)
  show "link_state l' = link_state l" "link_supported_wire_majors_mask l' = link_supported_wire_majors_mask l"
    using assms(3) by (auto simp: install_eq [OF obj assms(2) s] split: if_splits)
qed

lemma install_good:
  assumes ok: "peer_ok c d p" and k: "key_object k"
  shows "peer_good c d p (install k p)"
proof -
  have inv: "link_inv (own_link p)" by (rule peer_okD(1) [OF ok])
  obtain st l where r: "link_exec (Link_Install k) (own_link p) = Some (st, l)"
    using link.exec_safe [OF inv, of "Link_Install k"] k by auto
  note i = install_keeps [OF inv k r]
  have "in_session (p\<lparr>own_link := l\<rparr>) \<longleftrightarrow> in_session p" by (simp add: in_session_def i(3))
  then have "peer_ok c d (p\<lparr>own_link := l\<rparr>)"
    using ok i(1,4) by (simp add: peer_ok_def split: option.splits)
  then show ?thesis using r i(2) by (auto simp: peer_good_def install_def simp del: link_exec.simps)
qed

section \<open>The system is a call machine\<close>

lemma at_side_good:
  assumes inv: "session_inv caps y"
    and good: "peer_good (caps x) (caps (opposite x)) (peers y x) (f (peers y x))"
  shows "\<exists>st y'. at_side x f y = Some (st, y') \<and> session_inv caps y' \<and> (st \<noteq> MCL_LINK_OK \<longrightarrow> y' = y)"
proof -
  obtain st p frames where r: "f (peers y x) = Some (st, p, frames)" "peer_ok (caps x) (caps (opposite x)) p"
      "frames_ok (caps x) (caps (opposite x)) frames" "st \<noteq> MCL_LINK_OK \<Longrightarrow> p = peers y x \<and> frames = []"
    using good by (auto simp: peer_good_def)
  have "session_inv caps (y\<lparr>peers := (peers y)(x := p), sent := (sent y)(x := sent y x @ frames)\<rparr>)"
    using inv r(2,3) by (simp add: session_inv_def)
  then show ?thesis using r(1,4) by (auto simp: at_side_def)
qed

lemma arriving_sent:
  assumes "session_inv caps y" "i < length (sent y x)"
  shows "arriving (caps (opposite x)) (caps x) (sent y x ! i)"
proof -
  have "frames_ok (caps x) (caps (opposite x)) (sent y x)" using assms(1) by (simp add: session_inv_def)
  with nth_mem [OF assms(2)] show ?thesis
    using selected_commute [of "caps x" "caps (opposite x)"] by (auto simp: frames_ok_def arriving_def)
qed

lemma session_step:
  assumes inv: "session_inv caps y" and legal: "session_legal e"
  shows "\<exists>st y'. session_exec e y = Some (st, y') \<and> session_inv caps y' \<and> (st \<noteq> MCL_LINK_OK \<longrightarrow> y' = y)"
proof -
  have ok: "peer_ok (caps x) (caps (opposite x)) (peers y x)" for x using inv by (simp add: session_inv_def)
  show ?thesis
  proof (cases e)
    case (Deliver_From x i)
    show ?thesis
    proof (cases "i < length (sent y x)")
      case True
      have "peer_good (caps (opposite x)) (caps (opposite (opposite x))) (peers y (opposite x))
          (receive_frame (peers y (opposite x)) (sent y x ! i))"
        by (rule receive_good [OF ok]) (simp add: arriving_sent [OF inv True])
      then show ?thesis
        using at_side_good [OF inv, where f = "\<lambda>p. receive_frame p (sent y x ! i)"] Deliver_From True by simp
    qed (use Deliver_From inv in simp)
  next
    case (Foreign_Frame x B)
    then have "arriving (caps x) (caps (opposite x)) B" using legal by (simp add: arriving_def)
    then show ?thesis
      using at_side_good [OF inv, where f = "\<lambda>p. receive_frame p B"] receive_good [OF ok] Foreign_Frame by simp
  next
    case (Install x k)
    then show ?thesis using at_side_good [OF inv, where f = "install k"] install_good [OF ok] legal by simp
  qed (use at_side_good [OF inv] advertise_good [OF ok] propose_good [OF ok] move_good [OF ok] in simp_all)
qed

interpretation session: call_machine session_exec "session_inv caps" session_legal for caps
  by unfold_locales (use session_step in fastforce)+

section \<open>Getting into the session\<close>

definition session_caps :: "(side \<Rightarrow> mcl_link_capability) \<Rightarrow> (side \<Rightarrow> mcl_link_frame) \<Rightarrow> bool" where
  "session_caps caps headers \<longleftrightarrow> (\<forall>x. capability_valid (caps x) \<and> frame_wire (headers x))"

lemma session_inv_start: "session_caps caps headers \<Longrightarrow> session_inv caps (session_start caps headers)"
  by (simp add: session_caps_def session_inv_def session_start_def peer_ok_def link_inv_start in_session_def)
    (simp add: link_start_def)

lemma selected_sides: "selectable (caps x) (caps (opposite x)) = selectable (caps Left) (caps Right)"
  "selected (caps x) (caps (opposite x)) = selected (caps Left) (caps Right)"
  using selected_commute by (cases x; simp)+

definition under_way :: "byte \<Rightarrow> session_peer \<Rightarrow> bool" where
  "under_way b p \<longleftrightarrow> b \<le> link_state (own_link p) \<and> link_state (own_link p) < MCL_LINK_STATE_CLOSED"

lemma moves_on:
  assumes ok: "peer_ok c d p" and state: "link_state (own_link p) \<noteq> 8"
  shows "\<exists>st p'. move_link 1 p = Some (st, p', []) \<and> peer_ok c d p' \<and> under_way 1 p'"
proof -
  note inv = peer_okD(1) [OF ok]
  obtain st l where r: "link_exec (Link_Transition 1) (own_link p) = Some (st, l)"
    using link.exec_safe [OF inv, of "Link_Transition 1"] by auto
  have "link_state l = 1" if "st = MCL_LINK_OK" using link_moved [OF inv, of 1 l] r that by metis
  moreover have "under_way 1 p" if "st \<noteq> MCL_LINK_OK"
  proof -
    have "link_state (own_link p) \<noteq> 0"
      using link_moves [OF inv, of Idle 1 Discovered] r that lifecycle_edge.discover by auto
    then show ?thesis using byte_states [OF inv] state by (auto simp: under_way_def word_le_nat_alt word_less_nat_alt)
  qed
  ultimately show ?thesis
    using move_good [OF ok, of 1] r
    by (auto simp: move_link_def peer_good_def under_way_def forgets_def simp del: link_exec.simps)
qed

text \<open>A peer that is under way is not refused a step.\<close>

lemma advance_on:
  assumes ok: "peer_ok c d p" and low: "(low, goal) \<in> {(1, 2), (2, 3), (2, 4)}" and state: "under_way low p"
  obtains l where "\<And>p' frames. advance low goal p p' frames = Some (MCL_LINK_OK, p'\<lparr>own_link := l\<rparr>, frames)"
    "goal \<le> link_state l" "link_state l < 8"
proof (cases rule: advance_eq [OF peer_okD(1) [OF ok] low])
  case 1
  then show ?thesis using state by (auto simp: under_way_def)
next
  case (2 l)
  then show ?thesis using that [of l] low by (auto simp: max_def word_less_nat_alt)
qed

lemma advertises_on:
  assumes ok: "peer_ok c d p" and state: "under_way 1 p"
  shows "\<exists>st p' B. advertise p = Some (st, p', [B]) \<and> session_body B = Some (Advertised c) \<and> peer_ok c d p' \<and> under_way 2 p'"
proof -
  have low: "(1, 2) \<in> {(1, 2), (2, 3), (2, 4 :: byte)}" by simp
  obtain l where l: "advertise p = Some (MCL_LINK_OK, p\<lparr>own_link := l\<rparr>, [advertisement (own_header p) c])"
      "2 \<le> link_state l" "link_state l < 8"
    using advance_on [OF ok low state] peer_okD(3) [OF ok] unfolding advertise_def by metis
  then show ?thesis
    using advertise_good [OF ok] session_bodies(1) [OF peer_okD(2,4) [OF ok]] by (auto simp: peer_good_def under_way_def)
qed

lemma hears_on:
  assumes ok: "peer_ok c d p" and state: "under_way 2 p" and B: "session_body B = Some (Advertised d)"
  shows "\<exists>st p'. receive_frame p B = Some (st, p', []) \<and> heard_capability p' = Some d \<and> peer_ok c d p' \<and> under_way 2 p'"
proof -
  have "receive_frame p B = Some (MCL_LINK_OK, p\<lparr>heard_capability := Some d\<rparr>, [])"
    using state B by (auto simp: receive_frame_def under_way_def)
  moreover have "arriving c d B" using B by (simp add: arriving_def)
  ultimately show ?thesis using receive_good [OF ok] state by (fastforce simp: peer_good_def under_way_def)
qed

lemma proposes_on:
  assumes ok: "peer_ok c d p" and state: "under_way 2 p" and heard: "heard_capability p = Some d" and sel: "selectable c d"
  shows "\<exists>st p' B. propose p = Some (st, p', [B]) \<and> session_body B = Some (Proposed (selected c d))
    \<and> peer_ok c d p' \<and> under_way 2 p'"
proof -
  have low: "(2, 3) \<in> {(1, 2), (2, 3), (2, 4 :: byte)}" by simp
  have "propose p = advance 2 3 p p [proposal (own_header p) (selected c d)]"
    using heard sel peer_okD(3) [OF ok] by (simp add: propose_def select_eq)
  then obtain l where l: "propose p = Some (MCL_LINK_OK, p\<lparr>own_link := l\<rparr>, [proposal (own_header p) (selected c d)])"
      "3 \<le> link_state l" "link_state l < 8"
    using advance_on [OF ok low state] by metis
  then have "under_way 2 (p\<lparr>own_link := l\<rparr>)" by (simp add: under_way_def word_le_nat_alt)
  then show ?thesis
    using l(1) propose_good [OF ok] session_bodies(2) [OF peer_okD(2) [OF ok] selected_valid [OF sel]]
    by (auto simp: peer_good_def)
qed

lemma settles_on:
  assumes ok: "peer_ok c d p" and state: "under_way 2 p" and sel: "selectable c d"
    and B: "session_body B = Some (Proposed (selected c d))"
  shows "\<exists>st p'. receive_frame p B = Some (st, p', []) \<and> peer_ok c d p' \<and> in_session p'"
proof -
  have low: "(2, 4) \<in> {(1, 2), (2, 3), (2, 4 :: byte)}" by simp
  have "receive_frame p B = advance 2 4 p (p\<lparr>outcome := Some (selected c d)\<rparr>) []"
    using receive_proposed [OF ok sel B] .
  then obtain l where l: "receive_frame p B = Some (MCL_LINK_OK, p\<lparr>outcome := Some (selected c d), own_link := l\<rparr>, [])"
    using advance_on [OF ok low state] by metis
  moreover have "arriving c d B" using B sel by (simp add: arriving_def)
  ultimately have "peer_ok c d (p\<lparr>outcome := Some (selected c d), own_link := l\<rparr>)"
    using receive_good [OF ok] by (fastforce simp: peer_good_def)
  then show ?thesis using l by (auto simp: peer_ok_def)
qed

text \<open>The same step on both sides.\<close>

lemma both_sides:
  assumes e1: "session_exec e1 y = at_side Left (f Left) y"
    and e2: "\<And>y'. (\<forall>x. prefix (sent y x) (sent y' x)) \<Longrightarrow> session_exec e2 y' = at_side Right (f Right) y'"
    and step: "\<And>x. \<exists>st p fr. f x (peers y x) = Some (st, p, fr) \<and> Q x p fr"
  shows "\<exists>y'. run_calls session_exec [e1, e2] y = Some y' \<and> (\<forall>x. \<exists>fr. sent y' x = sent y x @ fr \<and> Q x (peers y' x) fr)"
proof -
  obtain st p fr where l: "f Left (peers y Left) = Some (st, p, fr)" "Q Left p fr" using step by blast
  obtain st' p' fr' where r: "f Right (peers y Right) = Some (st', p', fr')" "Q Right p' fr'" using step by blast
  let ?y = "y\<lparr>peers := (peers y)(Left := p), sent := (sent y)(Left := sent y Left @ fr)\<rparr>"
  let ?z = "?y\<lparr>peers := (peers ?y)(Right := p'), sent := (sent ?y)(Right := sent y Right @ fr')\<rparr>"
  have "session_exec e1 y = Some (st, ?y)" using e1 l by (simp add: at_side_def)
  moreover have "session_exec e2 ?y = Some (st', ?z)" using r by (subst e2) (simp_all add: at_side_def)
  moreover have "\<exists>fr. sent ?z x = sent y x @ fr \<and> Q x (peers ?z x) fr" for x using l r by (cases x) auto
  ultimately show ?thesis by (intro exI [of _ ?z]) simp
qed

definition negotiate_again :: "session_system \<Rightarrow> session_event list" where
  "negotiate_again y = [Move_Link Left MCL_LINK_STATE_DISCOVERED, Move_Link Right MCL_LINK_STATE_DISCOVERED,
     Advertise Left, Advertise Right,
     Deliver_From Right (length (sent y Right)), Deliver_From Left (length (sent y Left)),
     Propose Left, Propose Right,
     Deliver_From Right (Suc (length (sent y Right))), Deliver_From Left (Suc (length (sent y Left)))]"

lemma delivered_both:
  assumes i: "\<And>x. i x < length (sent y x)"
    and step: "\<And>x. \<exists>st p. receive_frame (peers y x) (sent y (opposite x) ! i (opposite x)) = Some (st, p, []) \<and> Q x p"
  shows "\<exists>y'. run_calls session_exec [Deliver_From Right (i Right), Deliver_From Left (i Left)] y = Some y'
    \<and> sent y' = sent y \<and> (\<forall>x. Q x (peers y' x))"
proof -
  define f where "f = (\<lambda>x p. receive_frame p (sent y (opposite x) ! i (opposite x)))"
  have "\<exists>y'. run_calls session_exec [Deliver_From Right (i Right), Deliver_From Left (i Left)] y = Some y'
    \<and> (\<forall>x. \<exists>fr. sent y' x = sent y x @ fr \<and> fr = [] \<and> Q x (peers y' x))"
  proof (rule both_sides [where f = f])
    show "session_exec (Deliver_From Right (i Right)) y = at_side Left (f Left) y"
      using i by (simp add: f_def)
    show "session_exec (Deliver_From Left (i Left)) y' = at_side Right (f Right) y'"
      if p: "\<forall>x. prefix (sent y x) (sent y' x)" for y'
    proof -
      obtain fr where "sent y' Left = sent y Left @ fr" using p by (metis prefixE)
      then show ?thesis using i [of Left] by (simp add: f_def nth_append)
    qed
    show "\<exists>st p fr. f x (peers y x) = Some (st, p, fr) \<and> fr = [] \<and> Q x p" for x
      using step [of x] by (auto simp: f_def)
  qed
  then show ?thesis by (auto intro!: ext)
qed

lemma acted_both:
  assumes "\<And>x y. session_exec (e x) y = at_side x f y"
    and "\<And>x. \<exists>st p fr. f (peers y x) = Some (st, p, fr) \<and> Q x p fr"
  shows "\<exists>y'. run_calls session_exec [e Left, e Right] y = Some y'
    \<and> (\<forall>x. \<exists>fr. sent y' x = sent y x @ fr \<and> Q x (peers y' x) fr)"
  by (rule both_sides [where f = "\<lambda>x. f"]) (simp_all only: assms)

text \<open>The two halves of the schedule: the advertisements are heard, the proposals settle.\<close>

lemma heard_both:
  assumes ok: "\<And>x. peer_ok (caps x) (caps (opposite x)) (peers y x)"
    and state: "\<And>x. link_state (own_link (peers y x)) \<noteq> MCL_LINK_STATE_CLOSED"
  shows "\<exists>y'. run_calls session_exec (take 6 (negotiate_again y)) y = Some y'
    \<and> (\<forall>x. length (sent y' x) = Suc (length (sent y x)) \<and> peer_ok (caps x) (caps (opposite x)) (peers y' x)
        \<and> under_way 2 (peers y' x) \<and> heard_capability (peers y' x) = Some (caps (opposite x)))"
proof -
  define Q1 where "Q1 = (\<lambda>x p fr. fr = ([] :: byte list list) \<and> peer_ok (caps x) (caps (opposite x)) p \<and> under_way 1 p)"
  define Q2 where "Q2 = (\<lambda>x p fr. \<exists>B. fr = [B] \<and> session_body B = Some (Advertised (caps x))
    \<and> peer_ok (caps x) (caps (opposite x)) p \<and> under_way 2 p)"
  define Q3 where "Q3 = (\<lambda>x p. heard_capability p = Some (caps (opposite x))
    \<and> peer_ok (caps x) (caps (opposite x)) p \<and> under_way 2 p)"
  obtain y1 where y1: "run_calls session_exec [Move_Link Left 1, Move_Link Right 1] y = Some y1"
      "\<forall>x. \<exists>fr. sent y1 x = sent y x @ fr \<and> Q1 x (peers y1 x) fr"
    using acted_both [where e = "\<lambda>x. Move_Link x 1" and f = "move_link 1" and Q = Q1 and y = y] moves_on [OF ok state]
    by (fastforce simp: Q1_def)
  obtain y2 where y2: "run_calls session_exec [Advertise Left, Advertise Right] y1 = Some y2"
      "\<forall>x. \<exists>fr. sent y2 x = sent y1 x @ fr \<and> Q2 x (peers y2 x) fr"
    using acted_both [where e = Advertise and f = advertise and Q = Q2 and y = y1] advertises_on y1(2)
    by (fastforce simp: Q1_def Q2_def)
  have B: "sent y2 x = sent y x @ [sent y2 x ! length (sent y x)]"
      "session_body (sent y2 x ! length (sent y x)) = Some (Advertised (caps x))"
      "peer_ok (caps x) (caps (opposite x)) (peers y2 x)" "under_way 2 (peers y2 x)" for x
  proof -
    have "sent y1 x = sent y x" using y1(2) by (auto simp: Q1_def)
    then show "sent y2 x = sent y x @ [sent y2 x ! length (sent y x)]"
      "session_body (sent y2 x ! length (sent y x)) = Some (Advertised (caps x))"
      "peer_ok (caps x) (caps (opposite x)) (peers y2 x)" "under_way 2 (peers y2 x)"
      using spec [OF y2(2), of x] by (auto simp: Q2_def)
  qed
  obtain y3 where y3: "run_calls session_exec [Deliver_From Right (length (sent y Right)),
        Deliver_From Left (length (sent y Left))] y2 = Some y3" "sent y3 = sent y2" "\<forall>x. Q3 x (peers y3 x)"
  proof -
    have "\<exists>st p. receive_frame (peers y2 x) (sent y2 (opposite x) ! length (sent y (opposite x))) = Some (st, p, []) \<and> Q3 x p" for x
      using hears_on [OF B(3,4)] B(2) by (fastforce simp: Q3_def)
    moreover have "length (sent y x) < length (sent y2 x)" for x by (subst B(1)) simp
    ultimately show ?thesis using delivered_both [of "\<lambda>x. length (sent y x)" y2 Q3] that by blast
  qed
  have "take 6 (negotiate_again y) = [Move_Link Left 1, Move_Link Right 1] @ [Advertise Left, Advertise Right]
      @ [Deliver_From Right (length (sent y Right)), Deliver_From Left (length (sent y Left))]"
    by (simp add: negotiate_again_def)
  then have "run_calls session_exec (take 6 (negotiate_again y)) y = Some y3"
    by (simp only: run_calls_append y1 y2 y3 bind.bind_lunit)
  moreover have "length (sent y3 x) = Suc (length (sent y x))" for x unfolding y3(2) by (subst B(1)) simp
  ultimately show ?thesis using y3(3) by (auto simp: Q3_def)
qed

lemma settled_both:
  assumes ok: "\<And>x. peer_ok (caps x) (caps (opposite x)) (peers y x)" and state: "\<And>x. under_way 2 (peers y x)"
    and heard: "\<And>x. heard_capability (peers y x) = Some (caps (opposite x))"
    and sel: "selectable (caps Left) (caps Right)"
  shows "\<exists>y'. run_calls session_exec [Propose Left, Propose Right, Deliver_From Right (length (sent y Right)),
        Deliver_From Left (length (sent y Left))] y = Some y'
    \<and> (\<forall>x. in_session (peers y' x) \<and> peer_ok (caps x) (caps (opposite x)) (peers y' x))"
proof -
  have n: "selectable (caps x) (caps (opposite x))"
      "selected (caps x) (caps (opposite x)) = selected (caps Left) (caps Right)" for x
    using sel by (simp_all add: selected_sides)
  define Q4 where "Q4 = (\<lambda>x p fr. \<exists>B. fr = [B] \<and> session_body B = Some (Proposed (selected (caps Left) (caps Right)))
    \<and> peer_ok (caps x) (caps (opposite x)) p \<and> under_way 2 p)"
  define Q5 where "Q5 = (\<lambda>x p. in_session p \<and> peer_ok (caps x) (caps (opposite x)) p)"
  obtain y1 where y1: "run_calls session_exec [Propose Left, Propose Right] y = Some y1"
      "\<forall>x. \<exists>fr. sent y1 x = sent y x @ fr \<and> Q4 x (peers y1 x) fr"
    using acted_both [where e = Propose and f = propose and Q = Q4 and y = y] proposes_on [OF ok state heard n(1)]
    unfolding Q4_def n(2) by fastforce
  have B: "sent y1 x = sent y x @ [sent y1 x ! length (sent y x)]"
      "session_body (sent y1 x ! length (sent y x)) = Some (Proposed (selected (caps Left) (caps Right)))"
      "peer_ok (caps x) (caps (opposite x)) (peers y1 x)" "under_way 2 (peers y1 x)" for x
    using spec [OF y1(2), of x] by (auto simp: Q4_def)
  have "\<exists>st p. receive_frame (peers y1 x) (sent y1 (opposite x) ! length (sent y (opposite x))) = Some (st, p, []) \<and> Q5 x p" for x
    using settles_on [OF B(3,4) n(1)] B(2) unfolding Q5_def n(2) by fastforce
  moreover have "length (sent y x) < length (sent y1 x)" for x by (subst B(1)) simp
  ultimately obtain z where z: "run_calls session_exec [Deliver_From Right (length (sent y Right)),
        Deliver_From Left (length (sent y Left))] y1 = Some z" "\<forall>x. Q5 x (peers z x)"
    using delivered_both [of "\<lambda>x. length (sent y x)" y1 Q5] by blast
  have "run_calls session_exec ([Propose Left, Propose Right] @ [Deliver_From Right (length (sent y Right)),
        Deliver_From Left (length (sent y Left))]) y = Some z"
    by (simp only: run_calls_append y1 z bind.bind_lunit)
  then show ?thesis using z(2) by (auto simp: Q5_def)
qed

lemma negotiates:
  assumes inv: "session_inv caps y" and state: "\<forall>x. link_state (own_link (peers y x)) \<noteq> MCL_LINK_STATE_CLOSED"
    and sel: "selectable (caps Left) (caps Right)"
  shows "\<exists>z. run_calls session_exec (negotiate_again y) y = Some z
    \<and> (\<forall>x. in_session (peers z x) \<and> outcome (peers z x) = Some (selected (caps Left) (caps Right)))"
proof -
  have ok: "\<And>x. peer_ok (caps x) (caps (opposite x)) (peers y x)" using inv by (simp add: session_inv_def)
  obtain y1 where y1: "run_calls session_exec (take 6 (negotiate_again y)) y = Some y1"
      "\<And>x. length (sent y1 x) = Suc (length (sent y x))" "\<And>x. peer_ok (caps x) (caps (opposite x)) (peers y1 x)"
      "\<And>x. under_way 2 (peers y1 x)" "\<And>x. heard_capability (peers y1 x) = Some (caps (opposite x))"
    using heard_both [OF ok] state by metis
  obtain z where z: "run_calls session_exec [Propose Left, Propose Right, Deliver_From Right (length (sent y1 Right)),
        Deliver_From Left (length (sent y1 Left))] y1 = Some z"
      "\<And>x. in_session (peers z x)" "\<And>x. peer_ok (caps x) (caps (opposite x)) (peers z x)"
    using settled_both [OF y1(3-5) sel] by metis
  have "negotiate_again y = take 6 (negotiate_again y) @ [Propose Left, Propose Right,
      Deliver_From Right (length (sent y1 Right)), Deliver_From Left (length (sent y1 Left))]"
    by (simp add: negotiate_again_def y1(2))
  then have "run_calls session_exec (negotiate_again y) y = Some z"
    by (metis run_calls_append y1(1) z(1) bind.bind_lunit)
  moreover have "outcome (peers z x) = Some (selected (caps Left) (caps Right))" for x
    using peer_okD(7,8) [OF z(3) [of x]] z(2) [of x] by (auto simp: selected_sides)
  ultimately show ?thesis using z(2) by blast
qed

text \<open>Two peers with different capabilities, for the witnesses: they share the Wire major 1 and the Link
  major 0.\<close>

definition sample_caps :: "side \<Rightarrow> mcl_link_capability" where
  "sample_caps x = (case x of
     Left \<Rightarrow> \<lparr>cap_control_version = 0, cap_wire_majors = 3, cap_link_majors = 7, cap_max_frame = 64, cap_features = 5\<rparr>
   | Right \<Rightarrow> \<lparr>cap_control_version = 0, cap_wire_majors = 6, cap_link_majors = 1, cap_max_frame = 48, cap_features = 4\<rparr>)"

abbreviation (input) "sample_session \<equiv> session_start sample_caps (\<lambda>x. blank_frame)"

lemma sample_session:
  "session_caps sample_caps (\<lambda>x. blank_frame)" "selectable (sample_caps Left) (sample_caps Right)"
  "neg_wire_major (selected (sample_caps Left) (sample_caps Right)) = 1"
  "list_all session_legal (negotiate_again y)"
  "link_state (own_link (peers sample_session x)) = 0"
proof -
  have "capability_valid (sample_caps x)" for x by (cases x) (simp_all add: sample_caps_def capability_valid_def)
  moreover have "frame_wire blank_frame"
    by (simp add: frame_wire_def frame_ok_def blank_frame_def frame_content_def flagged_def pointee_def)
  ultimately show "session_caps sample_caps (\<lambda>x. blank_frame)" by (simp add: session_caps_def)
  show "selectable (sample_caps Left) (sample_caps Right)" by (simp add: selectable_def sample_caps_def)
  have "mcl_neg_highest_bit 2 = 1" by code_simp
  then have "top_bit (2 :: u16) = 1" by (simp add: highest_bit_eq)
  then show "neg_wire_major (selected (sample_caps Left) (sample_caps Right)) = 1"
    by (simp add: selected_def sample_caps_def)
  show "list_all session_legal (negotiate_again y)" by (simp add: negotiate_again_def)
  show "link_state (own_link (peers sample_session x)) = 0" by (simp add: session_start_def link_start_def)
qed

lemma sample_negotiated:
  obtains z where "run_calls session_exec (negotiate_again sample_session) sample_session = Some z"
    "\<And>x. in_session (peers z x)" "\<And>x. outcome (peers z x) = Some (selected (sample_caps Left) (sample_caps Right))"
  using negotiates [OF session_inv_start [OF sample_session(1)] _ sample_session(2)] sample_session(5) by auto

section \<open>Properties\<close>

text \<open>C13: agreement. However the frames of the two peers are lost, repeated, delayed and reordered,
  whichever peer speaks first or whether both do, and however often either leaves and comes back: a
  peer that is in the session holds the outcome that \<open>mcl_link_negotiation_select\<close> computes from the two
  capabilities. So two peers in the session hold the same one, also where a proposal was accepted
  before the other's capability was known, and without a common major nobody is ever in it.\<close>

theorem session_agreement:
  assumes "session_caps caps headers" "list_all session_legal es"
    and "run_calls session_exec es (session_start caps headers) = Some y"
    and "in_session (peers y x)"
  shows "mcl_link_negotiation_select (Some (caps Left)) (Some (caps Right)) (Some blank_negotiation)
    = (MCL_LINK_OK, outcome (peers y x))"
proof -
  have "session_inv caps y" by (rule session.run_inv [OF session_inv_start [OF assms(1)] assms(2,3)])
  then have "peer_ok (caps x) (caps (opposite x)) (peers y x)" by (simp add: session_inv_def)
  from peer_okD(7,8) [OF this] assms(4) show ?thesis by (auto simp: selected_sides select_eq)
qed

lemma session_agreement_witness:
  "\<exists>y. run_calls session_exec (negotiate_again sample_session) sample_session = Some y
    \<and> mcl_link_negotiation_select (Some (sample_caps Left)) (Some (sample_caps Right)) (Some blank_negotiation)
      = (MCL_LINK_OK, outcome (peers y Left))"
proof -
  obtain y where y: "run_calls session_exec (negotiate_again sample_session) sample_session = Some y"
      "in_session (peers y Left)"
    using sample_negotiated by metis
  from session_agreement [OF sample_session(1,4) y] y(1) show ?thesis by blast
qed

text \<open>C14: progress. From every state that can be reached, if neither link is closed and the capabilities have
  something in common, one more advertisement and one more proposal from each side, delivered
  once, bring both peers into the session with the outcome of the selection; nothing that happened
  before can stop them.\<close>

theorem session_progress:
  assumes "session_caps caps headers" "list_all session_legal es"
    and "run_calls session_exec es (session_start caps headers) = Some y"
    and state: "\<forall>x. link_state (own_link (peers y x)) \<noteq> MCL_LINK_STATE_CLOSED"
    and sel: "mcl_link_negotiation_select (Some (caps Left)) (Some (caps Right)) (Some blank_negotiation) = (MCL_LINK_OK, Some n)"
  shows "\<exists>z. run_calls session_exec (negotiate_again y) y = Some z
    \<and> (\<forall>x. in_session (peers z x) \<and> outcome (peers z x) = Some n)"
  using negotiates [OF session.run_inv [OF session_inv_start [OF assms(1)] assms(2,3)] state] sel
  by (auto simp: select_eq split: if_splits)

lemma session_progress_witness:
  "\<exists>y z n. run_calls session_exec [Move_Link Right 1, Advertise Right, Move_Link Left 1, Deliver_From Right 0] sample_session = Some y
    \<and> run_calls session_exec (negotiate_again y) y = Some z \<and> outcome (peers z Left) = Some n"
proof -
  let ?es = "[Move_Link Right 1, Advertise Right, Move_Link Left 1, Deliver_From Right 0]"
  have l: "list_all session_legal ?es" by simp
  have valid: "capability_valid (sample_caps Right)" "frame_wire blank_frame"
    using sample_session(1) by (simp_all add: session_caps_def)
  obtain y where y: "run_calls session_exec ?es sample_session = Some y"
      "\<forall>x. link_state (own_link (peers y x)) \<noteq> 8"
    by (simp add: session_start_def at_side_def move_link_def forgets_def link_start_def mcl_link_transition_def
        transition_to_def advertise_def advance_def route_def receive_frame_def session_bodies valid
        word_le_nat_alt word_less_nat_alt del: One_nat_def)
  have "mcl_link_negotiation_select (Some (sample_caps Left)) (Some (sample_caps Right)) (Some blank_negotiation)
      = (MCL_LINK_OK, Some (selected (sample_caps Left) (sample_caps Right)))"
    using sample_session(2) by (simp add: select_eq)
  from session_progress [OF sample_session(1) l y this] y(1) show ?thesis by blast
qed

subsection \<open>The context of the session\<close>

lemma installs_on:
  assumes ok: "peer_ok c d p" and up: "in_session p" and k: "key_object k" "valid_key k"
    and major: "key_wire_major k = neg_wire_major (selected c d)"
  shows "\<exists>st p'. install k p = Some (st, p', []) \<and> link_inv (own_link p')
    \<and> spec_context (link_abs (own_link p')) = Some (context_of k)"
proof -
  note inv = peer_okD(1) [OF ok]
  obtain s where s: "lifecycle_of (link_state (own_link p)) = Some s" and obj: "key_object (link_active_context (own_link p))"
    using inv by (auto simp: link_inv_def)
  have "\<not> uncontexted s"
    using up lifecycle_of_cases [OF s] by (auto simp: in_session_def)
  moreover have "weakly_acceptable (selected c d) c"
    using peer_okD(7,8) [OF ok] up selected_weak by auto
  then have "mask_has (link_supported_wire_majors_mask (own_link p)) (key_wire_major k)"
    using peer_okD(5) [OF ok] major by (simp add: weakly_acceptable_def mask_has_def)
  ultimately have i: "link_exec (Link_Install k) (own_link p)
      = Some (MCL_LINK_OK, (own_link p)\<lparr>link_active_context := stored_key k, link_context_valid := 1\<rparr>)"
    using k(2) by (simp add: install_eq [OF obj k(1) s])
  have "context_of (stored_key k) = context_of k"
    using k by (simp add: context_of_def stored_key_def key_object_def valid_key_def)
  then show ?thesis using i install_keeps(1) [OF inv k(1) i] by (simp add: install_def link_abs_def del: link_exec.simps)
qed

text \<open>C22: the context of a session. When both peers are in the session, a context whose Wire major is the
  negotiated one can be installed on both links, whatever else each of
  them supports; after that both authorise the keys that name this context and refuse all others as a mismatch.\<close>

theorem session_context:
  assumes "session_caps caps headers" "list_all session_legal es"
    and "run_calls session_exec es (session_start caps headers) = Some y"
    and up: "\<forall>x. in_session (peers y x)"
    and k: "key_object k" "valid_key k" "\<forall>n. outcome (peers y Left) = Some n \<longrightarrow> key_wire_major k = neg_wire_major n"
  shows "\<exists>z. run_calls session_exec [Install Left k, Install Right k] y = Some z
    \<and> (\<forall>x k'. key_object k' \<longrightarrow> mcl_link_authorize_context (Some (own_link (peers z x))) (Some k')
        = Some (if sized_key k' \<and> context_of k' = context_of k then MCL_LINK_OK else MCL_LINK_ERR_CONTEXT_MISMATCH))"
proof -
  have inv: "session_inv caps y" by (rule session.run_inv [OF session_inv_start [OF assms(1)] assms(2,3)])
  then have ok: "\<And>x. peer_ok (caps x) (caps (opposite x)) (peers y x)" by (simp add: session_inv_def)
  have major: "key_wire_major k = neg_wire_major (selected (caps x) (caps (opposite x)))" for x
    using peer_okD(7,8) [OF ok [of Left]] up k(3) by (auto simp: selected_sides)
  define Q where "Q = (\<lambda>(x :: side) (p :: session_peer) fr. fr = ([] :: byte list list) \<and> link_inv (own_link p)
    \<and> spec_context (link_abs (own_link p)) = Some (context_of k))"
  obtain z where z: "run_calls session_exec [Install Left k, Install Right k] y = Some z"
      "\<forall>x. \<exists>fr. sent z x = sent y x @ fr \<and> Q x (peers z x) fr"
    using acted_both [where e = "\<lambda>x. Install x k" and f = "install k" and Q = Q and y = y]
      installs_on [OF ok _ k(1,2) major] up by (fastforce simp: Q_def)
  have "mcl_link_authorize_context (Some (own_link (peers z x))) (Some k')
      = Some (if sized_key k' \<and> context_of k' = context_of k then MCL_LINK_OK else MCL_LINK_ERR_CONTEXT_MISMATCH)"
    if "key_object k'" for x k'
    using spec [OF z(2), of x] that by (auto simp: Q_def authorize_eq)
  then show ?thesis using z(1) by blast
qed

lemma session_context_witness:
  "\<exists>y z. run_calls session_exec (negotiate_again sample_session) sample_session = Some y
    \<and> run_calls session_exec [Install Left (sample_key\<lparr>key_wire_major := 1\<rparr>), Install Right (sample_key\<lparr>key_wire_major := 1\<rparr>)] y = Some z
    \<and> mcl_link_authorize_context (Some (own_link (peers z Left))) (Some sample_key) = Some MCL_LINK_ERR_CONTEXT_MISMATCH"
proof -
  let ?k = "sample_key\<lparr>key_wire_major := 1\<rparr>"
  have k: "key_object ?k" "valid_key ?k" "context_of sample_key \<noteq> context_of ?k"
    using sample_key_facts by (simp_all add: key_object_def valid_key_def context_of_def)
  obtain y where y: "run_calls session_exec (negotiate_again sample_session) sample_session = Some y"
      "\<forall>x. in_session (peers y x)" "outcome (peers y Left) = Some (selected (sample_caps Left) (sample_caps Right))"
    using sample_negotiated by metis
  then have "\<forall>n. outcome (peers y Left) = Some n \<longrightarrow> key_wire_major ?k = neg_wire_major n"
    using sample_session(3) by simp
  from session_context [OF sample_session(1,4) y(1,2) k(1,2) this]
  obtain z where z: "run_calls session_exec [Install Left ?k, Install Right ?k] y = Some z"
    and a: "\<forall>x k'. key_object k' \<longrightarrow> mcl_link_authorize_context (Some (own_link (peers z x))) (Some k')
      = Some (if sized_key k' \<and> context_of k' = context_of ?k then MCL_LINK_OK else MCL_LINK_ERR_CONTEXT_MISMATCH)"
    by (elim exE conjE)
  have "mcl_link_authorize_context (Some (own_link (peers z Left))) (Some sample_key) = Some MCL_LINK_ERR_CONTEXT_MISMATCH"
    using spec [OF spec [OF a, of Left], of sample_key] k(3) by simp
  with y(1) z show ?thesis by (intro exI conjI)
qed

end
