(* ===== verification/Mcl_Text.thy ===== *)
theory Mcl_Text
  imports Mcl_Prelude "HOL-Library.Sublist"
begin

text \<open>
  Text in memory, for the two host tools under \<open>src/tools\<close>. A \<open>char\<close> array is a string whose bytes
  may be any character; a pointer into it is an offset. Reading or writing outside the array is the
  fault \<open>None\<close>, as for byte arrays. The functions of \<open><string.h>\<close> and \<open><ctype.h>\<close> that the tools call
  are modelled here on arrays that hold a terminated string, and fault on arrays that do not.
\<close>

section \<open>Arrays of characters\<close>

abbreviation NUL :: char where "NUL \<equiv> CHR 0x00"
abbreviation quote :: char where "quote \<equiv> CHR 0x22"

definition char_at :: "string \<Rightarrow> nat \<Rightarrow> char option" where
  "char_at buf p = (if p < length buf then Some (buf ! p) else None)"

definition put_char :: "string \<Rightarrow> nat \<Rightarrow> char \<Rightarrow> string option" where
  "put_char buf p c = (if p < length buf then Some (buf[p := c]) else None)"

lemma char_at_in: "p < length buf \<Longrightarrow> char_at buf p = Some (buf ! p)"
  by (simp add: char_at_def)

lemma put_char_in: "p < length buf \<Longrightarrow> put_char buf p c = Some (buf[p := c])"
  by (simp add: put_char_def)

section \<open>Terminated strings\<close>

text \<open>The string that starts at an offset: the characters up to the first \<open>NUL\<close>.\<close>

definition c_string :: "string \<Rightarrow> nat \<Rightarrow> string option" where
  "c_string buf p = (if NUL \<in> set (drop p buf) then Some (takeWhile (\<lambda>c. c \<noteq> NUL) (drop p buf)) else None)"

definition c_strlen :: "string \<Rightarrow> nat \<Rightarrow> nat option" where
  "c_strlen buf p = map_option length (c_string buf p)"

text \<open>\<open>strcmp(buf + p, literal) == 0\<close>\<close>

definition c_equals :: "string \<Rightarrow> nat \<Rightarrow> string \<Rightarrow> bool option" where
  "c_equals buf p literal = map_option (\<lambda>s. s = literal) (c_string buf p)"

fun first_match :: "string \<Rightarrow> string \<Rightarrow> nat option" where
  "first_match pat s = (if prefix pat s then Some 0
     else case s of [] \<Rightarrow> None | _ # t \<Rightarrow> map_option Suc (first_match pat t))"

declare first_match.simps [simp del]

text \<open>\<open>strstr(buf + p, pat)\<close>, \<open>Some None\<close> being NULL, and \<open>strchr\<close>.\<close>

definition c_strstr :: "string \<Rightarrow> nat \<Rightarrow> string \<Rightarrow> nat option option" where
  "c_strstr buf p pat = map_option (\<lambda>s. map_option (\<lambda>i. p + i) (first_match pat s)) (c_string buf p)"

definition c_isspace :: "char \<Rightarrow> bool" where
  "c_isspace c \<longleftrightarrow> c = CHR 0x20 \<or> c = CHR 0x09 \<or> c = CHR 0x0A \<or> c = CHR 0x0B \<or> c = CHR 0x0C \<or> c = CHR 0x0D"

definition c_isdigit :: "char \<Rightarrow> bool" where
  "c_isdigit c \<longleftrightarrow> 48 \<le> (of_char c :: nat) \<and> (of_char c :: nat) \<le> 57"

text \<open>\<open>strtoul(buf + p, NULL, 10)\<close> where a digit stands: a value that does not fit is \<open>ULONG_MAX\<close>.\<close>

definition digit_value :: "char \<Rightarrow> nat" where
  "digit_value c = of_char c - 48"

definition decimal :: "string \<Rightarrow> nat" where
  "decimal ds = foldl (\<lambda>v c. v * 10 + digit_value c) 0 ds"

definition c_strtoul :: "nat \<Rightarrow> string \<Rightarrow> nat \<Rightarrow> nat option" where
  "c_strtoul ulong_max buf p = map_option (\<lambda>s. min ulong_max (decimal (takeWhile c_isdigit s))) (c_string buf p)"

text \<open>The loop \<open>while (p < end && pred( *p )) ++p;\<close>\<close>

function skip_while :: "(char \<Rightarrow> bool) \<Rightarrow> string \<Rightarrow> nat \<Rightarrow> nat \<Rightarrow> nat option" where
  "skip_while pred buf e p =
    (if p < e then do {
       c \<leftarrow> char_at buf p;
       if pred c then skip_while pred buf e (Suc p) else Some p }
     else Some p)"
  by pat_completeness auto
termination
  by (relation "measure (\<lambda>(pred, buf, e, p). e - p)") auto

declare skip_while.simps [simp del]

section \<open>Facts\<close>

lemma takeWhile_NUL: "NUL \<notin> set s \<Longrightarrow> takeWhile (\<lambda>c. c \<noteq> NUL) (s @ NUL # rest) = s"
  by (induction s) auto

lemma c_string_split: "NUL \<notin> set s \<Longrightarrow> drop p buf = s @ NUL # rest \<Longrightarrow> c_string buf p = Some s"
  by (simp add: c_string_def takeWhile_NUL)

lemma c_string_pos:
  assumes "c_string buf p = Some s"
  shows "p + length s < length buf" "NUL \<notin> set s" "take (length s) (drop p buf) = s"
    "buf ! (p + length s) = NUL"
proof -
  from assms have "NUL \<in> set (drop p buf)" by (auto simp: c_string_def split: if_splits)
  then obtain xs ys where d: "drop p buf = xs @ NUL # ys" "NUL \<notin> set xs" by (auto dest: split_list_first)
  then have s: "s = xs" using c_string_split [OF d(2,1)] assms by simp
  show "NUL \<notin> set s" "take (length s) (drop p buf) = s" using d s by simp_all
  have l: "length buf - p = length xs + Suc (length ys)" using arg_cong [OF d(1), of length] by simp
  then show "p + length s < length buf" using s by simp
  have "drop p buf ! length xs = NUL" using d(1) by simp
  then show "buf ! (p + length s) = NUL" using l s by simp
qed

lemma first_match_prefix: "first_match pat s = Some i \<Longrightarrow> prefix pat (drop i s) \<and> i \<le> length s"
proof (induction s arbitrary: i)
  case Nil
  then show ?case by (auto simp: first_match.simps [of pat "[]"] split: if_splits)
next
  case (Cons c s)
  then show ?case by (auto simp: first_match.simps [of pat "c # s"] split: if_splits)
qed

lemma first_match_least: "first_match pat s = Some i \<Longrightarrow> j < i \<Longrightarrow> \<not> prefix pat (drop j s)"
proof (induction s arbitrary: i j)
  case Nil
  then show ?case by (auto simp: first_match.simps [of pat "[]"] split: if_splits)
next
  case (Cons c s)
  then show ?case by (cases j) (auto simp: first_match.simps [of pat "c # s"] split: if_splits)
qed

lemma first_match_none: "first_match pat s = None \<Longrightarrow> \<not> prefix pat (drop j s)"
proof (induction s arbitrary: j)
  case Nil
  then show ?case by (auto simp: first_match.simps [of pat "[]"] split: if_splits)
next
  case (Cons c s)
  then show ?case by (cases j) (auto simp: first_match.simps [of pat "c # s"] split: if_splits)
qed

text \<open>On a terminated array \<open>strstr\<close> never faults, and what it finds lies before the terminator.\<close>

lemma c_string_some: "p < length buf \<Longrightarrow> last buf = NUL \<Longrightarrow> \<exists>s. c_string buf p = Some s"
proof -
  assume a: "p < length buf" "last buf = NUL"
  then have "last (drop p buf) = NUL" "drop p buf \<noteq> []" by auto
  then have "NUL \<in> set (drop p buf)" by (metis last_in_set)
  then show ?thesis by (simp add: c_string_def)
qed

lemma c_strstr_some: "p < length buf \<Longrightarrow> last buf = NUL \<Longrightarrow> \<exists>r. c_strstr buf p pat = Some r"
  using c_string_some by (fastforce simp: c_strstr_def)

lemma c_strstr_pos:
  assumes "c_strstr buf p pat = Some (Some q)"
  shows "p \<le> q" "q + length pat < length buf"
proof -
  from assms obtain s i where s: "c_string buf p = Some s" and i: "first_match pat s = Some i" "q = p + i"
    by (auto simp: c_strstr_def)
  show "p \<le> q" using i by simp
  have "prefix pat (drop i s)" "i \<le> length s" using first_match_prefix [OF i(1)] by auto
  then have "i + length pat \<le> length s" by (auto dest: prefix_length_le)
  then show "q + length pat < length buf" using c_string_pos(1) [OF s] i(2) by simp
qed

lemma skip_while_eq:
  "e \<le> length buf \<Longrightarrow> skip_while pred buf e p = Some (p + length (takeWhile pred (take (e - p) (drop p buf))))"
proof (induction pred buf e p rule: skip_while.induct)
  case (1 pred buf e p)
  show ?case
  proof (cases "p < e")
    case True
    then have d: "take (e - p) (drop p buf) = buf ! p # take (e - Suc p) (drop (Suc p) buf)"
      using 1(2) by (simp add: Cons_nth_drop_Suc [symmetric] take_Cons' Suc_diff_Suc)
    show ?thesis using True 1 d
      by (subst skip_while.simps) (simp add: char_at_in)
  next
    case False
    then show ?thesis by (subst skip_while.simps) simp
  qed
qed

lemma skip_while_some:
  assumes "e \<le> length buf"
  obtains q where "skip_while pred buf e p = Some q" "p \<le> q" "p \<le> e \<longrightarrow> q \<le> e"
    "q < e \<longrightarrow> \<not> pred (buf ! q)" "e \<le> p \<longrightarrow> q = p"
proof -
  let ?t = "take (e - p) (drop p buf)" let ?n = "length (takeWhile pred ?t)"
  have l: "?n \<le> length ?t" by (rule length_takeWhile_le)
  have "\<not> pred (buf ! (p + ?n))" if "p + ?n < e"
  proof -
    have "?n < length ?t" using that assms by simp
    from nth_length_takeWhile [OF this] that show ?thesis using assms by simp
  qed
  moreover have "p \<le> e \<Longrightarrow> p + ?n \<le> e" using l assms by simp
  ultimately show thesis using that [of "p + ?n"] skip_while_eq [OF assms] by simp
qed

lemma first_match_append: "first_match pat (xs @ pat) = Some (length xs) \<Longrightarrow> first_match pat (xs @ pat @ ys) = Some (length xs)"
proof (induction xs)
  case Nil
  then show ?case by (simp add: first_match.simps [of pat "pat @ ys"])
next
  case (Cons c xs)
  have "\<not> prefix pat (c # xs @ pat)"
    using Cons.prems by (auto simp: first_match.simps [of pat "c # xs @ pat"] split: if_splits)
  moreover have "prefix pat (c # xs @ pat)" if "prefix pat ((c # xs @ pat) @ ys)"
    using that by (rule prefix_length_prefix [of pat _ "c # xs @ pat"]) auto
  ultimately have n: "\<not> prefix pat (c # xs @ pat @ ys)" by auto
  have "first_match pat (xs @ pat) = Some (length xs)"
    using Cons.prems \<open>\<not> prefix pat (c # xs @ pat)\<close>
    by (simp add: first_match.simps [of pat "c # xs @ pat"])
  with Cons.IH n show ?case by (simp add: first_match.simps [of pat "c # xs @ pat @ ys"])
qed

text \<open>\<open>strstr\<close> on a text that is laid out as: something, the first occurrence, and the rest.\<close>

lemma c_strstr_layout:
  assumes "drop p buf = xs @ pat @ ys @ NUL # rest" "NUL \<notin> set (xs @ pat @ ys)"
    and "first_match pat (xs @ pat) = Some (length xs)"
  shows "c_strstr buf p pat = Some (Some (p + length xs))"
proof -
  have "c_string buf p = Some (xs @ pat @ ys)" by (rule c_string_split) (use assms in auto)
  then show ?thesis using first_match_append [OF assms(3), of ys] by (simp add: c_strstr_def)
qed

end
