(* ===== verification/Mcl_Vectors.thy ===== *)
theory Mcl_Vectors
  imports Mcl_Text Mcl_Handoff
begin

text \<open>
  The conformance check of \<open>src/tools/validate_handoff_vectors.c\<close>: it scans a JSON file for vectors
  without parsing it, runs the handoff decoder on the bytes of each and compares the outcome with
  what the file declares. The model takes the contents of the file and returns the exit code and the
  two counters; the diagnostics on the standard streams are left out. The arrays that the C
  code declares inside its loop start with arbitrary contents, given by \<open>scratch\<close>. The width of
  \<open>unsigned long\<close> is the parameter \<open>ulong_max\<close>.
\<close>

section \<open>Finding fields\<close>

definition json_gap :: "char \<Rightarrow> bool" where
  "json_gap c \<longleftrightarrow> c = CHR '' '' \<or> c = CHR '':'' \<or> c = CHR 0x09 \<or> c = CHR 0x0A \<or> c = CHR 0x0D"

definition pattern_of :: "string \<Rightarrow> string" where
  "pattern_of key = quote # key @ [quote]"

text \<open>The loop over the occurrences of the key, up to the opening quote of a string value.\<close>

partial_function (option) find_key_loop :: "string \<Rightarrow> nat \<Rightarrow> string \<Rightarrow> nat \<Rightarrow> nat option option" where
  "find_key_loop buf e pat p = do {
     found \<leftarrow> c_strstr buf p pat;
     case found of
       None \<Rightarrow> Some None
     | Some q \<Rightarrow>
         if q \<ge> e then Some None
         else do {
           p \<leftarrow> skip_while json_gap buf e (q + length pat);
           opens \<leftarrow> (if p < e then map_option (\<lambda>c. c = quote) (char_at buf p) else Some False);
           if opens then Some (Some p) else find_key_loop buf e pat p } }"

text \<open>The loop that copies the value, with NULL (\<open>None\<close>) for a value that does not fit.\<close>

function copy_value :: "string \<Rightarrow> nat \<Rightarrow> nat \<Rightarrow> string \<Rightarrow> nat \<Rightarrow> nat \<Rightarrow> (nat option \<times> string \<times> nat) option" where
  "copy_value buf e out_size out len p =
    (if p < e then do {
       c \<leftarrow> char_at buf p;
       if c = quote then Some (Some p, out, len)
       else if len + 1 \<ge> out_size then Some (None, out, len)
       else do {
         out \<leftarrow> put_char out len c;
         copy_value buf e out_size out (len + 1) (p + 1) } }
     else Some (Some p, out, len))"
  by pat_completeness auto
termination
  by (relation "measure (\<lambda>(buf, e, out_size, out, len, p). e - p)") auto

declare copy_value.simps [simp del]

definition find_string_value ::
  "string \<Rightarrow> nat \<Rightarrow> nat \<Rightarrow> string \<Rightarrow> string \<Rightarrow> nat \<Rightarrow> (nat option \<times> string) option" where
  "find_string_value buf from e key out out_size =
    (if length key + 4 \<ge> 64 then Some (None, out)
     else do {
       found \<leftarrow> find_key_loop buf e (pattern_of key) from;
       case found of
         None \<Rightarrow> Some (None, out)
       | Some p \<Rightarrow> do {
           (stop, out, len) \<leftarrow> copy_value buf e out_size out 0 (p + 1);
           case stop of
             None \<Rightarrow> Some (None, out)
           | Some p \<Rightarrow>
               if p \<ge> e then Some (None, out)
               else do {
                 out \<leftarrow> put_char out len NUL;
                 Some (Some (p + 1), out) } } })"

definition find_number_value ::
  "nat \<Rightarrow> string \<Rightarrow> nat \<Rightarrow> nat \<Rightarrow> string \<Rightarrow> nat \<Rightarrow> (nat option \<times> nat) option" where
  "find_number_value ulong_max buf from e key out =
    (if length key + 4 \<ge> 64 then Some (None, out)
     else do {
       found \<leftarrow> c_strstr buf from (pattern_of key);
       case found of
         None \<Rightarrow> Some (None, out)
       | Some q \<Rightarrow>
           if q \<ge> e then Some (None, out)
           else do {
             p \<leftarrow> skip_while json_gap buf e (q + length (pattern_of key));
             digit \<leftarrow> (if p < e then map_option c_isdigit (char_at buf p) else Some False);
             if \<not> digit then Some (None, out)
             else do {
               v \<leftarrow> c_strtoul ulong_max buf p;
               p \<leftarrow> skip_while c_isdigit buf e p;
               Some (Some p, v) } } })"

section \<open>Hexadecimal bytes and status names\<close>

definition hex_value :: "char \<Rightarrow> int" where
  "hex_value c = (let n = int (of_char c) in
     if 48 \<le> n \<and> n \<le> 57 then n - 48
     else if 97 \<le> n \<and> n \<le> 102 then 10 + (n - 97)
     else if 65 \<le> n \<and> n \<le> 70 then 10 + (n - 65)
     else - 1)"

primrec decode_hex_loop :: "string \<Rightarrow> nat \<Rightarrow> nat \<Rightarrow> byte list \<Rightarrow> (bool \<times> byte list) option" where
  "decode_hex_loop hex i 0 out = Some (True, out)"
| "decode_hex_loop hex i (Suc n) out = do {
     h \<leftarrow> char_at hex i;
     l \<leftarrow> char_at hex (i + 1);
     if hex_value h < 0 \<or> hex_value l < 0 then Some (False, out)
     else do {
       out \<leftarrow> wr out (i div 2) (word_of_int (push_bit 4 (hex_value h) OR hex_value l));
       decode_hex_loop hex (i + 2) n out } }"

definition decode_hex :: "string \<Rightarrow> byte list \<Rightarrow> nat \<Rightarrow> nat \<Rightarrow> (bool \<times> byte list \<times> nat) option" where
  "decode_hex hex out out_capacity written = do {
     len \<leftarrow> c_strlen hex 0;
     if len mod 2 \<noteq> 0 \<or> len div 2 > out_capacity then Some (False, out, written)
     else do {
       (ok, out) \<leftarrow> decode_hex_loop hex 0 (len div 2) out;
       Some (ok, out, if ok then len div 2 else written) } }"

definition status_from_name :: "string \<Rightarrow> mcl_link_status option" where
  "status_from_name name = do {
     truncated \<leftarrow> c_equals name 0 ''TRUNCATED'';
     if truncated then Some MCL_LINK_ERR_TRUNCATED
     else do {
       range \<leftarrow> c_equals name 0 ''RANGE'';
       if range then Some MCL_LINK_ERR_RANGE
       else do {
         version \<leftarrow> c_equals name 0 ''INCOMPATIBLE_VERSION'';
         Some (if version then MCL_LINK_ERR_INCOMPATIBLE_VERSION else MCL_LINK_ERR_INVALID_ARGUMENT) } } }"

section \<open>Checking\<close>

record scratch =
  scratch_name :: string
  scratch_hex :: string
  scratch_expect :: string
  scratch_bytes :: "byte list"
  scratch_control :: mcl_handoff_control
  scratch_out :: "byte list"

record vector_counts =
  g_checked :: nat
  g_failed :: nat

definition fail :: "vector_counts \<Rightarrow> vector_counts" where
  "fail counts = counts\<lparr>g_failed := g_failed counts + 1\<rparr>"

text \<open>The loop that compares the re-encoded bytes, up to the first difference.\<close>

primrec bytes_differ_loop :: "byte list \<Rightarrow> byte list \<Rightarrow> nat \<Rightarrow> nat \<Rightarrow> bool option" where
  "bytes_differ_loop out bytes i 0 = Some False"
| "bytes_differ_loop out bytes i (Suc n) = do {
     x \<leftarrow> rd out i;
     y \<leftarrow> rd bytes i;
     if x \<noteq> y then Some True else bytes_differ_loop out bytes (Suc i) n }"

text \<open>The branch for a positive vector; \<open>True\<close> means that it has called \<open>fail\<close>.\<close>

definition check_positive :: "nat \<Rightarrow> string \<Rightarrow> nat \<Rightarrow> nat \<Rightarrow> byte list \<Rightarrow> nat \<Rightarrow> mcl_link_status
    \<Rightarrow> mcl_handoff_control option \<Rightarrow> byte list \<Rightarrow> bool option" where
  "check_positive ulong_max buf after_name cursor bytes byte_count status control out =
    (if status \<noteq> MCL_LINK_OK then Some True
     else case control of None \<Rightarrow> None | Some c \<Rightarrow> do {
       (found, declared) \<leftarrow> find_number_value ulong_max buf after_name cursor ''operation'' 0;
       if found = None then Some True
       else if unat (control_operation c) \<noteq> declared then Some True
       else do {
         (found, declared) \<leftarrow> find_number_value ulong_max buf after_name cursor ''migration_ref'' declared;
         if found = None \<or> unat (control_migration_ref c) \<noteq> declared then Some True
         else do {
           (found, declared) \<leftarrow> find_number_value ulong_max buf after_name cursor ''session_ref'' declared;
           if found = None \<or> unat (control_session_ref c) \<noteq> declared then Some True
           else do {
             (found, declared) \<leftarrow> find_number_value ulong_max buf after_name cursor ''size'' declared;
             if found = None \<or> byte_count \<noteq> declared then Some True
             else do {
               (st, encoded, written) \<leftarrow> mcl_handoff_control_encode (Some c) (Some out)
                 MCL_HANDOFF_CONTROL_MAX_SIZE (Some 0);
               if st \<noteq> MCL_LINK_OK then Some True
               else if written \<noteq> Some byte_count then Some True
               else case encoded of None \<Rightarrow> None
                 | Some encoded \<Rightarrow> bytes_differ_loop encoded bytes 0 byte_count } } } } })"

text \<open>The bytes of a vector; an empty string stands for no bytes.\<close>

definition vector_bytes :: "scratch \<Rightarrow> string \<Rightarrow> (bool \<times> byte list \<times> nat) option" where
  "vector_bytes s hex = do {
     first \<leftarrow> char_at hex 0;
     if first = NUL then Some (True, scratch_bytes s, 0) else decode_hex hex (scratch_bytes s) 64 0 }"

text \<open>
  The rest of the loop body, once a name and a hexadecimal string have been found: the place where the
  next turn starts, and the counters.
\<close>

definition check_vector :: "nat \<Rightarrow> scratch \<Rightarrow> string \<Rightarrow> nat \<Rightarrow> bool \<Rightarrow> nat \<Rightarrow> nat \<Rightarrow> string
    \<Rightarrow> vector_counts \<Rightarrow> (nat \<times> vector_counts) option" where
  "check_vector ulong_max s buf e positive after_name cursor hex counts = do {
     let counts = counts\<lparr>g_checked := g_checked counts + 1\<rparr>;
     (ok, bytes, byte_count) \<leftarrow> vector_bytes s hex;
     if \<not> ok then Some (cursor, fail counts)
     else do {
       (status, control) \<leftarrow> mcl_handoff_control_decode (Some bytes) byte_count (Some (scratch_control s));
       if positive then do {
         bad \<leftarrow> check_positive ulong_max buf after_name cursor bytes byte_count status control (scratch_out s);
         Some (cursor, if bad then fail counts else counts) }
       else do {
         (after_expect, expect) \<leftarrow> find_string_value buf cursor e ''expect'' (scratch_expect s) 64;
         case after_expect of
           None \<Rightarrow> Some (cursor, fail counts)
         | Some cursor \<Rightarrow> do {
             wanted \<leftarrow> status_from_name expect;
             Some (cursor, if status \<noteq> wanted then fail counts else counts) } } } }"

partial_function (option) check_section_loop :: "nat \<Rightarrow> scratch \<Rightarrow> string \<Rightarrow> nat \<Rightarrow> bool \<Rightarrow> nat
    \<Rightarrow> vector_counts \<Rightarrow> vector_counts option" where
  "check_section_loop ulong_max s buf e positive cursor counts = do {
     (after_name, name) \<leftarrow> find_string_value buf cursor e ''name'' (scratch_name s) 128;
     case after_name of None \<Rightarrow> Some counts
     | Some after_name \<Rightarrow> do {
         (after_hex, hex) \<leftarrow> find_string_value buf after_name e ''bytes_hex'' (scratch_hex s) 512;
         case after_hex of None \<Rightarrow> Some counts
         | Some cursor \<Rightarrow> do {
             (cursor, counts) \<leftarrow> check_vector ulong_max s buf e positive after_name cursor hex counts;
             check_section_loop ulong_max s buf e positive cursor counts } } }"

definition check_section :: "nat \<Rightarrow> scratch \<Rightarrow> string \<Rightarrow> nat \<Rightarrow> nat \<Rightarrow> bool \<Rightarrow> vector_counts \<Rightarrow> vector_counts option" where
  "check_section ulong_max s buf from e positive counts = check_section_loop ulong_max s buf e positive from counts"

text \<open>What \<open>main\<close> finds at the path it is given.\<close>

datatype tool_input = No_Argument | Cannot_Open | Contents string

abbreviation (input) MAX_FILE_SIZE :: nat where "MAX_FILE_SIZE \<equiv> 65536"

definition validate_handoff_vectors :: "nat \<Rightarrow> scratch \<Rightarrow> tool_input \<Rightarrow> (int \<times> vector_counts) option" where
  "validate_handoff_vectors ulong_max s input = (let start = \<lparr>g_checked = 0, g_failed = 0\<rparr> in case input of
     No_Argument \<Rightarrow> Some (2, start)
   | Cannot_Open \<Rightarrow> Some (2, start)
   | Contents file \<Rightarrow>
       let g_size = min (length file) (MAX_FILE_SIZE - 1) in
       if g_size = 0 \<or> g_size \<ge> MAX_FILE_SIZE - 1 then Some (2, start)
       else do {
         let g_file = take g_size file @ replicate (MAX_FILE_SIZE - g_size) NUL;
         positive_start \<leftarrow> c_strstr g_file 0 (pattern_of ''positive'');
         negative_start \<leftarrow> c_strstr g_file 0 (pattern_of ''negative'');
         case (positive_start, negative_start) of
           (Some positive_start, Some negative_start) \<Rightarrow>
             if negative_start \<le> positive_start then Some (2, start)
             else do {
               counts \<leftarrow> check_section ulong_max s g_file positive_start negative_start True start;
               counts \<leftarrow> check_section ulong_max s g_file negative_start g_size False counts;
               Some (if g_checked counts = 0 then 2 else if g_failed counts = 0 then 0 else 1, counts) }
         | _ \<Rightarrow> Some (2, start) })"

section \<open>The scanner never leaves the text, and always comes back\<close>

definition text_ok :: "string \<Rightarrow> nat \<Rightarrow> bool" where
  "text_ok buf e \<longleftrightarrow> last buf = NUL \<and> e < length buf"

lemma find_key_loop_total:
  assumes "text_ok buf e" "pat \<noteq> []" "p < length buf"
  shows "\<exists>r. find_key_loop buf e pat p = Some r \<and> (\<forall>q. r = Some q \<longrightarrow> p < q \<and> q < e \<and> buf ! q = quote)"
  using assms(3)
proof (induction "length buf - p" arbitrary: p rule: less_induct)
  case less
  obtain found where found: "c_strstr buf p pat = Some found"
    using c_strstr_some less.prems assms(1) by (force simp: text_ok_def)
  show ?case
  proof (cases "\<exists>q. found = Some q \<and> q < e")
    case False
    then show ?thesis using found by (subst find_key_loop.simps) (auto split: option.splits)
  next
    case True
    then obtain q where q: "found = Some q" "q < e" by blast
    then have b: "p \<le> q" "q + length pat < length buf" using c_strstr_pos found by blast+
    have e: "e \<le> length buf" using assms(1) by (simp add: text_ok_def)
    obtain r where r: "skip_while json_gap buf e (q + length pat) = Some r" "q + length pat \<le> r"
        "q + length pat \<le> e \<longrightarrow> r \<le> e" "e \<le> q + length pat \<longrightarrow> r = q + length pat"
      using skip_while_some [OF e] by metis
    have later: "p < r" using assms(2) b(1) r(2) by (cases pat) auto
    have inside: "r < length buf" using r(3,4) b(2) assms(1) by (fastforce simp: text_ok_def)
    show ?thesis
    proof (cases "r < e \<and> buf ! r = quote")
      case True
      then show ?thesis using found q r(1) later inside
        by (subst find_key_loop.simps) (auto simp: char_at_in)
    next
      case False
      have "find_key_loop buf e pat p = find_key_loop buf e pat r"
        using found q r(1) inside False by (subst find_key_loop.simps) (auto simp: char_at_in)
      moreover obtain x where "find_key_loop buf e pat r = Some x"
          "\<forall>q. x = Some q \<longrightarrow> r < q \<and> q < e \<and> buf ! q = quote"
        using less.hyps [OF diff_less_mono2 [OF later] inside] less.prems by auto
      ultimately show ?thesis using later by auto
    qed
  qed
qed

text \<open>The value that starts after an opening quote.\<close>

definition value_from :: "string \<Rightarrow> nat \<Rightarrow> nat \<Rightarrow> string" where
  "value_from buf e p = takeWhile (\<lambda>c. c \<noteq> quote) (take (e - p) (drop p buf))"

lemma value_from_step:
  assumes "p < e" "e \<le> length buf"
  shows "value_from buf e p = (if buf ! p = quote then [] else buf ! p # value_from buf e (Suc p))"
proof -
  have "take (e - p) (drop p buf) = buf ! p # take (e - Suc p) (drop (Suc p) buf)"
    using assms by (simp add: Cons_nth_drop_Suc [symmetric] take_Cons' Suc_diff_Suc)
  then show ?thesis by (simp add: value_from_def)
qed

lemma value_from_end: "e \<le> p \<Longrightarrow> value_from buf e p = []"
  by (simp add: value_from_def)

lemma copy_value_fits:
  assumes "e \<le> length buf" "len + length (value_from buf e p) < out_size" "out_size \<le> length out"
  shows "copy_value buf e out_size out len p = Some (Some (p + length (value_from buf e p)),
    take len out @ value_from buf e p @ drop (len + length (value_from buf e p)) out,
    len + length (value_from buf e p))"
  using assms
proof (induction buf e out_size out len p rule: copy_value.induct)
  case (1 buf e out_size out len p)
  show ?case
  proof (cases "p < e")
    case True
    note st = value_from_step [OF True 1(2)]
    show ?thesis
    proof (cases "buf ! p = quote")
      case quote: True
      then show ?thesis using True 1(2) st
        by (subst copy_value.simps) (simp add: char_at_in)
    next
      case False
      have l: "len < length out" using 1(3,4) by simp
      have "take (Suc len) (out[len := c]) = take len out @ [c]" for c
        using l by (simp add: take_Suc_conv_app_nth)
      then show ?thesis using True False 1 st l
        by (subst copy_value.simps) (simp add: char_at_in put_char_in)
    qed
  next
    case False
    then show ?thesis by (subst copy_value.simps) (simp add: value_from_end)
  qed
qed

lemma copy_value_too_long:
  assumes "e \<le> length buf" "out_size \<le> len + length (value_from buf e p)" "len < out_size" "out_size \<le> length out"
  shows "\<exists>out' len'. copy_value buf e out_size out len p = Some (None, out', len') \<and> length out' = length out"
  using assms
proof (induction buf e out_size out len p rule: copy_value.induct)
  case (1 buf e out_size out len p)
  have "p < e" using 1(3,4) value_from_end [of e p buf] by (cases "p < e") auto
  note st = value_from_step [OF this 1(2)]
  then have "buf ! p \<noteq> quote" using 1(3,4) by auto
  show ?case
  proof (cases "out_size \<le> len + 1")
    case True
    with \<open>p < e\<close> \<open>buf ! p \<noteq> quote\<close> 1(2) show ?thesis
      by (subst copy_value.simps) (simp add: char_at_in)
  next
    case False
    then have l: "len < length out" using 1(4,5) by simp
    have "\<exists>out' len'. copy_value buf e out_size (out[len := buf ! p]) (len + 1) (p + 1) = Some (None, out', len')
        \<and> length out' = length (out[len := buf ! p])"
      by (rule 1(1) [OF \<open>p < e\<close> _ \<open>buf ! p \<noteq> quote\<close> False]) (use 1 st \<open>p < e\<close> \<open>buf ! p \<noteq> quote\<close> False l in
        \<open>simp_all add: char_at_in put_char_in\<close>)
    with \<open>p < e\<close> \<open>buf ! p \<noteq> quote\<close> 1(2) False l show ?thesis
      by (subst copy_value.simps) (simp add: char_at_in put_char_in)
  qed
qed

text \<open>What a string field gives, once the opening quote has been found.\<close>

lemma find_string_value_found:
  assumes "e \<le> length buf" "length key < 60" "find_key_loop buf e (pattern_of key) from = Some (Some p)"
    and "length (value_from buf e (Suc p)) < out_size" "out_size \<le> length out"
    and "p + 1 + length (value_from buf e (Suc p)) < e"
  shows "find_string_value buf from e key out out_size
    = Some (Some (p + length (value_from buf e (Suc p)) + 2),
        value_from buf e (Suc p) @ NUL # drop (Suc (length (value_from buf e (Suc p)))) out)"
proof -
  let ?n = "length (value_from buf e (Suc p))"
  have "(value_from buf e (Suc p) @ drop ?n out)[?n := NUL] = value_from buf e (Suc p) @ NUL # drop (Suc ?n) out"
    using assms(4,5) by (simp add: list_update_append Cons_nth_drop_Suc [symmetric])
  then show ?thesis
    using assms copy_value_fits [OF assms(1), of 0 "Suc p" out_size out]
    by (simp add: find_string_value_def put_char_in)
qed

lemma find_string_value_long:
  assumes "e \<le> length buf" "length key < 60" "find_key_loop buf e (pattern_of key) from = Some (Some p)"
    and "out_size \<le> length (value_from buf e (Suc p))" "0 < out_size" "out_size \<le> length out"
  shows "\<exists>out'. find_string_value buf from e key out out_size = Some (None, out') \<and> length out' = length out"
proof -
  from copy_value_too_long [OF assms(1), of out_size 0 "Suc p" out] assms show ?thesis
    by (auto simp: find_string_value_def)
qed

text \<open>The next string field of a key, if its value fits an array of \<open>cap\<close> characters: the place behind its
  closing quote, and the value as a C string.\<close>

definition text_field :: "string \<Rightarrow> nat \<Rightarrow> nat \<Rightarrow> string \<Rightarrow> nat \<Rightarrow> (nat \<times> string) option" where
  "text_field buf from e key cap = (case find_key_loop buf e (pattern_of key) from of
     Some (Some p) \<Rightarrow>
       let v = value_from buf e (Suc p) in
       if length v < cap \<and> p + 1 + length v < e
       then Some (p + length v + 2, takeWhile (\<lambda>c. c \<noteq> NUL) v) else None
   | _ \<Rightarrow> None)"

lemma c_string_value: "c_string (v @ NUL # rest) 0 = Some (takeWhile (\<lambda>c. c \<noteq> NUL) v)"
proof -
  have "takeWhile (\<lambda>c. c \<noteq> NUL) (v @ NUL # rest) = takeWhile (\<lambda>c. c \<noteq> NUL) v" by (induction v) auto
  then show ?thesis by (simp add: c_string_def)
qed

lemma find_string_value_text:
  assumes ok: "text_ok buf e" "length key < 60" "from < length buf" "0 < out_size" "out_size \<le> length out"
  shows "\<exists>r out'. find_string_value buf from e key out out_size = Some (r, out')
    \<and> (case text_field buf from e key out_size of
        None \<Rightarrow> r = None
      | Some (q, x) \<Rightarrow> r = Some q \<and> from < q \<and> q \<le> e \<and> c_string out' 0 = Some x)"
proof -
  have e: "e \<le> length buf" using ok(1) by (simp add: text_ok_def)
  obtain r where r: "find_key_loop buf e (pattern_of key) from = Some r" "\<forall>q. r = Some q \<longrightarrow> from < q \<and> q < e"
    using find_key_loop_total [OF ok(1) _ ok(3), of "pattern_of key"] by (auto simp: pattern_of_def)
  show ?thesis
  proof (cases r)
    case None
    with r(1) ok(2) show ?thesis by (simp add: find_string_value_def text_field_def)
  next
    case (Some p)
    let ?v = "value_from buf e (Suc p)"
    note k = r(1) [unfolded Some]
    consider "out_size \<le> length ?v" | "length ?v < out_size" "e \<le> p + 1 + length ?v"
      | "length ?v < out_size" "p + 1 + length ?v < e" by linarith
    then show ?thesis
    proof cases
      case 1
      with find_string_value_long [OF e ok(2) k 1 ok(4,5)] k show ?thesis by (auto simp: text_field_def)
    next
      case 2
      then show ?thesis using copy_value_fits [OF e, of 0 "Suc p" out_size out] ok k
        by (simp add: find_string_value_def text_field_def)
    next
      case 3
      from find_string_value_found [OF e ok(2) k 3(1) ok(5) 3(2)] r(2) Some 3 k
      show ?thesis by (auto simp: c_string_value text_field_def Let_def)
    qed
  qed
qed

lemma find_number_value_total:
  assumes "text_ok buf e" "from < length buf"
  shows "\<exists>r v. find_number_value ulong_max buf from e key out = Some (r, v)"
proof -
  have e: "e \<le> length buf" "last buf = NUL" using assms(1) by (simp_all add: text_ok_def)
  obtain found where found: "c_strstr buf from (pattern_of key) = Some found"
    using c_strstr_some assms(2) e(2) by force
  have skip: "\<exists>r. skip_while f buf e p = Some r" for f p using skip_while_eq [OF e(1)] by auto
  obtain r where r: "skip_while json_gap buf e (the found + length (pattern_of key)) = Some r" using skip by blast
  obtain r' where r': "skip_while c_isdigit buf e r = Some r'" using skip by blast
  have "\<exists>v. c_strtoul ulong_max buf r = Some v" if "r < e"
    using c_string_some [of r buf] that e by (auto simp: c_strtoul_def)
  then show ?thesis
    using found r r' e by (cases found) (auto simp: find_number_value_def char_at_in)
qed

section \<open>A field that stands in a text\<close>

lemma takeWhile_stop: "list_all P xs \<Longrightarrow> \<not> P y \<Longrightarrow> takeWhile P (xs @ y # ys) = xs"
  by (induction xs) auto

lemma takeWhile_take_stop: "list_all P xs \<Longrightarrow> \<not> P y \<Longrightarrow> length xs < n \<Longrightarrow> takeWhile P (take n (xs @ y # ys)) = xs"
  by (cases "n - length xs") (auto simp: takeWhile_stop)

text \<open>
  A text in which a field stands: from the offset on, the first occurrence of the quoted key, a gap of
  blanks and colons, and a quoted value, all before the end \<open>e\<close> of the section, and no terminator
  before the end.
\<close>

definition field_text :: "string \<Rightarrow> string \<Rightarrow> string \<Rightarrow> string \<Rightarrow> string \<Rightarrow> string" where
  "field_text pre key gap v post = pre @ pattern_of key @ gap @ quote # v @ quote # post"

definition holds_field :: "string \<Rightarrow> nat \<Rightarrow> nat \<Rightarrow> string \<Rightarrow> string \<Rightarrow> string \<Rightarrow> string \<Rightarrow> string \<Rightarrow> string \<Rightarrow> bool" where
  "holds_field buf from e pre key gap v post beyond \<longleftrightarrow>
     take (length (field_text pre key gap v post @ beyond) + 1) (drop from buf) = field_text pre key gap v post @ beyond @ [NUL]
   \<and> NUL \<notin> set (field_text pre key gap v post @ beyond) \<and> e = from + length (field_text pre key gap v post)
   \<and> first_match (pattern_of key) (pre @ pattern_of key) = Some (length pre)
   \<and> list_all json_gap gap \<and> quote \<notin> set v"

lemma field_located:
  assumes "holds_field buf from e pre key gap v post beyond"
  defines "q \<equiv> from + length (pre @ pattern_of key @ gap)"
  shows "find_key_loop buf e (pattern_of key) from = Some (Some q)" "value_from buf e (Suc q) = v"
    "e < length buf" "q + length v + 1 < e"
proof -
  let ?k = "from + length (pre @ pattern_of key)"
  have h: "NUL \<notin> set (pre @ pattern_of key @ gap @ quote # v @ quote # post @ beyond)"
    "e = from + length (pre @ pattern_of key @ gap @ quote # v @ quote # post)"
    "first_match (pattern_of key) (pre @ pattern_of key) = Some (length pre)" "list_all json_gap gap" "quote \<notin> set v"
    using assms(1) by (simp_all add: holds_field_def field_text_def)
  define rest where "rest = drop (length (field_text pre key gap v post @ beyond) + 1) (drop from buf)"
  have t: "drop from buf = field_text pre key gap v post @ beyond @ NUL # rest"
    using append_take_drop_id [of "length (field_text pre key gap v post @ beyond) + 1" "drop from buf"] assms(1)
    unfolding rest_def by (simp add: holds_field_def)
  then have d0: "drop from buf = pre @ pattern_of key @ gap @ quote # v @ quote # post @ beyond @ NUL # rest"
    by (simp add: field_text_def)
  have "from \<le> length buf" using arg_cong [OF d0, of length] by (cases "from \<le> length buf") auto
  then have l: "length buf = e + length beyond + Suc (length rest)"
    using arg_cong [OF d0, of length] h(2) by (simp add: pattern_of_def)
  then have e: "e \<le> length buf" by simp
  show "e < length buf" using l by simp
  show q: "q + length v + 1 < e" using h(2) by (simp add: q_def)
  have d: "drop ?k buf = gap @ quote # v @ quote # post @ beyond @ NUL # rest"
    "drop q buf = quote # v @ quote # post @ beyond @ NUL # rest"
    "drop (Suc q) buf = v @ quote # post @ beyond @ NUL # rest"
    using arg_cong [OF d0, of "drop (length (pre @ pattern_of key))"]
      arg_cong [OF d0, of "drop (length (pre @ pattern_of key @ gap))"]
      arg_cong [OF d0, of "drop (Suc (length (pre @ pattern_of key @ gap)))"]
    unfolding q_def by (simp_all add: add.commute add.left_commute)
  have found: "c_strstr buf from (pattern_of key) = Some (Some (from + length pre))"
    by (rule c_strstr_layout [of _ _ _ _ "gap @ quote # v @ quote # post @ beyond" rest]) (use d0 h in simp_all)
  have len: "e - ?k = length gap + Suc (length v + Suc (length post))" "e - Suc q = length v + Suc (length post)"
    using h(2) by (simp_all add: q_def)
  have "takeWhile json_gap (take (e - ?k) (drop ?k buf)) = gap"
    unfolding d(1) len by (rule takeWhile_take_stop) (use h(4) in \<open>simp_all add: json_gap_def\<close>)
  then have "skip_while json_gap buf e ?k = Some q"
    using skip_while_eq [OF e, of json_gap ?k] by (simp add: q_def)
  moreover have "q < e" using q by simp
  moreover have "buf ! q = quote" using d(2) e \<open>q < e\<close> by (metis hd_drop_conv_nth list.sel(1) less_le_trans)
  ultimately show "find_key_loop buf e (pattern_of key) from = Some (Some q)"
    using found e h(2) by (subst find_key_loop.simps) (simp add: char_at_in pattern_of_def add.assoc)
  show "value_from buf e (Suc q) = v"
    unfolding value_from_def d(3) len by (rule takeWhile_take_stop) (use h(5) in \<open>auto simp: list_all_iff\<close>)
qed

text \<open>The field scanner reads a field. In a text in which a field with a short enough key stands and
  whose value fits the output array, it returns the place behind the closing quote and leaves the
  value, terminated, at the start of the output array.\<close>

lemma find_string_value_field:
  assumes "holds_field buf from e pre key gap v post beyond" "length key < 60" "length v < out_size" "out_size \<le> length out"
  shows "find_string_value buf from e key out out_size
    = Some (Some (from + length (field_text pre key gap v [])), v @ NUL # drop (Suc (length v)) out)"
proof -
  note f = field_located [OF assms(1)]
  show ?thesis
    using find_string_value_found [OF less_imp_le [OF f(3)] assms(2) f(1), of out_size out] assms(3,4) f(4)
    unfolding f(2) by (simp add: add.assoc field_text_def)
qed

section \<open>Hexadecimal text\<close>

fun hex_pairs :: "string \<Rightarrow> byte list option" where
  "hex_pairs [] = Some []"
| "hex_pairs [c] = None"
| "hex_pairs (h # l # rest) =
    (if hex_value h < 0 \<or> hex_value l < 0 then None
     else map_option ((#) (word_of_int (push_bit 4 (hex_value h) OR hex_value l))) (hex_pairs rest))"

definition hex_digit :: "byte \<Rightarrow> char" where
  "hex_digit n = char_of (if unat n < 10 then 48 + unat n else 87 + unat n)"

fun hex_text :: "byte list \<Rightarrow> string" where
  "hex_text [] = []"
| "hex_text (b # bs) = hex_digit (drop_bit 4 b) # hex_digit (take_bit 4 b) # hex_text bs"

lemma hex_pairs_length: "hex_pairs s = Some B \<Longrightarrow> length s = 2 * length B"
  by (induction s arbitrary: B rule: hex_pairs.induct) (auto split: if_splits)

lemma decode_hex_loop_eq:
  assumes "i + 2 * n \<le> length hex" "i = 2 * length done" "length done + n \<le> length out"
  shows "\<exists>out'. decode_hex_loop hex i n (over done out)
    = Some (case hex_pairs (take (2 * n) (drop i hex)) of None \<Rightarrow> (False, out')
        | Some B \<Rightarrow> (True, over (done @ B) out))
    \<and> length out' = length out"
  using assms
proof (induction n arbitrary: i "done")
  case 0
  then show ?case by auto
next
  case (Suc n)
  have d: "take (2 * Suc n) (drop i hex) = hex ! i # hex ! Suc i # take (2 * n) (drop (i + 2) hex)"
    using Suc.prems(1) by (simp add: Cons_nth_drop_Suc [symmetric] take_Cons' numeral_2_eq_2)
  show ?case
  proof (cases "hex_value (hex ! i) < 0 \<or> hex_value (hex ! Suc i) < 0")
    case True
    then show ?thesis using Suc.prems d by (auto simp: char_at_in)
  next
    case False
    let ?b = "word_of_int (push_bit 4 (hex_value (hex ! i)) OR hex_value (hex ! Suc i)) :: byte"
    have w: "wr (over done out) (i div 2) ?b = Some (over (done @ [?b]) out)"
      by (rule wr_over) (use Suc.prems in auto)
    obtain out' where "decode_hex_loop hex (i + 2) n (over (done @ [?b]) out)
        = Some (case hex_pairs (take (2 * n) (drop (i + 2) hex)) of None \<Rightarrow> (False, out')
            | Some B \<Rightarrow> (True, over ((done @ [?b]) @ B) out))" "length out' = length out"
      using Suc.IH [of "i + 2" "done @ [?b]"] Suc.prems by auto
    then show ?thesis using False Suc.prems d w
      by (auto simp: char_at_in split: option.splits)
  qed
qed

lemma decode_hex_eq:
  assumes "c_string hex 0 = Some s" "cap \<le> length out"
  shows "\<exists>out'. decode_hex hex out cap written = Some (case hex_pairs s of None \<Rightarrow> (False, out', written)
      | Some B \<Rightarrow> if length B \<le> cap then (True, over B out, length B) else (False, out, written))
    \<and> length out' = length out"
proof -
  have l: "length s < length hex" "take (length s) hex = s" using c_string_pos [OF assms(1)] by simp_all
  have odd: "hex_pairs s = None" if "length s mod 2 \<noteq> 0" using hex_pairs_length [of s] that by (cases "hex_pairs s") auto
  have len: "length B = length s div 2" if "hex_pairs s = Some B" for B using hex_pairs_length [OF that] by simp
  have c: "c_strlen hex 0 = Some (length s)" using assms(1) by (simp add: c_strlen_def)
  show ?thesis
  proof (cases "length s mod 2 \<noteq> 0 \<or> length s div 2 > cap")
    case True
    then show ?thesis using c odd len by (fastforce simp: decode_hex_def split: option.splits)
  next
    case False
    then have s: "take (2 * (length s div 2)) (drop 0 hex) = s" using l by (simp add: even_two_times_div_two mod_2_eq_odd)
    have "0 + 2 * (length s div 2) \<le> length hex" using l(1) by linarith
    from decode_hex_loop_eq [OF this, of "[]" out, unfolded append_Nil] False assms(2)
    obtain out' where "decode_hex_loop hex 0 (length s div 2) out
        = Some (case hex_pairs s of None \<Rightarrow> (False, out') | Some B \<Rightarrow> (True, over B out))" "length out' = length out"
      unfolding s by auto
    then show ?thesis using False c len by (auto simp: decode_hex_def split: option.splits)
  qed
qed

lemma hex_value_digit: "unat n < 16 \<Longrightarrow> hex_value (hex_digit n) = uint n"
proof -
  assume u: "unat n < 16"
  have "(of_char (hex_digit n) :: nat) = (if unat n < 10 then 48 + unat n else 87 + unat n)"
    using u by (simp add: hex_digit_def)
  then show ?thesis using u by (simp add: hex_value_def Let_def)
qed

lemma nibble_bounds: "unat (drop_bit 4 b) < 16" "unat (take_bit 4 b) < 16" for b :: byte
proof -
  have "unat b < 2 ^ LENGTH(8)" by (rule unsigned_less)
  then have b: "unat b < 256" by simp
  then have "unat b div 2 ^ 4 < 16" by (simp add: less_mult_imp_div_less)
  moreover have "unat (drop_bit 4 b) = unat b div 2 ^ 4" by (rule trans [OF unat_drop_bit_eq drop_bit_eq_div])
  ultimately show "unat (drop_bit 4 b) < 16" by (simp only:)
  have "unat (take_bit 4 b) = unat b mod 2 ^ 4" by (rule trans [OF unsigned_take_bit_eq take_bit_eq_mod])
  then show "unat (take_bit 4 b) < 16" by simp
qed

lemma nibbles: "(word_of_int (push_bit 4 (uint (drop_bit 4 b)) OR uint (take_bit 4 b)) :: byte) = b"
  by (rule bit_word_eqI) (auto simp: bit_simps)

lemma hex_digit_not_NUL:
  assumes "unat n < 16" shows "hex_digit n \<noteq> NUL"
proof
  assume "hex_digit n = NUL"
  then have "hex_value NUL = uint n" using hex_value_digit [OF assms] by simp
  moreover have "hex_value NUL = - 1" by (simp add: hex_value_def)
  moreover have "0 \<le> uint n" by simp
  ultimately show False by linarith
qed

lemma hex_text_no_NUL: "NUL \<notin> set (hex_text bs)"
  using hex_digit_not_NUL nibble_bounds by (induction bs) fastforce+

lemma hex_pairs_text: "hex_pairs (hex_text bs) = Some bs"
  by (induction bs) (simp_all add: hex_value_digit nibble_bounds nibbles)

section \<open>One vector\<close>

definition declared_number :: "nat \<Rightarrow> string \<Rightarrow> nat \<Rightarrow> nat \<Rightarrow> string \<Rightarrow> nat option" where
  "declared_number ulong_max buf from e key = (case find_number_value ulong_max buf from e key 0 of
     Some (Some p, v) \<Rightarrow> Some v | _ \<Rightarrow> None)"

lemma find_number_value_eq:
  assumes "text_ok buf e" "from < length buf"
  shows "\<exists>r v. find_number_value ulong_max buf from e key out = Some (r, v)
    \<and> declared_number ulong_max buf from e key = (if r = None then None else Some v)"
proof -
  obtain r v where rv: "find_number_value ulong_max buf from e key 0 = Some (r, v)"
    using find_number_value_total [OF assms] by metis
  moreover have "find_number_value ulong_max buf from e key out = Some (r, if r = None then out else v)"
    using rv by (auto simp: find_number_value_def split: if_splits option.splits Option.bind_splits)
  ultimately show ?thesis by (auto simp: declared_number_def split: option.splits)
qed

lemma decode_take:
  assumes "n \<le> length bytes" "length (control_challenge c0) = 8"
  shows "mcl_handoff_control_decode (Some bytes) n (Some c0) = mcl_handoff_control_decode (Some (take n bytes)) n (Some c0)"
proof -
  have p: "handoff_parsed (take n bytes) = handoff_parsed bytes"
    if "10 \<le> n" "n = mcl_handoff_control_encoded_size (bytes ! 1)"
    using that by (auto simp: handoff_parsed_def word32_at_take encoded_size_cases carries_def drop_take
        simp del: One_nat_def split: if_splits)
  have "n \<le> length (take n bytes)" using assms(1) by simp
  from handoff_decode_eq [OF this assms(2)] handoff_decode_eq [OF assms] p show ?thesis
    by (cases "n < 10"; cases "n = mcl_handoff_control_encoded_size (bytes ! 1)")
      (simp_all add: word32_at_take del: One_nat_def)
qed

lemma handoff_verdict:
  assumes "n \<le> length bytes" "length (control_challenge c0) = 8"
  obtains st c where "mcl_handoff_control_decode (Some bytes) n (Some c0) = Some (st, Some c)"
    "handoff_accept (take n bytes) = (if st = MCL_LINK_OK then Some c else None)"
proof -
  let ?B = "take n bytes"
  have l: "length ?B = n" "n \<le> length ?B" using assms(1) by simp_all
  have b: "length (control_challenge blank_control) = 8" by (simp add: blank_control_def)
  note d = handoff_decode_eq [OF l(2) assms(2)] handoff_decode_eq [OF l(2) b]
  show thesis
  proof (cases "fst (the (mcl_handoff_control_decode (Some ?B) n (Some c0))) = MCL_LINK_OK")
    case True
    then have "mcl_handoff_control_decode (Some ?B) n (Some c0) = Some (MCL_LINK_OK, Some (handoff_parsed ?B))"
      "handoff_accept ?B = Some (handoff_parsed ?B)"
      unfolding d handoff_accept_def l(1) by (auto split: if_splits)
    then show thesis using that decode_take [OF assms] by auto
  next
    case False
    then obtain st where "mcl_handoff_control_decode (Some ?B) n (Some c0) = Some (st, Some c0)" "st \<noteq> MCL_LINK_OK"
      "handoff_accept ?B = None"
      unfolding d handoff_accept_def l(1) by (auto split: if_splits)
    then show thesis using that decode_take [OF assms] by auto
  qed
qed

lemma bytes_differ_loop_same:
  "i + n \<le> length xs \<Longrightarrow> i + n \<le> length ys \<Longrightarrow> take n (drop i xs) = take n (drop i ys)
    \<Longrightarrow> bytes_differ_loop xs ys i n = Some False"
proof (induction n arbitrary: i)
  case (Suc n)
  have "take (Suc n) (drop i zs) = zs ! i # take n (drop (Suc i) zs)" if "i < length zs" for zs :: "byte list"
    using that by (simp add: Cons_nth_drop_Suc [symmetric])
  with Suc show ?case by (simp add: mem_simps)
qed simp

lemma some_image_iff:
  "(\<And>B. Q B \<longleftrightarrow> (\<exists>c. V c \<and> B = e c \<and> R c))
    \<Longrightarrow> (\<exists>B. x = Some B \<and> Q B) \<longleftrightarrow> (\<exists>c. V c \<and> x = Some (e c) \<and> R c)"
  by auto

text \<open>What a positive vector has to satisfy.\<close>

definition declares :: "nat \<Rightarrow> string \<Rightarrow> nat \<Rightarrow> nat \<Rightarrow> mcl_handoff_control \<Rightarrow> bool" where
  "declares ulong_max buf from e c \<longleftrightarrow>
     declared_number ulong_max buf from e ''operation'' = Some (unat (control_operation c))
   \<and> declared_number ulong_max buf from e ''migration_ref'' = Some (unat (control_migration_ref c))
   \<and> declared_number ulong_max buf from e ''session_ref'' = Some (unat (control_session_ref c))
   \<and> declared_number ulong_max buf from e ''size'' = Some (length (handoff_emit c))"

definition positive_ok :: "nat \<Rightarrow> string \<Rightarrow> nat \<Rightarrow> nat \<Rightarrow> byte list \<Rightarrow> bool" where
  "positive_ok ulong_max buf from e B \<longleftrightarrow> (case handoff_accept B of
     None \<Rightarrow> False | Some c \<Rightarrow> declares ulong_max buf from e c)"

lemma positive_ok_iff:
  "positive_ok ulong_max buf from e B \<longleftrightarrow> (\<exists>c. handoff_valid c \<and> B = handoff_emit c \<and> declares ulong_max buf from e c)"
  unfolding positive_ok_def handoff.accept_case ..

lemma reencode:
  assumes "handoff_accept (take n bytes) = Some c" "n \<le> length bytes" "length out = 18"
  shows "mcl_handoff_control_encode (Some c) (Some out) 18 (Some 0)
      = Some (MCL_LINK_OK, Some (over (take n bytes) out), Some n)"
    and "bytes_differ_loop (over (take n bytes) out) bytes 0 n = Some False"
proof -
  have v: "handoff_valid c" "handoff_bytes c = take n bytes"
    using handoff.emit_accept [OF assms(1)] handoff_emit_eq by auto
  then have c: "length (control_challenge c) = 8" by (simp add: handoff_valid_def)
  have n: "n = mcl_handoff_control_encoded_size (control_operation c)" "n \<le> 18"
    using handoff_valid_size [OF v(1)] handoff_valid_size_le [OF v(1)] v(2) assms(2) by simp_all
  show "mcl_handoff_control_encode (Some c) (Some out) 18 (Some 0)
      = Some (MCL_LINK_OK, Some (over (take n bytes) out), Some n)"
    using handoff_encode_eq [of 18 out c 0, OF _ c] v n assms(3)
    by (auto simp: handoff_valid_def encoded_size_cases carries_def split: if_splits)
  show "bytes_differ_loop (over (take n bytes) out) bytes 0 n = Some False"
    by (rule bytes_differ_loop_same) (use assms(2,3) n(2) in \<open>simp_all add: over_def\<close>)
qed

lemma check_positive_exact:
  assumes "text_ok buf e" "from < length buf" "n \<le> length bytes" "length (control_challenge c0) = 8" "length out = 18"
    and "mcl_handoff_control_decode (Some bytes) n (Some c0) = Some (st, control)"
  shows "check_positive ulong_max buf from e bytes n st control out
    = Some (\<not> positive_ok ulong_max buf from e (take n bytes))"
proof -
  obtain c where c: "control = Some c" "handoff_accept (take n bytes) = (if st = MCL_LINK_OK then Some c else None)"
    using handoff_verdict [OF assms(3,4)] assms(6) by (metis option.inject prod.inject)
  show ?thesis
  proof (cases "st = MCL_LINK_OK")
    case False
    then show ?thesis using c by (simp add: check_positive_def positive_ok_def)
  next
    case True
    then have acc: "handoff_accept (take n bytes) = Some c" using c by simp
    note re = reencode [OF acc assms(3,5)]
    have f: "\<exists>r v. find_number_value ulong_max buf from e key d = Some (r, v)
        \<and> declared_number ulong_max buf from e key = (if r = None then None else Some v)" for key d
      by (rule find_number_value_eq [OF assms(1,2)])
    obtain r1 v1 where 1: "find_number_value ulong_max buf from e ''operation'' 0 = Some (r1, v1)"
        "declared_number ulong_max buf from e ''operation'' = (if r1 = None then None else Some v1)" using f by blast
    obtain r2 v2 where 2: "find_number_value ulong_max buf from e ''migration_ref'' v1 = Some (r2, v2)"
        "declared_number ulong_max buf from e ''migration_ref'' = (if r2 = None then None else Some v2)" using f by blast
    obtain r3 v3 where 3: "find_number_value ulong_max buf from e ''session_ref'' v2 = Some (r3, v3)"
        "declared_number ulong_max buf from e ''session_ref'' = (if r3 = None then None else Some v3)" using f by blast
    obtain r4 v4 where 4: "find_number_value ulong_max buf from e ''size'' v3 = Some (r4, v4)"
        "declared_number ulong_max buf from e ''size'' = (if r4 = None then None else Some v4)" using f by blast
    have "length (handoff_emit c) = n" using handoff.emit_accept [OF acc] assms(3) by simp
    then have pos: "positive_ok ulong_max buf from e (take n bytes) \<longleftrightarrow>
        r1 \<noteq> None \<and> v1 = unat (control_operation c) \<and> r2 \<noteq> None \<and> v2 = unat (control_migration_ref c)
        \<and> r3 \<noteq> None \<and> v3 = unat (control_session_ref c) \<and> r4 \<noteq> None \<and> v4 = n"
      using acc 1(2) 2(2) 3(2) 4(2) by (simp add: positive_ok_def declares_def)
    show ?thesis using True c(1) re 1(1) 2(1) 3(1) 4(1)
      by (auto simp: check_positive_def pos MCL_HANDOFF_CONTROL_MAX_SIZE_def)
  qed
qed

end
