(* ===== verification/Mcl_Verdicts.thy ===== *)
theory Mcl_Verdicts
  imports Mcl_Vectors
begin

text \<open>
  What the vector tool computes, told without its arrays, its counters and its loop: a section of the
  file is a sequence of vectors, each with a verdict, and the tool's exit code and counters are those of
  the verdicts of the two sections. The relation \<open>section_run\<close> reads the vectors off the text; the
  model of \<open>main\<close> in \<open>Mcl_Vectors\<close> is shown to compute exactly its verdicts.
\<close>

section \<open>The verdict on one vector\<close>

definition scratch_ok :: "scratch \<Rightarrow> bool" where
  "scratch_ok s \<longleftrightarrow> length (scratch_name s) = 128 \<and> length (scratch_hex s) = 512
     \<and> length (scratch_expect s) = 64 \<and> length (scratch_bytes s) = 64
     \<and> length (control_challenge (scratch_control s)) = 8 \<and> length (scratch_out s) = 18"

definition cleared_scratch :: scratch where
  "cleared_scratch = \<lparr>scratch_name = replicate 128 NUL, scratch_hex = replicate 512 NUL,
     scratch_expect = replicate 64 NUL, scratch_bytes = replicate 64 0,
     scratch_control = blank_control, scratch_out = replicate 18 0\<rparr>"

lemma cleared_scratch_ok: "scratch_ok cleared_scratch"
  by (simp add: scratch_ok_def cleared_scratch_def blank_control_def)

lemma status_from_name_total: "c_string name 0 = Some x \<Longrightarrow> \<exists>st. status_from_name name = Some st"
  by (simp add: status_from_name_def c_equals_def)

lemma vector_bytes_eq:
  assumes s: "scratch_ok s" and hex: "c_string hex 0 = Some x"
  shows "\<exists>bytes n. vector_bytes s hex = Some (\<exists>B. hex_pairs x = Some B \<and> length B \<le> 64, bytes, n)
    \<and> (\<forall>B. hex_pairs x = Some B \<and> length B \<le> 64 \<longrightarrow> length bytes = 64 \<and> n = length B \<and> take n bytes = B)"
proof -
  have l: "0 < length hex" "hex ! length x = NUL" "NUL \<notin> set x" "take (length x) hex = x"
    using c_string_pos [OF hex] by auto
  show ?thesis
  proof (cases "hex ! 0 = NUL")
    case True
    then have "x = []" using l by (cases x; cases hex) auto
    then show ?thesis using True l(1) s by (auto simp: vector_bytes_def char_at_in scratch_ok_def)
  next
    case False
    obtain out' where d: "decode_hex hex (scratch_bytes s) 64 0 = Some (case hex_pairs x of None \<Rightarrow> (False, out', 0)
        | Some B \<Rightarrow> if length B \<le> 64 then (True, over B (scratch_bytes s), length B) else (False, scratch_bytes s, 0))"
      using decode_hex_eq [OF hex, of 64 "scratch_bytes s" 0] s by (auto simp: scratch_ok_def)
    have v: "vector_bytes s hex = decode_hex hex (scratch_bytes s) 64 0"
      using False l(1) by (simp add: vector_bytes_def char_at_in)
    show ?thesis using s by (cases "hex_pairs x") (auto simp: v d scratch_ok_def)
  qed
qed

definition counted :: "vector_counts \<Rightarrow> bool \<Rightarrow> vector_counts" where
  "counted counts passed = \<lparr>g_checked = g_checked counts + 1,
     g_failed = (if passed then g_failed counts else g_failed counts + 1)\<rparr>"

lemma counted_simps:
  "fail (counts\<lparr>g_checked := Suc (g_checked counts)\<rparr>) = counted counts False"
  "counts\<lparr>g_checked := Suc (g_checked counts)\<rparr> = counted counts True"
  "fail (counted counts True) = counted counts False"
  by (simp_all add: counted_def fail_def)

lemma counted_pass: "x = Some (q, counted c P) \<Longrightarrow> P \<Longrightarrow> counted c True = c' \<Longrightarrow> x = Some (q, c')"
  by simp

lemma check_vector_bad_hex:
  assumes "scratch_ok s" "c_string hex 0 = Some x" "\<not> (\<exists>B. hex_pairs x = Some B \<and> length B \<le> 64)"
  shows "check_vector ulong_max s buf e positive an cursor hex counts = Some (cursor, counted counts False)"
proof -
  obtain bytes n where "vector_bytes s hex = Some (False, bytes, n)"
    using vector_bytes_eq [OF assms(1,2)] assms(3) by auto
  then show ?thesis by (simp add: check_vector_def counted_simps Let_def)
qed

lemma check_vector_positive:
  assumes s: "scratch_ok s" and ok: "text_ok buf cursor" "an < length buf" and hex: "c_string hex 0 = Some x"
  shows "check_vector ulong_max s buf e True an cursor hex counts = Some (cursor,
    counted counts (\<exists>B. hex_pairs x = Some B \<and> positive_ok ulong_max buf an cursor B))"
proof (cases "\<exists>B. hex_pairs x = Some B \<and> length B \<le> 64")
  case False
  have "length B \<le> 64" if "positive_ok ulong_max buf an cursor B" for B
    using that handoff.emit_accept [of B] handoff_valid_size_le handoff_emit_eq
    by (fastforce simp: positive_ok_def split: option.splits)
  with False have none: "(\<exists>B. hex_pairs x = Some B \<and> positive_ok ulong_max buf an cursor B) = False" by blast
  show ?thesis unfolding none by (rule check_vector_bad_hex [OF s hex False])
next
  case True
  then obtain B where B: "hex_pairs x = Some B" "length B \<le> 64" by blast
  then obtain bytes n where b: "vector_bytes s hex = Some (True, bytes, n)" "length bytes = 64" "n = length B" "take n bytes = B"
    using vector_bytes_eq [OF s hex] by auto
  have c: "length (control_challenge (scratch_control s)) = 8" "length (scratch_out s) = 18" "n \<le> length bytes"
    using s b B by (simp_all add: scratch_ok_def)
  obtain st control where d: "mcl_handoff_control_decode (Some bytes) n (Some (scratch_control s)) = Some (st, Some control)"
    using handoff_verdict [OF c(3,1)] by metis
  from check_positive_exact [OF ok c(3,1,2) d] b(4) B(1) d b(1) show ?thesis
    by (simp add: check_vector_def counted_simps Let_def)
qed

text \<open>The status that the decoder gives for some bytes.\<close>

definition decoder_status :: "byte list \<Rightarrow> mcl_link_status" where
  "decoder_status B = fst (the (mcl_handoff_control_decode (Some B) (length B) (Some blank_control)))"

lemma decoder_status_eq:
  assumes "n \<le> length bytes" "length (control_challenge c0) = 8"
    and "mcl_handoff_control_decode (Some bytes) n (Some c0) = Some (st, c)"
  shows "st = decoder_status (take n bytes)"
proof -
  have l: "n \<le> length (take n bytes)" "length (take n bytes) = n" using assms(1) by simp_all
  have b: "length (control_challenge blank_control) = 8" by (simp add: blank_control_def)
  show ?thesis
    using assms(3) handoff_decode_eq [OF l(1) assms(2)] handoff_decode_eq [OF l(1) b] decode_take [OF assms(1,2)]
    by (auto simp: decoder_status_def min_absorb2 [OF assms(1)] split: if_splits)
qed

definition named_status :: "string \<Rightarrow> mcl_link_status" where
  "named_status x = (if x = ''TRUNCATED'' then MCL_LINK_ERR_TRUNCATED
     else if x = ''RANGE'' then MCL_LINK_ERR_RANGE
     else if x = ''INCOMPATIBLE_VERSION'' then MCL_LINK_ERR_INCOMPATIBLE_VERSION
     else MCL_LINK_ERR_INVALID_ARGUMENT)"

lemma status_from_name_eq: "c_string name 0 = Some x \<Longrightarrow> status_from_name name = Some (named_status x)"
  by (simp add: status_from_name_def c_equals_def named_status_def)

lemma check_vector_negative:
  assumes s: "scratch_ok s" and ok: "text_ok buf e" "ah < length buf" and hex: "c_string hex 0 = Some x"
    and B: "hex_pairs x = Some B" "length B \<le> 64"
  shows "check_vector ulong_max s buf e False an ah hex counts = Some (case text_field buf ah e ''expect'' 64 of
        None \<Rightarrow> (ah, counted counts False)
      | Some (ax, y) \<Rightarrow> (ax, counted counts (decoder_status B = named_status y)))"
    and "text_field buf ah e ''expect'' 64 = Some (ax, y) \<Longrightarrow> ah < ax \<and> ax \<le> e"
proof -
  obtain bytes n where b: "vector_bytes s hex = Some (True, bytes, n)" "length bytes = 64" "n = length B" "take n bytes = B"
    using vector_bytes_eq [OF s hex] B by auto
  have c: "length (control_challenge (scratch_control s)) = 8" "n \<le> length bytes" "64 \<le> length (scratch_expect s)"
    using s b B by (simp_all add: scratch_ok_def)
  obtain st control where d: "mcl_handoff_control_decode (Some bytes) n (Some (scratch_control s)) = Some (st, Some control)"
    using handoff_verdict [OF c(2,1)] by metis
  have st: "st = decoder_status B" using decoder_status_eq [OF c(2,1) d] b(4) by simp
  obtain r expect where f: "find_string_value buf ah e ''expect'' (scratch_expect s) 64 = Some (r, expect)"
      "case text_field buf ah e ''expect'' 64 of None \<Rightarrow> r = None
       | Some (q, x) \<Rightarrow> r = Some q \<and> ah < q \<and> q \<le> e \<and> c_string expect 0 = Some x"
    using find_string_value_text [OF ok(1) _ ok(2) _ c(3), of "''expect''"] by auto
  show "check_vector ulong_max s buf e False an ah hex counts = Some (case text_field buf ah e ''expect'' 64 of
        None \<Rightarrow> (ah, counted counts False)
      | Some (ax, y) \<Rightarrow> (ax, counted counts (decoder_status B = named_status y)))"
    using f b(1) d st
    by (auto simp: check_vector_def counted_simps status_from_name_eq Let_def split: option.splits)
  show "text_field buf ah e ''expect'' 64 = Some (ax, y) \<Longrightarrow> ah < ax \<and> ax \<le> e" using f(2) by simp
qed

section \<open>The vectors of a section\<close>

text \<open>The verdict on a vector whose name ends at \<open>an\<close> and whose bytes, spelled \<open>x\<close>, end at \<open>ah\<close>, and the
  place where the next one is looked for. A negative vector needs an \<open>expect\<close> field.\<close>

definition vector_verdict :: "nat \<Rightarrow> string \<Rightarrow> nat \<Rightarrow> bool \<Rightarrow> nat \<Rightarrow> nat \<Rightarrow> string \<Rightarrow> nat \<times> bool" where
  "vector_verdict ulong_max buf e positive an ah x = (case hex_pairs x of
     None \<Rightarrow> (ah, False)
   | Some B \<Rightarrow>
       if 64 < length B then (ah, False)
       else if positive then (ah, positive_ok ulong_max buf an ah B)
       else case text_field buf ah e ''expect'' 64 of
         None \<Rightarrow> (ah, False)
       | Some (ax, y) \<Rightarrow> (ax, decoder_status B = named_status y))"

inductive section_run :: "nat \<Rightarrow> string \<Rightarrow> nat \<Rightarrow> bool \<Rightarrow> nat \<Rightarrow> bool list \<Rightarrow> bool"
  for ulong_max buf e positive where
  no_name: "text_field buf cursor e ''name'' 128 = None \<Longrightarrow> section_run ulong_max buf e positive cursor []"
| no_bytes: "text_field buf cursor e ''name'' 128 = Some (an, nm) \<Longrightarrow> text_field buf an e ''bytes_hex'' 512 = None
    \<Longrightarrow> section_run ulong_max buf e positive cursor []"
| vector: "text_field buf cursor e ''name'' 128 = Some (an, nm) \<Longrightarrow> text_field buf an e ''bytes_hex'' 512 = Some (ah, x)
    \<Longrightarrow> vector_verdict ulong_max buf e positive an ah x = (next_cursor, v)
    \<Longrightarrow> section_run ulong_max buf e positive next_cursor vs
    \<Longrightarrow> section_run ulong_max buf e positive cursor (v # vs)"

inductive_cases section_runE: "section_run ulong_max buf e positive cursor vs"

lemma section_run_unique:
  "section_run ulong_max buf e positive cursor vs \<Longrightarrow> section_run ulong_max buf e positive cursor vs' \<Longrightarrow> vs' = vs"
proof (induction arbitrary: vs' rule: section_run.induct)
  case (no_name cursor)
  from no_name(2,1) show ?case by cases simp_all
next
  case (no_bytes cursor an nm)
  from no_bytes(3,1,2) show ?case by cases simp_all
next
  case (vector cursor an nm ah x next_cursor v vs)
  from vector.prems vector.hyps(1-3) vector.IH show ?case by cases auto
qed

lemma check_vector_verdict:
  assumes s: "scratch_ok s" and ok: "text_ok buf e" "an < length buf" "ah < length buf" and hex: "c_string hex 0 = Some x"
  shows "\<exists>next_cursor v. vector_verdict ulong_max buf e positive an ah x = (next_cursor, v)
    \<and> check_vector ulong_max s buf e positive an ah hex counts = Some (next_cursor, counted counts v)
    \<and> ah \<le> next_cursor \<and> (ah \<le> e \<longrightarrow> next_cursor \<le> e)"
proof (cases "\<exists>B. hex_pairs x = Some B \<and> length B \<le> 64")
  case False
  then show ?thesis using check_vector_bad_hex [OF s hex False]
    by (auto simp: vector_verdict_def not_le split: option.splits)
next
  case True
  then obtain B where B: "hex_pairs x = Some B" "length B \<le> 64" by blast
  show ?thesis
  proof (cases positive)
    case True
    have "text_ok buf ah" using ok by (simp add: text_ok_def)
    from check_vector_positive [OF s this ok(2) hex] B True show ?thesis by (simp add: vector_verdict_def)
  next
    case False
    from check_vector_negative [OF s ok(1,3) hex B] B False show ?thesis
      by (auto simp: vector_verdict_def split: option.splits)
  qed
qed

definition tally :: "vector_counts \<Rightarrow> bool list \<Rightarrow> vector_counts" where
  "tally counts vs = \<lparr>g_checked = g_checked counts + length vs, g_failed = g_failed counts + count_list vs False\<rparr>"

lemma tally_simps [simp]:
  "tally counts [] = counts"
  "tally (counted counts v) vs = tally counts (v # vs)"
  "tally (tally counts vs) vs' = tally counts (vs @ vs')"
  by (simp_all add: tally_def counted_def)

section \<open>The tool reads them off\<close>

lemma check_section_verdicts:
  assumes s: "scratch_ok s" and ok: "text_ok buf e" and p: "cursor < length buf"
  shows "\<exists>vs. section_run ulong_max buf e positive cursor vs
    \<and> check_section_loop ulong_max s buf e positive cursor counts = Some (tally counts vs)"
  using p
proof (induction "length buf - cursor" arbitrary: cursor counts rule: less_induct)
  case less
  have e: "q < length buf" if "q \<le> e" for q using ok that by (simp add: text_ok_def)
  have l: "128 \<le> length (scratch_name s)" "512 \<le> length (scratch_hex s)" using s by (simp_all add: scratch_ok_def)
  obtain r1 name where n: "find_string_value buf cursor e ''name'' (scratch_name s) 128 = Some (r1, name)"
      "case text_field buf cursor e ''name'' 128 of None \<Rightarrow> r1 = None
       | Some (q, x) \<Rightarrow> r1 = Some q \<and> cursor < q \<and> q \<le> e \<and> c_string name 0 = Some x"
    using find_string_value_text [OF ok _ less.prems _ l(1), of "''name''"] by auto
  show ?case
  proof (cases "text_field buf cursor e ''name'' 128")
    case None
    then show ?thesis using n by (subst check_section_loop.simps) (auto intro!: section_run.no_name)
  next
    case t1: (Some an_nm)
    obtain an nm where an: "an_nm = (an, nm)" "r1 = Some an" "cursor < an" "an \<le> e"
      using n(2) t1 by (auto split: prod.splits)
    obtain r2 hex where h: "find_string_value buf an e ''bytes_hex'' (scratch_hex s) 512 = Some (r2, hex)"
        "case text_field buf an e ''bytes_hex'' 512 of None \<Rightarrow> r2 = None
         | Some (q, x) \<Rightarrow> r2 = Some q \<and> an < q \<and> q \<le> e \<and> c_string hex 0 = Some x"
      using find_string_value_text [OF ok _ e [OF an(4)] _ l(2), of "''bytes_hex''"] by auto
    show ?thesis
    proof (cases "text_field buf an e ''bytes_hex'' 512")
      case None
      then show ?thesis using n h t1 an
        by (subst check_section_loop.simps) (auto intro: section_run.no_bytes)
    next
      case t2: (Some ah_x)
      obtain ah x where ah: "ah_x = (ah, x)" "r2 = Some ah" "an < ah" "ah \<le> e" "c_string hex 0 = Some x"
        using h(2) t2 by (auto split: prod.splits)
      obtain q v where v: "vector_verdict ulong_max buf e positive an ah x = (q, v)"
          "check_vector ulong_max s buf e positive an ah hex counts = Some (q, counted counts v)" "ah \<le> q" "q \<le> e"
        using check_vector_verdict [OF s ok e [OF an(4)] e [OF ah(4)] ah(5)] ah(4) by blast
      have q: "cursor < q" "q < length buf" using an ah v e by auto
      from less.hyps [OF diff_less_mono2 [OF q(1)] q(2), of "counted counts v"] less.prems
      obtain vs where "section_run ulong_max buf e positive q vs"
          "check_section_loop ulong_max s buf e positive q (counted counts v) = Some (tally (counted counts v) vs)" by auto
      then show ?thesis using n h t1 t2 an ah v
        by (subst check_section_loop.simps) (auto intro: section_run.vector)
    qed
  qed
qed

lemma c_strstr_hit:
  assumes "c_strstr buf 0 pat = Some (Some q)"
  shows "q < length buf"
  using c_strstr_pos [OF assms] by simp

section \<open>Properties\<close>

text \<open>The file buffer of \<open>main\<close>, and its exit code for some verdicts.\<close>

definition file_buffer :: "string \<Rightarrow> string" where
  "file_buffer doc = doc @ replicate (MAX_FILE_SIZE - length doc) NUL"

definition exit_code :: "bool list \<Rightarrow> int" where
  "exit_code vs = (if vs = [] then 2 else if list_all id vs then 0 else 1)"

abbreviation (input) "no_counts \<equiv> \<lparr>g_checked = 0, g_failed = 0\<rparr>"

lemma count_false: "count_list vs False = 0 \<longleftrightarrow> list_all id vs"
  by (induction vs) auto

lemma exit_code_tally: "(if g_checked (tally no_counts vs) = 0 then 2
    else if g_failed (tally no_counts vs) = 0 then 0 else 1) = exit_code vs"
  by (simp add: tally_def exit_code_def count_false)

lemma tool_on_file:
  assumes "0 < length doc" "length doc < MAX_FILE_SIZE - 1"
  shows "validate_handoff_vectors ulong_max s (Contents doc) = do {
      positive_start \<leftarrow> c_strstr (file_buffer doc) 0 (pattern_of ''positive'');
      negative_start \<leftarrow> c_strstr (file_buffer doc) 0 (pattern_of ''negative'');
      case (positive_start, negative_start) of
        (Some a, Some b) \<Rightarrow>
          if b \<le> a then Some (2, no_counts)
          else do {
            counts \<leftarrow> check_section ulong_max s (file_buffer doc) a b True no_counts;
            counts \<leftarrow> check_section ulong_max s (file_buffer doc) b (length doc) False counts;
            Some (if g_checked counts = 0 then 2 else if g_failed counts = 0 then 0 else 1, counts) }
      | _ \<Rightarrow> Some (2, no_counts) }"
proof -
  have m: "min (length doc) (MAX_FILE_SIZE - 1) = length doc" using assms by simp
  have f: "take (length doc) doc @ replicate (MAX_FILE_SIZE - length doc) NUL = file_buffer doc"
    by (simp add: file_buffer_def)
  show ?thesis using assms unfolding validate_handoff_vectors_def Let_def tool_input.case m f by simp
qed

lemma file_buffer_facts:
  assumes "length doc < MAX_FILE_SIZE - 1"
  shows "length (file_buffer doc) = 65536" "last (file_buffer doc) = NUL" "text_ok (file_buffer doc) (length doc)"
  using assms by (simp_all add: file_buffer_def last_append last_replicate text_ok_def)

lemma tool_verdicts:
  assumes s: "scratch_ok s" and size: "0 < length doc" "length doc < MAX_FILE_SIZE - 1"
    and a: "c_strstr (file_buffer doc) 0 (pattern_of ''positive'') = Some (Some a)"
    and b: "c_strstr (file_buffer doc) 0 (pattern_of ''negative'') = Some (Some b)" and ab: "a < b"
  shows "\<exists>ps ns. section_run ulong_max (file_buffer doc) b True a ps
    \<and> section_run ulong_max (file_buffer doc) (length doc) False b ns
    \<and> validate_handoff_vectors ulong_max s (Contents doc)
      = Some (exit_code (ps @ ns), tally no_counts (ps @ ns))"
proof -
  note l = file_buffer_facts [OF size(2)]
  have ok: "text_ok (file_buffer doc) b" "a < length (file_buffer doc)" "b < length (file_buffer doc)"
    using c_strstr_hit [OF a] c_strstr_hit [OF b] l(2) by (simp_all add: text_ok_def)
  obtain ps where ps: "section_run ulong_max (file_buffer doc) b True a ps"
      "check_section_loop ulong_max s (file_buffer doc) b True a no_counts = Some (tally no_counts ps)"
    using check_section_verdicts [OF s ok(1,2)] by blast
  obtain ns where ns: "section_run ulong_max (file_buffer doc) (length doc) False b ns"
      "check_section_loop ulong_max s (file_buffer doc) (length doc) False b (tally no_counts ps)
        = Some (tally (tally no_counts ps) ns)"
    using check_section_verdicts [OF s l(3) ok(3)] by blast
  have "validate_handoff_vectors ulong_max s (Contents doc) = Some (exit_code (ps @ ns), tally no_counts (ps @ ns))"
    using ab ps(2) ns(2) unfolding tool_on_file [OF size] a b
    by (simp add: check_section_def exit_code_tally [symmetric] del: exit_code_tally)
  then show ?thesis using ps(1) ns(1) by blast
qed

text \<open>C26: what the vector tool computes. On a file of a size it reads, with a positive section before a
  negative one, the two sections have exactly one sequence of verdicts each; the tool checks as many vectors as
  there are verdicts, counts the ones that are false as failures, and exits with 0 exactly if there is
  a verdict and all are true. A positive verdict is true exactly if the bytes are the encoding of a
  valid handoff control and the fields declared between the name and the bytes are those of the
  control; a negative one exactly if the \<open>expect\<close> field behind the bytes names the decoder's status.\<close>

theorem vectors_tool_exact:
  assumes "scratch_ok s" "0 < length doc" "length doc < MAX_FILE_SIZE - 1"
    and "c_strstr (file_buffer doc) 0 (pattern_of ''positive'') = Some (Some a)"
    and "c_strstr (file_buffer doc) 0 (pattern_of ''negative'') = Some (Some b)" "a < b"
  shows "\<exists>ps ns. (\<forall>vs. section_run ulong_max (file_buffer doc) b True a vs \<longleftrightarrow> vs = ps)
    \<and> (\<forall>vs. section_run ulong_max (file_buffer doc) (length doc) False b vs \<longleftrightarrow> vs = ns)
    \<and> validate_handoff_vectors ulong_max s (Contents doc)
      = Some (exit_code (ps @ ns), tally no_counts (ps @ ns))"
  using tool_verdicts [OF assms, of ulong_max] section_run_unique by metis

text \<open>A file with one negative vector, for the witness.\<close>

definition sample_doc :: string where
  "sample_doc = ''{\"positive\": [], \"negative\": [{\"name\": \"x\", \"bytes_hex\": \"00\", \"expect\": \"TRUNCATED\"}]}''"

theorem vectors_tool_exact_witness:
  "\<exists>ps ns. (\<forall>vs. section_run 4294967295 (file_buffer sample_doc) 17 True 1 vs \<longleftrightarrow> vs = ps)
    \<and> validate_handoff_vectors 4294967295 cleared_scratch (Contents sample_doc)
      = Some (exit_code (ps @ ns), tally no_counts (ps @ ns))"
proof -
  have l: "0 < length sample_doc" "length sample_doc < 65535" by (simp_all add: sample_doc_def)
  then have "file_buffer sample_doc = sample_doc @ NUL # replicate (MAX_FILE_SIZE - Suc (length sample_doc)) NUL"
    by (simp add: file_buffer_def Suc_diff_Suc flip: replicate_Suc)
  then obtain rest where d: "drop 0 (file_buffer sample_doc) = sample_doc @ NUL # rest" by simp
  let ?xs = "''{\"positive\": [], ''"
  let ?ys = "'': [{\"name\": \"x\", \"bytes_hex\": \"00\", \"expect\": \"TRUNCATED\"}]}''"
  have p: "c_strstr (file_buffer sample_doc) 0 (pattern_of ''positive'') = Some (Some (0 + length ''{''))"
    by (rule c_strstr_layout [where ys = "'': [], '' @ pattern_of ''negative'' @ ?ys" and rest = rest], unfold d)
      (simp_all add: sample_doc_def pattern_of_def first_match.simps)
  have n: "c_strstr (file_buffer sample_doc) 0 (pattern_of ''negative'') = Some (Some (0 + length ?xs))"
    by (rule c_strstr_layout [where ys = ?ys and rest = rest], unfold d)
      (simp_all add: sample_doc_def pattern_of_def first_match.simps)
  have q: "c_strstr (file_buffer sample_doc) 0 (pattern_of ''positive'') = Some (Some 1)"
    "c_strstr (file_buffer sample_doc) 0 (pattern_of ''negative'') = Some (Some 17)"
    unfolding p n by simp_all
  have m: "length sample_doc < MAX_FILE_SIZE - 1" "1 < (17 :: nat)" using l(2) by simp_all
  obtain ps ns where "\<forall>vs. section_run 4294967295 (file_buffer sample_doc) 17 True 1 vs \<longleftrightarrow> vs = ps"
      "validate_handoff_vectors 4294967295 cleared_scratch (Contents sample_doc)
        = Some (exit_code (ps @ ns), tally no_counts (ps @ ns))"
    using vectors_tool_exact [OF cleared_scratch_ok l(1) m(1) q m(2), of 4294967295] by (elim exE conjE)
  then show ?thesis by (intro exI conjI)
qed

text \<open>C27: the vector check always comes to an end. Whatever the file holds, no loop of the tool runs
  forever, no access leaves the file buffer or any of its arrays, and the exit code is 0 exactly
  if some vector was checked and none failed, 1 if one failed, and 2 if nothing could be checked.\<close>

theorem vectors_tool_terminates:
  assumes "scratch_ok s"
  shows "\<exists>code counts. validate_handoff_vectors ulong_max s input = Some (code, counts)
    \<and> code \<in> {0, 1, 2} \<and> (code = 0 \<longleftrightarrow> 0 < g_checked counts \<and> g_failed counts = 0)
    \<and> (code = 1 \<longrightarrow> 0 < g_failed counts)"
proof (cases input)
  case (Contents doc)
  show ?thesis
  proof (cases "0 < length doc \<and> length doc < MAX_FILE_SIZE - 1")
    case False
    then show ?thesis using Contents by (auto simp: validate_handoff_vectors_def Let_def)
  next
    case True
    then have size: "0 < length doc" "length doc < MAX_FILE_SIZE - 1" by simp_all
    note l = file_buffer_facts [OF size(2)]
    obtain p where p: "c_strstr (file_buffer doc) 0 (pattern_of ''positive'') = Some p" using c_strstr_some [OF _ l(2), of 0] l by auto
    obtain n where n: "c_strstr (file_buffer doc) 0 (pattern_of ''negative'') = Some n" using c_strstr_some [OF _ l(2), of 0] l by auto
    show ?thesis
    proof (cases "\<exists>a b. p = Some a \<and> n = Some b \<and> a < b")
      case False
      then show ?thesis using Contents p n by (cases p; cases n) (auto simp: tool_on_file [OF size])
    next
      case True
      then obtain a b where ab: "p = Some a" "n = Some b" "a < b" by blast
      obtain vs where "validate_handoff_vectors ulong_max s input = Some (exit_code vs, tally no_counts vs)"
        using tool_verdicts [OF assms size p [unfolded ab(1)] n [unfolded ab(2)] ab(3)] Contents by blast
      then show ?thesis using count_false [of vs] by (auto simp: exit_code_def tally_def)
    qed
  qed
qed (auto simp: validate_handoff_vectors_def)

theorem vectors_tool_terminates_witness:
  "\<exists>code counts. validate_handoff_vectors 4294967295 cleared_scratch (Contents ''{}'') = Some (code, counts)
    \<and> code \<in> {0, 1, 2} \<and> (code = 0 \<longleftrightarrow> 0 < g_checked counts \<and> g_failed counts = 0)
    \<and> (code = 1 \<longrightarrow> 0 < g_failed counts)"
  by (rule vectors_tool_terminates [OF cleared_scratch_ok])

text \<open>The hexadecimal decoder inverts the spelling of bytes by two digits each: the text of bytes that
  fit the output array is decoded to exactly those bytes, and nothing behind them is written.\<close>

lemma decode_hex_roundtrip:
  assumes "length bs \<le> cap" "cap \<le> length out"
  shows "decode_hex (hex_text bs @ [NUL]) out cap written = Some (True, over bs out, length bs)"
proof -
  have "c_string (hex_text bs @ [NUL]) 0 = Some (hex_text bs)" by (simp add: c_string_split hex_text_no_NUL)
  from decode_hex_eq [OF this assms(2), of written] assms(1) hex_pairs_text show ?thesis by auto
qed

text \<open>The verdict on a positive vector. The vector passes exactly if its text spells, digit by digit,
  the bytes that the encoder gives for some valid handoff control, and the file declares beside it the
  operation, the two references and the size of that control. The check by encoding again never adds
  a failure. A vector that does not pass is counted as one failure, and the scan goes on behind the
  text in either case.\<close>

lemma positive_vector_verdict:
  assumes "scratch_ok s" "text_ok buf cursor" "an < length buf" "c_string hex 0 = Some x"
  shows "check_vector ulong_max s buf e True an cursor hex counts = Some (cursor, counted counts
    (\<exists>c. handoff_valid c \<and> hex_pairs x = Some (handoff_emit c) \<and> declares ulong_max buf an cursor c))"
  unfolding check_vector_positive [OF assms] some_image_iff [OF positive_ok_iff, of "hex_pairs x"] ..

text \<open>A COMMIT as the file would give it.\<close>

definition commit_text :: string where
  "commit_text = ''\"operation\": 3, \"migration_ref\": 7, \"session_ref\": 9, \"size\": 10'' @ [NUL]"

lemma commit_vector_passes:
  "check_vector 4294967295 cleared_scratch commit_text 64 True 0 64 (''00030000000700000009'' @ [NUL])
      \<lparr>g_checked = 0, g_failed = 0\<rparr> = Some (64, \<lparr>g_checked = 1, g_failed = 0\<rparr>)"
proof -
  let ?c = "\<lparr>control_operation = 3, control_migration_ref = 7, control_session_ref = 9,
    control_challenge = replicate 8 0, control_challenge_present = 0\<rparr>"
  have t: "text_ok commit_text 64" "0 < length commit_text" by (simp_all add: text_ok_def commit_text_def)
  have h: "c_string (''00030000000700000009'' @ [NUL]) 0 = Some ''00030000000700000009''" by (simp add: c_string_def)
  have v: "handoff_valid ?c" by (simp add: handoff_valid_def carries_def)
  have x: "hex_pairs ''00030000000700000009'' = Some (handoff_emit ?c)"
    unfolding handoff_emit_eq [OF v] by (simp add: hex_value_def handoff_bytes_def be32_def carries_def)
  have d: "declares 4294967295 commit_text 0 64 ?c"
    by (simp add: declares_def handoff_emit_eq [OF v] handoff_bytes_def carries_def declared_number_def
      find_number_value_def commit_text_def c_strstr_def c_string_def first_match.simps pattern_of_def
      skip_while.simps char_at_def json_gap_def c_isdigit_def c_strtoul_def decimal_def digit_value_def)
  from v x d have ex: "\<exists>c. handoff_valid c \<and> hex_pairs ''00030000000700000009'' = Some (handoff_emit c)
    \<and> declares 4294967295 commit_text 0 64 c" by blast
  have z: "counted \<lparr>g_checked = 0, g_failed = 0\<rparr> True = \<lparr>g_checked = 1, g_failed = 0\<rparr>" by (simp add: counted_def)
  show ?thesis by (rule counted_pass [OF positive_vector_verdict [OF cleared_scratch_ok t h] ex z])
qed

text \<open>The verdict on a negative vector whose text spells at most 64 bytes. It passes exactly if an
  \<open>expect\<close> field follows and names the status that the decoder gives for those bytes.\<close>

lemma negative_vector_verdict:
  assumes "scratch_ok s" "text_ok buf e" "cursor < length buf" "c_string hex 0 = Some x"
    and "hex_pairs x = Some B" "length B \<le> 64"
    and "find_string_value buf cursor e ''expect'' (scratch_expect s) 64 = Some (r, expect)"
  shows "check_vector ulong_max s buf e False an cursor hex counts = Some (case r of
        None \<Rightarrow> (cursor, counted counts False)
      | Some after_expect \<Rightarrow> (after_expect, counted counts
          (\<exists>y. c_string expect 0 = Some y \<and> decoder_status B = named_status y)))"
proof -
  have "64 \<le> length (scratch_expect s)" using assms(1) by (simp add: scratch_ok_def)
  from find_string_value_text [OF assms(2) _ assms(3) _ this, of "''expect''"] show ?thesis
    using check_vector_negative(1) [OF assms(1-6), of ulong_max an counts] assms(7)
    by (auto split: option.splits prod.splits)
qed

lemma truncated_vector_passes:
  "check_vector 4294967295 cleared_scratch (field_text [] ''expect'' '': '' ''TRUNCATED'' ''}'' @ [NUL])
      (length (field_text [] ''expect'' '': '' ''TRUNCATED'' ''}'')) False 0 0 (''00'' @ [NUL])
      \<lparr>g_checked = 0, g_failed = 0\<rparr>
    = Some (length (field_text [] ''expect'' '': '' ''TRUNCATED'' []), \<lparr>g_checked = 1, g_failed = 0\<rparr>)"
proof -
  let ?b = "field_text [] ''expect'' '': '' ''TRUNCATED'' ''}'' @ [NUL]"
  let ?e = "length (field_text [] ''expect'' '': '' ''TRUNCATED'' ''}'')"
  have t: "text_ok ?b ?e" "0 < length ?b" by (simp_all add: text_ok_def)
  have h: "c_string (''00'' @ [NUL]) 0 = Some ''00''" by (simp add: c_string_def)
  have B: "hex_pairs ''00'' = Some [0]" "length [0 :: byte] \<le> 64" by (simp_all add: hex_value_def)
  have "holds_field ?b 0 ?e [] ''expect'' '': '' ''TRUNCATED'' ''}'' []"
    by (simp add: holds_field_def field_text_def pattern_of_def json_gap_def first_match.simps)
  from find_string_value_field [OF this, of 64 "scratch_expect cleared_scratch"]
  have g: "find_string_value ?b 0 ?e ''expect'' (scratch_expect cleared_scratch) 64
      = Some (Some (length (field_text [] ''expect'' '': '' ''TRUNCATED'' [])),
          ''TRUNCATED'' @ NUL # drop 10 (scratch_expect cleared_scratch))"
    by (simp add: cleared_scratch_def)
  have c: "c_string (''TRUNCATED'' @ NUL # r) 0 = Some ''TRUNCATED''" for r by (simp add: c_string_def)
  have d: "decoder_status [0] = named_status ''TRUNCATED''" by code_simp
  show ?thesis
    using negative_vector_verdict [OF cleared_scratch_ok t h B g, of 4294967295 0 "\<lparr>g_checked = 0, g_failed = 0\<rparr>"] c d
    by (simp add: counted_def)
qed

text \<open>C40: a name that is too long ends the check of its section without a trace. If the next \<open>name\<close> field
  has a value of 128 characters or more, the rest of the section, this vector included, is neither
  checked nor counted, whatever it holds.\<close>

theorem vectors_long_value_stops:
  assumes "scratch_ok s" "holds_field buf from e pre ''name'' gap v post beyond" "128 \<le> length v"
  shows "check_section ulong_max s buf from e positive counts = Some counts"
proof -
  note f = field_located [OF assms(2)]
  obtain out' where "find_string_value buf from e ''name'' (scratch_name s) 128 = Some (None, out')"
    using find_string_value_long [OF less_imp_le [OF f(3)] _ f(1), of 128 "scratch_name s"] f(2) assms(1,3)
    by (auto simp: scratch_ok_def)
  then show ?thesis unfolding check_section_def by (subst check_section_loop.simps) simp
qed

theorem vectors_long_value_stops_witness:
  "check_section 4294967295 cleared_scratch (field_text [] ''name'' '': '' (replicate 128 CHR ''x'') '',...'' @ [NUL])
      0 (length (field_text [] ''name'' '': '' (replicate 128 CHR ''x'') '',...'')) True \<lparr>g_checked = 0, g_failed = 0\<rparr>
    = Some \<lparr>g_checked = 0, g_failed = 0\<rparr>"
  by (rule vectors_long_value_stops [OF cleared_scratch_ok, of _ _ _ "[]" "'': ''" "replicate 128 CHR ''x''" "'',...''" "[]"])
    (simp_all add: holds_field_def field_text_def pattern_of_def json_gap_def first_match.simps)

end
