(* ===== verification/Mcl_Registry.thy ===== *)
theory Mcl_Registry
  imports Mcl_Text
begin

text \<open>
  The registry check of \<open>src/tools/validate_transport_registry.c\<close>: it reads at most 16383 bytes of a JSON
  file into an array, parses the array of transport assignments and validates it. The model takes the
  contents of the file and returns the number of assignments (exit code 0) or the diagnostic (exit
  code 1). \<open>int\<close> has 32 bits; an overflow, like an access outside an array, is the fault \<open>None\<close>. The
  arrays on the stack start with arbitrary contents, given by \<open>stack_arrays\<close>.
\<close>

section \<open>Scanning\<close>

definition skip_ws :: "string \<Rightarrow> nat \<Rightarrow> nat \<Rightarrow> nat option" where
  "skip_ws buf p e = skip_while c_isspace buf e p"

text \<open>The test \<open>p < end && *p == c\<close>\<close>

definition looking_at :: "string \<Rightarrow> nat \<Rightarrow> nat \<Rightarrow> char \<Rightarrow> bool option" where
  "looking_at buf e p c = (if p < e then map_option (\<lambda>x. x = c) (char_at buf p) else Some False)"

abbreviation backslash :: char where "backslash \<equiv> CHR 0x5C"

function copy_string :: "string \<Rightarrow> nat \<Rightarrow> nat \<Rightarrow> string \<Rightarrow> nat \<Rightarrow> nat \<Rightarrow> (nat option \<times> string \<times> nat) option" where
  "copy_string buf e out_size out len p =
    (if p < e then do {
       c \<leftarrow> char_at buf p;
       if c = quote then Some (Some p, out, len)
       else if c = backslash \<or> len + 1 \<ge> out_size then Some (None, out, len)
       else do {
         out \<leftarrow> put_char out len c;
         copy_string buf e out_size out (len + 1) (p + 1) } }
     else Some (Some p, out, len))"
  by pat_completeness auto
termination
  by (relation "measure (\<lambda>(buf, e, out_size, out, len, p). e - p)") auto

declare copy_string.simps [simp del]

definition parse_string :: "string \<Rightarrow> nat \<Rightarrow> nat \<Rightarrow> string \<Rightarrow> nat \<Rightarrow> (nat option \<times> string) option" where
  "parse_string buf p e out out_size = do {
     p \<leftarrow> skip_ws buf p e;
     opens \<leftarrow> looking_at buf e p quote;
     if \<not> opens then Some (None, out)
     else do {
       (stop, out, len) \<leftarrow> copy_string buf e out_size out 0 (p + 1);
       case stop of
         None \<Rightarrow> Some (None, out)
       | Some p \<Rightarrow> do {
           closes \<leftarrow> looking_at buf e p quote;
           if \<not> closes then Some (None, out)
           else do {
             out \<leftarrow> put_char out len NUL;
             Some (Some (p + 1), out) } } } }"

definition INT_MAX :: nat where "INT_MAX = 2147483647"

text \<open>The loop that reads the digits; a value above \<open>INT_MAX\<close> is a signed overflow.\<close>

function int_loop :: "string \<Rightarrow> nat \<Rightarrow> nat \<Rightarrow> nat \<Rightarrow> (nat \<times> nat) option" where
  "int_loop buf e val p =
    (if p < e then do {
       c \<leftarrow> char_at buf p;
       if \<not> c_isdigit c then Some (p, val)
       else if val * 10 + digit_value c > INT_MAX then None
       else int_loop buf e (val * 10 + digit_value c) (p + 1) }
     else Some (p, val))"
  by pat_completeness auto
termination
  by (relation "measure (\<lambda>(buf, e, val, p). e - p)") auto

declare int_loop.simps [simp del]

definition parse_int :: "string \<Rightarrow> nat \<Rightarrow> nat \<Rightarrow> int \<Rightarrow> (nat option \<times> int) option" where
  "parse_int buf p e out = do {
     p \<leftarrow> skip_ws buf p e;
     digit \<leftarrow> (if p < e then map_option c_isdigit (char_at buf p) else Some False);
     if \<not> digit then Some (None, out)
     else do {
       (p, val) \<leftarrow> int_loop buf e 0 p;
       Some (Some p, int val) } }"

section \<open>The assignments\<close>

record transport_assignment =
  assignment_id :: int
  assignment_name :: string
  assignment_status :: string
  assignment_owner_repo :: string
  assignment_normative_specification :: string
  assignment_specification_status :: string

text \<open>What \<open>memset\<close> leaves.\<close>

definition zero_assignment :: transport_assignment where
  "zero_assignment = \<lparr>assignment_id = 0, assignment_name = replicate 64 NUL,
     assignment_status = replicate 64 NUL, assignment_owner_repo = replicate 64 NUL,
     assignment_normative_specification = replicate 64 NUL,
     assignment_specification_status = replicate 64 NUL\<rparr>"

text \<open>The diagnostics; \<open>Bad_Value\<close> is the silent return for a value that does not parse.\<close>

datatype registry_error =
    Cannot_Read
  | Missing_Field_Width
  | Wrong_Field_Width int
  | Missing_Assignments
  | Not_An_Array
  | Expected_Object
  | Malformed_Key
  | Expected_Colon
  | Bad_Value
  | Malformed_Description
  | Unknown_Key
  | Unterminated_Object
  | Too_Many_Assignments
  | No_Assignments
  | Invalid_Id int
  | Duplicate_Id int
  | Duplicate_Name
  | Duplicate_Owner
  | Unknown_Status int
  | No_Specification int
  | Specification_Not_Stable int
  | Assignment_Not_Stable int
  | Missing_Bindings

record stack_arrays =
  stack_buf :: string
  stack_key :: string
  stack_discard :: string

text \<open>The chain of comparisons of the key; the string that the array \<open>key\<close> holds is read once.\<close>

definition string_field :: "(nat option \<times> string) option \<Rightarrow> (string \<Rightarrow> transport_assignment)
    \<Rightarrow> (registry_error + nat \<times> transport_assignment) option" where
  "string_field parsed store = do {
     (p, out) \<leftarrow> parsed;
     case p of None \<Rightarrow> Some (Inl Bad_Value) | Some p \<Rightarrow> Some (Inr (p, store out)) }"

definition parse_value :: "string \<Rightarrow> nat \<Rightarrow> stack_arrays \<Rightarrow> string \<Rightarrow> transport_assignment \<Rightarrow> nat
    \<Rightarrow> (registry_error + nat \<times> transport_assignment) option" where
  "parse_value buf e s key a p = do {
     k \<leftarrow> c_string key 0;
     if k = ''id'' then do {
       (q, i) \<leftarrow> parse_int buf p e (assignment_id a);
       case q of None \<Rightarrow> Some (Inl Bad_Value) | Some p \<Rightarrow> Some (Inr (p, a\<lparr>assignment_id := i\<rparr>)) }
     else if k = ''name'' then
       string_field (parse_string buf p e (assignment_name a) 64) (\<lambda>x. a\<lparr>assignment_name := x\<rparr>)
     else if k = ''status'' then
       string_field (parse_string buf p e (assignment_status a) 64) (\<lambda>x. a\<lparr>assignment_status := x\<rparr>)
     else if k = ''owner_repo'' then
       string_field (parse_string buf p e (assignment_owner_repo a) 64) (\<lambda>x. a\<lparr>assignment_owner_repo := x\<rparr>)
     else if k = ''normative_specification'' then
       string_field (parse_string buf p e (assignment_normative_specification a) 64)
         (\<lambda>x. a\<lparr>assignment_normative_specification := x\<rparr>)
     else if k = ''specification_status'' then
       string_field (parse_string buf p e (assignment_specification_status a) 64)
         (\<lambda>x. a\<lparr>assignment_specification_status := x\<rparr>)
     else if k = ''family'' \<or> k = ''detail'' \<or> k = ''specification_note'' then do {
       (q, discard) \<leftarrow> parse_string buf p e (stack_discard s) 512;
       case q of None \<Rightarrow> Some (Inl Malformed_Description) | Some p \<Rightarrow> Some (Inr (p, a)) }
     else Some (Inl Unknown_Key) }"

definition skip_comma :: "string \<Rightarrow> nat \<Rightarrow> nat \<Rightarrow> nat option" where
  "skip_comma buf e p = do {
     p \<leftarrow> skip_ws buf p e;
     comma \<leftarrow> looking_at buf e p CHR '','';
     Some (if comma then p + 1 else p) }"

text \<open>The loop over the members of one object.\<close>

partial_function (option) parse_object :: "string \<Rightarrow> nat \<Rightarrow> stack_arrays \<Rightarrow> transport_assignment \<Rightarrow> nat
    \<Rightarrow> (registry_error + nat \<times> transport_assignment) option" where
  "parse_object buf e s a p = do {
     inside \<leftarrow> (if p < e then map_option (\<lambda>c. c \<noteq> CHR ''}'') (char_at buf p) else Some False);
     if \<not> inside then Some (Inr (p, a))
     else do {
       (q, key) \<leftarrow> parse_string buf p e (stack_key s) 64;
       case q of
         None \<Rightarrow> Some (Inl Malformed_Key)
       | Some p \<Rightarrow> do {
           p \<leftarrow> skip_ws buf p e;
           colon \<leftarrow> looking_at buf e p CHR '':'';
           if \<not> colon then Some (Inl Expected_Colon)
           else do {
             r \<leftarrow> parse_value buf e s key a (p + 1);
             case r of
               Inl err \<Rightarrow> Some (Inl err)
             | Inr (p, a) \<Rightarrow> do {
                 p \<leftarrow> skip_comma buf e p;
                 parse_object buf e s a p } } } } }"

text \<open>The loop over the objects; \<open>assignments\<close> holds the entries of the array that are in use.\<close>

abbreviation (input) MAX_ASSIGNMENTS :: nat where "MAX_ASSIGNMENTS \<equiv> 64"

partial_function (option) parse_assignments :: "string \<Rightarrow> nat \<Rightarrow> stack_arrays \<Rightarrow> transport_assignment list \<Rightarrow> nat
    \<Rightarrow> (registry_error + transport_assignment list) option" where
  "parse_assignments buf e s assignments p = (if p < e then do {
       p \<leftarrow> skip_ws buf p e;
       closes \<leftarrow> (if p < e then map_option (\<lambda>c. c = CHR '']'') (char_at buf p) else Some True);
       if closes then Some (Inr assignments)
       else do {
         opens \<leftarrow> map_option (\<lambda>c. c = CHR ''{'') (char_at buf p);
         if \<not> opens then Some (Inl Expected_Object)
         else do {
           r \<leftarrow> parse_object buf e s zero_assignment (p + 1);
           case r of
             Inl err \<Rightarrow> Some (Inl err)
           | Inr (p, a) \<Rightarrow> do {
               closed \<leftarrow> looking_at buf e p CHR ''}'';
               if \<not> closed then Some (Inl Unterminated_Object)
               else if length assignments \<ge> MAX_ASSIGNMENTS then Some (Inl Too_Many_Assignments)
               else do {
                 p \<leftarrow> skip_comma buf e (p + 1);
                 parse_assignments buf e s (assignments @ [a]) p } } } } }
     else Some (Inr assignments))"

section \<open>The validation\<close>

text \<open>\<open>strcmp(x, y) == 0\<close>\<close>

definition same_text :: "string \<Rightarrow> string \<Rightarrow> bool option" where
  "same_text x y = do {
     a \<leftarrow> c_string x 0;
     b \<leftarrow> c_string y 0;
     Some (a = b) }"

text \<open>The inner loop, over the later entries.\<close>

primrec unique_loop :: "transport_assignment \<Rightarrow> transport_assignment list \<Rightarrow> (registry_error + unit) option" where
  "unique_loop a [] = Some (Inr ())"
| "unique_loop a (b # bs) =
    (if assignment_id a = assignment_id b then Some (Inl (Duplicate_Id (assignment_id a)))
     else do {
       name \<leftarrow> same_text (assignment_name a) (assignment_name b);
       if name then Some (Inl Duplicate_Name)
       else do {
         owner \<leftarrow> same_text (assignment_owner_repo a) (assignment_owner_repo b);
         if owner then Some (Inl Duplicate_Owner) else unique_loop a bs } })"

definition check_status :: "transport_assignment \<Rightarrow> (registry_error + unit) option" where
  "check_status a = do {
     stable \<leftarrow> c_equals (assignment_status a) 0 ''stable'';
     provisional \<leftarrow> c_equals (assignment_status a) 0 ''provisional'';
     if \<not> stable \<and> \<not> provisional then Some (Inl (Unknown_Status (assignment_id a)))
     else do {
       spec_stable \<leftarrow> c_equals (assignment_specification_status a) 0 ''Stable'';
       if stable then do {
         first \<leftarrow> char_at (assignment_normative_specification a) 0;
         if first = NUL then Some (Inl (No_Specification (assignment_id a)))
         else if \<not> spec_stable then Some (Inl (Specification_Not_Stable (assignment_id a)))
         else Some (Inr ()) }
       else if spec_stable then Some (Inl (Assignment_Not_Stable (assignment_id a)))
       else Some (Inr ()) } }"

record bindings =
  has_ap :: bool
  has_ip :: bool
  has_ble :: bool
  has_uwb :: bool

definition binds :: "transport_assignment \<Rightarrow> int \<Rightarrow> string \<Rightarrow> string \<Rightarrow> bool option" where
  "binds a i name owner = do {
     n \<leftarrow> c_equals (assignment_name a) 0 name;
     r \<leftarrow> c_equals (assignment_owner_repo a) 0 owner;
     Some (assignment_id a = i \<and> n \<and> r) }"

definition check_bindings :: "transport_assignment \<Rightarrow> bindings \<Rightarrow> bindings option" where
  "check_bindings a has = do {
     ap \<leftarrow> binds a 1 ''MCL_AP'' ''mcl-ap'';
     ip \<leftarrow> binds a 2 ''MCL_IP'' ''mcl-ip'';
     ble \<leftarrow> binds a 3 ''MCL_BLE'' ''mcl-ble'';
     uwb \<leftarrow> binds a 4 ''MCL_UWB'' ''mcl-uwb'';
     Some \<lparr>has_ap = has_ap has \<or> ap, has_ip = has_ip has \<or> ip,
       has_ble = has_ble has \<or> ble, has_uwb = has_uwb has \<or> uwb\<rparr> }"

primrec validate_loop :: "bindings \<Rightarrow> transport_assignment list \<Rightarrow> (registry_error + bindings) option" where
  "validate_loop has [] = Some (Inr has)"
| "validate_loop has (a # as) =
    (if assignment_id a < 1 \<or> assignment_id a > 0x7F then Some (Inl (Invalid_Id (assignment_id a)))
     else do {
       unique \<leftarrow> unique_loop a as;
       case unique of Inl err \<Rightarrow> Some (Inl err)
       | Inr _ \<Rightarrow> do {
           status \<leftarrow> check_status a;
           case status of Inl err \<Rightarrow> Some (Inl err)
           | Inr _ \<Rightarrow> do {
               has \<leftarrow> check_bindings a has;
               validate_loop has as } } })"

text \<open>From \<open>/* Validations */\<close> to the end of \<open>main\<close>.\<close>

definition validate_assignments :: "transport_assignment list \<Rightarrow> (registry_error + nat) option" where
  "validate_assignments assignments =
    (if length assignments = 0 then Some (Inl No_Assignments)
     else do {
       r \<leftarrow> validate_loop \<lparr>has_ap = False, has_ip = False, has_ble = False, has_uwb = False\<rparr> assignments;
       case r of Inl err \<Rightarrow> Some (Inl err)
       | Inr has \<Rightarrow>
           if \<not> has_ap has \<or> \<not> has_ip has \<or> \<not> has_ble has \<or> \<not> has_uwb has then Some (Inl Missing_Bindings)
           else Some (Inr (length assignments)) })"

section \<open>The program\<close>

abbreviation (input) MAX_FILE_SIZE :: nat where "MAX_FILE_SIZE \<equiv> 16384"

text \<open>The contents of \<open>buf\<close> after the read, and its \<open>end\<close>.\<close>

definition read_file :: "stack_arrays \<Rightarrow> string \<Rightarrow> string \<times> nat" where
  "read_file s contents = (let nread = min (length contents) (MAX_FILE_SIZE - 1) in
     (take nread contents @ NUL # drop (nread + 1) (stack_buf s), nread))"

definition field_width_key :: string where
  "field_width_key = quote # ''field_width_bits'' @ [quote, CHR '':'']"

definition assignments_key :: string where
  "assignments_key = quote # ''assignments'' @ [quote, CHR '':'']"

definition check_registry :: "stack_arrays \<Rightarrow> string \<Rightarrow> nat \<Rightarrow> (registry_error + nat) option" where
  "check_registry s buf e = do {
     width \<leftarrow> c_strstr buf 0 field_width_key;
     case width of None \<Rightarrow> Some (Inl Missing_Field_Width)
     | Some p \<Rightarrow> do {
         (q, bits) \<leftarrow> parse_int buf (p + length field_width_key) e 0;
         if q = None \<or> bits \<noteq> 8 then Some (Inl (Wrong_Field_Width bits))
         else do {
           start \<leftarrow> c_strstr buf 0 assignments_key;
           case start of None \<Rightarrow> Some (Inl Missing_Assignments)
           | Some p \<Rightarrow> do {
               bracket \<leftarrow> c_strstr buf p ''['';
               case bracket of None \<Rightarrow> Some (Inl Not_An_Array)
               | Some p \<Rightarrow> do {
                   r \<leftarrow> parse_assignments buf e s [] (p + 1);
                   case r of Inl err \<Rightarrow> Some (Inl err)
                   | Inr assignments \<Rightarrow> validate_assignments assignments } } } } }"

definition validate_transport_registry :: "stack_arrays \<Rightarrow> string option \<Rightarrow> (registry_error + nat) option" where
  "validate_transport_registry s contents = (case contents of
     None \<Rightarrow> Some (Inl Cannot_Read)
   | Some contents \<Rightarrow> let (buf, e) = read_file s contents in check_registry s buf e)"

section \<open>What the validation means\<close>

text \<open>An assignment as the file gives it: the texts that the arrays hold.\<close>

record registry_row =
  row_id :: int
  row_name :: string
  row_status :: string
  row_owner :: string
  row_spec :: string
  row_spec_status :: string

definition text_of :: "string \<Rightarrow> string" where
  "text_of x = takeWhile (\<lambda>c. c \<noteq> NUL) x"

definition row_of :: "transport_assignment \<Rightarrow> registry_row" where
  "row_of a = \<lparr>row_id = assignment_id a, row_name = text_of (assignment_name a),
     row_status = text_of (assignment_status a), row_owner = text_of (assignment_owner_repo a),
     row_spec = text_of (assignment_normative_specification a),
     row_spec_status = text_of (assignment_specification_status a)\<rparr>"

definition array_ok :: "string \<Rightarrow> bool" where
  "array_ok x \<longleftrightarrow> length x = 64 \<and> NUL \<in> set x"

definition assignment_ok :: "transport_assignment \<Rightarrow> bool" where
  "assignment_ok a \<longleftrightarrow> array_ok (assignment_name a) \<and> array_ok (assignment_status a)
     \<and> array_ok (assignment_owner_repo a) \<and> array_ok (assignment_normative_specification a)
     \<and> array_ok (assignment_specification_status a)"

text \<open>The rules of the registry: the numbers, the vocabulary, and what the word stable costs.\<close>

definition valid_row :: "registry_row \<Rightarrow> bool" where
  "valid_row r \<longleftrightarrow> 1 \<le> row_id r \<and> row_id r \<le> 127
     \<and> (row_status r = ''stable'' \<and> row_spec r \<noteq> [] \<and> row_spec_status r = ''Stable''
      \<or> row_status r = ''provisional'' \<and> row_spec_status r \<noteq> ''Stable'')"

definition standard_bindings :: "(int \<times> string \<times> string) list" where
  "standard_bindings = [(1, ''MCL_AP'', ''mcl-ap''), (2, ''MCL_IP'', ''mcl-ip''),
     (3, ''MCL_BLE'', ''mcl-ble''), (4, ''MCL_UWB'', ''mcl-uwb'')]"

definition binding_of :: "registry_row \<Rightarrow> int \<times> string \<times> string" where
  "binding_of r = (row_id r, row_name r, row_owner r)"

definition sound_rows :: "registry_row list \<Rightarrow> bool" where
  "sound_rows rows \<longleftrightarrow> list_all valid_row rows
     \<and> distinct (map row_id rows) \<and> distinct (map row_name rows) \<and> distinct (map row_owner rows)"

definition valid_registry :: "registry_row list \<Rightarrow> bool" where
  "valid_registry rows \<longleftrightarrow> sound_rows rows \<and> set standard_bindings \<subseteq> set (map binding_of rows)"

lemma c_string_array: "array_ok x \<Longrightarrow> c_string x 0 = Some (text_of x)"
  by (simp add: array_ok_def c_string_def text_of_def)

lemma same_text_array: "array_ok x \<Longrightarrow> array_ok y \<Longrightarrow> same_text x y = Some (text_of x = text_of y)"
  by (simp add: same_text_def c_string_array)

lemma c_equals_array: "array_ok x \<Longrightarrow> c_equals x 0 t = Some (text_of x = t)"
  by (simp add: c_equals_def c_string_array)

lemma char_at_array: "array_ok x \<Longrightarrow> \<exists>c. char_at x 0 = Some c \<and> (c = NUL \<longleftrightarrow> text_of x = [])"
  by (cases x) (auto simp: array_ok_def char_at_def text_of_def)

lemma unique_loop_iff:
  assumes "assignment_ok a" "list_all assignment_ok bs"
  shows "\<exists>r. unique_loop a bs = Some r \<and> (r = Inr () \<longleftrightarrow> (\<forall>b \<in> set bs. row_id (row_of a) \<noteq> row_id (row_of b)
    \<and> row_name (row_of a) \<noteq> row_name (row_of b) \<and> row_owner (row_of a) \<noteq> row_owner (row_of b)))"
  using assms(2)
proof (induction bs)
  case (Cons b bs)
  then have "assignment_ok b" and bs: "list_all assignment_ok bs" by simp_all
  then have "same_text (assignment_name a) (assignment_name b) = Some (row_name (row_of a) = row_name (row_of b))"
    "same_text (assignment_owner_repo a) (assignment_owner_repo b) = Some (row_owner (row_of a) = row_owner (row_of b))"
    using assms(1) by (simp_all add: assignment_ok_def same_text_array row_of_def)
  moreover have "row_id (row_of c) = assignment_id c" for c by (simp add: row_of_def)
  ultimately show ?case using Cons.IH [OF bs] by auto
qed simp

lemma check_status_iff:
  assumes "assignment_ok a" "1 \<le> assignment_id a" "assignment_id a \<le> 127"
  shows "\<exists>r. check_status a = Some r \<and> (r = Inr () \<longleftrightarrow> valid_row (row_of a))"
proof -
  obtain c where "char_at (assignment_normative_specification a) 0 = Some c"
      "c = NUL \<longleftrightarrow> text_of (assignment_normative_specification a) = []"
    using char_at_array assms(1) by (auto simp: assignment_ok_def)
  with assms show ?thesis
    by (auto simp: assignment_ok_def check_status_def c_equals_array valid_row_def row_of_def)
qed

definition merge_bindings :: "bindings \<Rightarrow> (int \<times> string \<times> string) set \<Rightarrow> bindings" where
  "merge_bindings has B = \<lparr>has_ap = has_ap has \<or> (1, ''MCL_AP'', ''mcl-ap'') \<in> B,
     has_ip = has_ip has \<or> (2, ''MCL_IP'', ''mcl-ip'') \<in> B,
     has_ble = has_ble has \<or> (3, ''MCL_BLE'', ''mcl-ble'') \<in> B,
     has_uwb = has_uwb has \<or> (4, ''MCL_UWB'', ''mcl-uwb'') \<in> B\<rparr>"

lemma check_bindings_eq:
  assumes "assignment_ok a"
  shows "check_bindings a has = Some (merge_bindings has {binding_of (row_of a)})"
proof -
  have b: "binds a i n r = Some ((i, n, r) = binding_of (row_of a))" for i n r
    using assms by (auto simp: binds_def c_equals_array assignment_ok_def row_of_def binding_of_def)
  show ?thesis by (simp add: check_bindings_def b merge_bindings_def)
qed

lemma merge_bindings_simps:
  "merge_bindings (merge_bindings has A) B = merge_bindings has (A \<union> B)" "merge_bindings has {} = has"
  by (auto simp: merge_bindings_def)

lemma validate_loop_iff:
  assumes "list_all assignment_ok as"
  shows "\<exists>r. validate_loop has as = Some r \<and> (case r of
      Inl err \<Rightarrow> \<not> sound_rows (map row_of as)
    | Inr has' \<Rightarrow> sound_rows (map row_of as) \<and> has' = merge_bindings has (set (map binding_of (map row_of as))))"
  using assms
proof (induction as arbitrary: has)
  case Nil
  then show ?case by (simp add: merge_bindings_simps sound_rows_def)
next
  case (Cons a as)
  then have a: "assignment_ok a" "list_all assignment_ok as" by simp_all
  obtain u where u: "unique_loop a as = Some u" "u = Inr () \<longleftrightarrow> (\<forall>b \<in> set as. row_id (row_of a) \<noteq> row_id (row_of b)
      \<and> row_name (row_of a) \<noteq> row_name (row_of b) \<and> row_owner (row_of a) \<noteq> row_owner (row_of b))"
    using unique_loop_iff [OF a] by blast
  have i: "row_id (row_of a) = assignment_id a" by (simp add: row_of_def)
  show ?case
  proof (cases "1 \<le> assignment_id a \<and> assignment_id a \<le> 127 \<and> u = Inr ()")
    case False
    then show ?thesis using u i by (cases u) (auto simp: valid_row_def sound_rows_def)
  next
    case True
    then obtain t where t: "check_status a = Some t" "t = Inr () \<longleftrightarrow> valid_row (row_of a)"
      using check_status_iff [OF a(1)] by auto
    obtain r where r: "validate_loop (merge_bindings has {binding_of (row_of a)}) as = Some r"
      "case r of
        Inl err \<Rightarrow> \<not> sound_rows (map row_of as)
      | Inr has' \<Rightarrow> sound_rows (map row_of as) \<and> has' = merge_bindings (merge_bindings has {binding_of (row_of a)}) (set (map binding_of (map row_of as)))"
      using Cons.IH [OF a(2)] by blast
    show ?thesis using True u t r
      by (cases t; cases r) (auto simp: check_bindings_eq [OF a(1)] merge_bindings_simps sound_rows_def)
  qed
qed

lemma validate_assignments_iff:
  assumes "list_all assignment_ok as"
  shows "\<exists>r. validate_assignments as = Some r
    \<and> (\<forall>n. r = Inr n \<longleftrightarrow> valid_registry (map row_of as) \<and> n = length as)"
proof -
  obtain r where r: "validate_loop \<lparr>has_ap = False, has_ip = False, has_ble = False, has_uwb = False\<rparr> as = Some r"
    "case r of
      Inl err \<Rightarrow> \<not> sound_rows (map row_of as)
    | Inr has' \<Rightarrow> sound_rows (map row_of as) \<and> has' = merge_bindings \<lparr>has_ap = False, has_ip = False, has_ble = False, has_uwb = False\<rparr>
            (set (map binding_of (map row_of as)))"
    using validate_loop_iff [OF assms] by blast
  have "valid_registry [] = False" by (simp add: valid_registry_def standard_bindings_def)
  with r show ?thesis
    by (cases as; cases r) (auto simp: validate_assignments_def valid_registry_def merge_bindings_def standard_bindings_def)
qed

section \<open>The scanner on any text\<close>

text \<open>The text that is left from a position on.\<close>

definition left :: "string \<Rightarrow> nat \<Rightarrow> nat \<Rightarrow> string" where
  "left buf e p = take (e - p) (drop p buf)"

lemma left_nil: "e \<le> length buf \<Longrightarrow> left buf e p = [] \<longleftrightarrow> e \<le> p"
  by (auto simp: left_def)

lemma left_end: "e \<le> p \<Longrightarrow> left buf e p = []"
  by (simp add: left_def)

lemma left_step: "p < e \<Longrightarrow> e \<le> length buf \<Longrightarrow> left buf e p = buf ! p # left buf e (Suc p)"
  by (simp add: left_def Cons_nth_drop_Suc [symmetric] take_Cons' Suc_diff_Suc)

lemma left_length: "e \<le> length buf \<Longrightarrow> length (left buf e p) = e - p"
  by (simp add: left_def)

lemma left_Cons:
  assumes "left buf e p = c # t" "e \<le> length buf"
  shows "p < e" "char_at buf p = Some c" "left buf e (Suc p) = t"
proof -
  show p: "p < e" using assms left_nil [OF assms(2), of p] by auto
  from left_step [OF p assms(2)] assms(1) show "char_at buf p = Some c" "left buf e (Suc p) = t"
    using p assms(2) by (simp_all add: char_at_in)
qed

lemma left_append:
  assumes "left buf e p = x @ t" "e \<le> length buf"
  shows "left buf e (p + length x) = t"
  using assms
proof (induction x arbitrary: p)
  case (Cons c x)
  from left_Cons [of buf e p c "x @ t"] Cons.prems Cons.IH [of "Suc p"] show ?case by simp
qed simp

lemma skip_ws_eq:
  "e \<le> length buf \<Longrightarrow> skip_ws buf p e = Some (p + length (takeWhile c_isspace (left buf e p)))"
  by (simp add: skip_ws_def skip_while_eq left_def)

lemma skip_ws_left:
  assumes "e \<le> length buf" "p \<le> e"
  obtains q where "skip_ws buf p e = Some q" "p \<le> q" "q \<le> e" "left buf e q = dropWhile c_isspace (left buf e p)"
proof -
  let ?q = "p + length (takeWhile c_isspace (left buf e p))"
  have "length (takeWhile c_isspace (left buf e p)) \<le> length (left buf e p)" by (rule length_takeWhile_le)
  then have "?q \<le> e" using assms left_length [OF assms(1)] by simp
  moreover have "left buf e ?q = dropWhile c_isspace (left buf e p)"
    by (rule left_append [OF takeWhile_dropWhile_id [symmetric] assms(1)])
  ultimately show thesis using that skip_ws_eq [OF assms(1)] by simp
qed

lemma looking_at_eq: "e \<le> length buf \<Longrightarrow> looking_at buf e p c = Some (\<exists>t. left buf e p = c # t)"
  by (cases "p < e") (auto simp: looking_at_def char_at_in left_step left_end)

lemma looking_at_in: "e \<le> length buf \<Longrightarrow> looking_at buf e p c = Some (p < e \<and> buf ! p = c)"
  by (simp add: looking_at_def char_at_in)

lemma copy_string_total:
  assumes "e \<le> length buf" "len < out_size" "out_size \<le> length out" "p \<le> e"
  shows "\<exists>stop out' len'. copy_string buf e out_size out len p = Some (stop, out', len') \<and> length out' = length out
    \<and> (\<forall>q. stop = Some q \<longrightarrow> p \<le> q \<and> q \<le> e \<and> len' < out_size)"
  using assms
proof (induction buf e out_size out len p rule: copy_string.induct)
  case (1 buf e out_size out len p)
  show ?case
  proof (cases "p < e \<and> buf ! p \<noteq> quote \<and> buf ! p \<noteq> backslash \<and> len + 1 < out_size")
    case False
    then show ?thesis using 1(2-5) by (subst copy_string.simps) (auto simp: char_at_in)
  next
    case True
    have p: "p < e" "char_at buf p = Some (buf ! p)" "put_char out len (buf ! p) = Some (out[len := buf ! p])"
      using True 1(2-5) by (simp_all add: char_at_in put_char_in)
    have "\<exists>stop out' len'. copy_string buf e out_size (out[len := buf ! p]) (len + 1) (p + 1) = Some (stop, out', len')
        \<and> length out' = length (out[len := buf ! p])
        \<and> (\<forall>q. stop = Some q \<longrightarrow> p + 1 \<le> q \<and> q \<le> e \<and> len' < out_size)"
      by (rule 1(1) [OF p(1) p(2)]) (use True 1(2-5) p in auto)
    then show ?thesis using True p by (subst copy_string.simps) fastforce
  qed
qed

lemma parse_string_total:
  assumes "e \<le> length buf" "0 < out_size" "out_size \<le> length out" "p \<le> e"
  shows "\<exists>r out'. parse_string buf p e out out_size = Some (r, out') \<and> length out' = length out
    \<and> (\<forall>q. r = Some q \<longrightarrow> p < q \<and> q \<le> e \<and> NUL \<in> set out')"
proof -
  obtain q where q: "skip_ws buf p e = Some q" "p \<le> q" "q \<le> e" using skip_ws_left [OF assms(1,4)] by metis
  show ?thesis
  proof (cases "q < e \<and> buf ! q = quote")
    case False
    then show ?thesis using q assms(1) by (auto simp: parse_string_def looking_at_in)
  next
    case True
    obtain stop out' len' where c: "copy_string buf e out_size out 0 (q + 1) = Some (stop, out', len')"
        "length out' = length out" "\<forall>r. stop = Some r \<longrightarrow> q + 1 \<le> r \<and> r \<le> e \<and> len' < out_size"
      using copy_string_total [OF assms(1,2,3), of "q + 1"] True by auto
    show ?thesis
    proof (cases "\<exists>r. stop = Some r \<and> r < e \<and> buf ! r = quote")
      case False
      then show ?thesis using True q c assms(1)
        by (cases stop) (auto simp: parse_string_def looking_at_in)
    next
      case yes: True
      then have "len' < length out'" using c assms(3) by auto
      then have "NUL \<in> set (out'[len' := NUL])" by (rule set_update_memI)
      then show ?thesis using yes True q c assms(1) \<open>len' < length out'\<close>
        by (auto simp: parse_string_def looking_at_in put_char_in)
    qed
  qed
qed

section \<open>Numbers\<close>

definition decimal_from :: "nat \<Rightarrow> string \<Rightarrow> nat" where
  "decimal_from v ds = foldl (\<lambda>v c. v * 10 + digit_value c) v ds"

lemma decimal_from_simps [simp]:
  "decimal_from v [] = v" "decimal_from v (c # ds) = decimal_from (v * 10 + digit_value c) ds"
  by (simp_all add: decimal_from_def)

lemma decimal_from_zero: "decimal_from 0 ds = decimal ds"
  by (simp add: decimal_from_def decimal_def)

lemma decimal_from_ge: "v \<le> decimal_from v ds"
proof (induction ds arbitrary: v)
  case (Cons c ds)
  show ?case using le_trans [OF _ Cons [of "v * 10 + digit_value c"], of v] by simp
qed simp

lemma int_loop_eq:
  assumes "e \<le> length buf" "v \<le> INT_MAX"
  shows "int_loop buf e v p = (let ds = takeWhile c_isdigit (left buf e p) in
    if decimal_from v ds \<le> INT_MAX then Some (p + length ds, decimal_from v ds) else None)"
  using assms
proof (induction buf e v p rule: int_loop.induct)
  case (1 buf e v p)
  let ?w = "v * 10 + digit_value (buf ! p)"
  show ?case
  proof (cases "p < e \<and> c_isdigit (buf ! p)")
    case False
    then show ?thesis using 1(2,3) by (subst int_loop.simps) (auto simp: char_at_in left_step left_end)
  next
    case True
    then have c: "char_at buf p = Some (buf ! p)" using 1(2) by (simp add: char_at_in)
    have s: "takeWhile c_isdigit (left buf e p) = buf ! p # takeWhile c_isdigit (left buf e (Suc p))"
      using True 1(2) by (simp add: left_step)
    show ?thesis
    proof (cases "INT_MAX < ?w")
      case over: True
      then have "\<not> decimal_from ?w (takeWhile c_isdigit (left buf e (Suc p))) \<le> INT_MAX"
        using decimal_from_ge [of ?w "takeWhile c_isdigit (left buf e (Suc p))"] by linarith
      then show ?thesis using over True c s by (subst int_loop.simps) (simp)
    next
      case False
      have "int_loop buf e ?w (p + 1) = (let ds = takeWhile c_isdigit (left buf e (p + 1)) in
          if decimal_from ?w ds \<le> INT_MAX then Some (p + 1 + length ds, decimal_from ?w ds) else None)"
        by (rule 1(1)) (use True c False 1(2) in auto)
      then show ?thesis using False True c s by (subst int_loop.simps) (simp add: Let_def)
    qed
  qed
qed

definition small_numbers :: "string \<Rightarrow> bool" where
  "small_numbers t \<longleftrightarrow> (\<forall>p < length t. decimal (takeWhile c_isdigit (drop p t)) \<le> INT_MAX)"

lemma left_drop: "left buf e p = drop p (take e buf)"
  by (simp add: left_def drop_take)

lemma small_numbers_at: "small_numbers (take e buf) \<Longrightarrow> decimal (takeWhile c_isdigit (left buf e p)) \<le> INT_MAX"
  by (cases "p < length (take e buf)") (auto simp: small_numbers_def left_drop decimal_def)

lemma parse_int_total:
  assumes "e \<le> length buf" "p \<le> e" "small_numbers (take e buf)"
  shows "\<exists>r i. parse_int buf p e out = Some (r, i) \<and> (\<forall>q. r = Some q \<longrightarrow> p < q \<and> q \<le> e)"
proof -
  obtain q where q: "skip_ws buf p e = Some q" "p \<le> q" "q \<le> e" using skip_ws_left [OF assms(1,2)] by metis
  let ?ds = "takeWhile c_isdigit (left buf e q)"
  have i: "int_loop buf e 0 q = Some (q + length ?ds, decimal ?ds)"
    using int_loop_eq [OF assms(1), of 0 q] small_numbers_at [OF assms(3), of q]
    by (simp add: decimal_from_zero Let_def)
  have l: "q + length ?ds \<le> e" using length_takeWhile_le [of c_isdigit "left buf e q"] left_length [OF assms(1), of q] q(3) by simp
  show ?thesis
  proof (cases "q < e \<and> c_isdigit (buf ! q)")
    case False
    then show ?thesis using q assms(1) by (auto simp: parse_int_def char_at_in)
  next
    case True
    then have "p < q + length ?ds" using left_step [of q e buf] assms(1) q(2) by simp
    then show ?thesis using True q i l assms(1) by (auto simp: parse_int_def char_at_in)
  qed
qed

section \<open>The parser always comes back\<close>

definition moved :: "nat \<Rightarrow> nat \<Rightarrow> (registry_error + nat \<times> transport_assignment) option \<Rightarrow> bool" where
  "moved p e r \<longleftrightarrow> (\<exists>x. r = Some x \<and> (\<forall>q a. x = Inr (q, a) \<longrightarrow> p < q \<and> q \<le> e \<and> assignment_ok a))"

lemma moved_string_field:
  assumes "e \<le> length buf" "p \<le> e" "array_ok out" "\<And>x. array_ok x \<Longrightarrow> assignment_ok (store x)"
  shows "moved p e (string_field (parse_string buf p e out 64) store)"
proof -
  obtain r out' where r: "parse_string buf p e out 64 = Some (r, out')" "length out' = 64"
      "\<forall>q. r = Some q \<longrightarrow> p < q \<and> q \<le> e \<and> NUL \<in> set out'"
    using parse_string_total [OF assms(1), of 64 out p] assms(2,3) by (auto simp: array_ok_def)
  then show ?thesis using assms(4) by (cases r) (auto simp: moved_def string_field_def array_ok_def)
qed

lemma moved_parse_value:
  assumes "e \<le> length buf" "p \<le> e" "small_numbers (take e buf)" "assignment_ok a" "length (stack_discard s) = 512"
    and "NUL \<in> set key"
  shows "moved p e (parse_value buf e s key a p)"
proof -
  have k: "c_string key 0 = Some (text_of key)" using assms(6) by (simp add: c_string_def text_of_def)
  obtain r i where i: "parse_int buf p e (assignment_id a) = Some (r, i)" "\<forall>q. r = Some q \<longrightarrow> p < q \<and> q \<le> e"
    using parse_int_total [OF assms(1-3)] by metis
  obtain r' d where d: "parse_string buf p e (stack_discard s) 512 = Some (r', d)" "\<forall>q. r' = Some q \<longrightarrow> p < q \<and> q \<le> e"
    using parse_string_total [OF assms(1) _ _ assms(2), of 512 "stack_discard s"] assms(5) by fastforce
  have f: "moved p e (string_field (parse_string buf p e (assignment_name a) 64) (\<lambda>x. a\<lparr>assignment_name := x\<rparr>))"
    "moved p e (string_field (parse_string buf p e (assignment_status a) 64) (\<lambda>x. a\<lparr>assignment_status := x\<rparr>))"
    "moved p e (string_field (parse_string buf p e (assignment_owner_repo a) 64) (\<lambda>x. a\<lparr>assignment_owner_repo := x\<rparr>))"
    "moved p e (string_field (parse_string buf p e (assignment_normative_specification a) 64)
      (\<lambda>x. a\<lparr>assignment_normative_specification := x\<rparr>))"
    "moved p e (string_field (parse_string buf p e (assignment_specification_status a) 64)
      (\<lambda>x. a\<lparr>assignment_specification_status := x\<rparr>))"
    using assms(4) by (auto intro!: moved_string_field [OF assms(1,2)] simp: assignment_ok_def)
  have g: "moved p e (do { (q, i) \<leftarrow> parse_int buf p e (assignment_id a);
      case q of None \<Rightarrow> Some (Inl Bad_Value) | Some p \<Rightarrow> Some (Inr (p, a\<lparr>assignment_id := i\<rparr>)) })"
    "moved p e (do { (q, discard) \<leftarrow> parse_string buf p e (stack_discard s) 512;
      case q of None \<Rightarrow> Some (Inl Malformed_Description) | Some p \<Rightarrow> Some (Inr (p, a)) })"
    "moved p e (Some (Inl Unknown_Key))"
    using i d assms(4) by (cases r; cases r'; auto simp: moved_def assignment_ok_def)+
  show ?thesis unfolding parse_value_def k bind.bind_lunit using f g by (simp split: if_split)
qed

lemma skip_comma_total:
  assumes "e \<le> length buf" "p \<le> e"
  shows "\<exists>q. skip_comma buf e p = Some q \<and> p \<le> q \<and> q \<le> e"
proof -
  obtain q where "skip_ws buf p e = Some q" "p \<le> q" "q \<le> e" using skip_ws_left [OF assms] by metis
  then show ?thesis using assms(1) by (auto simp: skip_comma_def looking_at_in)
qed

definition stack_ok :: "stack_arrays \<Rightarrow> bool" where
  "stack_ok s \<longleftrightarrow> length (stack_buf s) = 16384 \<and> length (stack_key s) = 64 \<and> length (stack_discard s) = 512"

text \<open>One turn of the loop over the members ends the parse with a diagnostic, or moves forward.\<close>

lemma parse_object_turn:
  assumes s: "stack_ok s" and e: "e \<le> length buf" "small_numbers (take e buf)"
    and a: "p < e" "buf ! p \<noteq> CHR ''}''" "assignment_ok a"
  shows "(\<exists>err. parse_object buf e s a p = Some (Inl err))
    \<or> (\<exists>q a'. parse_object buf e s a p = parse_object buf e s a' q \<and> p < q \<and> q \<le> e \<and> assignment_ok a')"
proof -
  have inside: "char_at buf p = Some (buf ! p)" using a(1) e(1) by (simp add: char_at_in)
  obtain r key where r: "parse_string buf p e (stack_key s) 64 = Some (r, key)"
      "\<forall>q. r = Some q \<longrightarrow> p < q \<and> q \<le> e \<and> NUL \<in> set key"
    using parse_string_total [OF e(1) _ _ less_imp_le [OF a(1)], of 64 "stack_key s"] s by (auto simp: stack_ok_def)
  show ?thesis
  proof (cases "\<exists>q1 q2. r = Some q1 \<and> skip_ws buf q1 e = Some q2 \<and> q2 < e \<and> buf ! q2 = CHR '':''")
    case False
    have "\<exists>err. parse_object buf e s a p = Some (Inl err)"
    proof (cases r)
      case (Some q1)
      then obtain q2 where "skip_ws buf q1 e = Some q2" using skip_ws_left [OF e(1)] r(2) by metis
      then show ?thesis using a inside r(1) Some e(1) False
        by (subst parse_object.simps) (auto simp: looking_at_in)
    qed (use a inside r(1) in \<open>subst parse_object.simps, simp\<close>)
    then show ?thesis ..
  next
    case True
    then obtain q1 q2 where q: "r = Some q1" "skip_ws buf q1 e = Some q2" "q2 < e" "buf ! q2 = CHR '':''" by blast
    then have q1: "p < q1" "q1 \<le> q2" "NUL \<in> set key" using r(2) skip_ws_eq [OF e(1), of q1] by auto
    obtain v where v: "parse_value buf e s key a (q2 + 1) = Some v"
        "\<forall>q a'. v = Inr (q, a') \<longrightarrow> q2 + 1 < q \<and> q \<le> e \<and> assignment_ok a'"
      using moved_parse_value [OF e(1) _ e(2) a(3) _ q1(3), of "q2 + 1" s] q(3) s
      by (auto simp: moved_def stack_ok_def)
    show ?thesis
    proof (cases v)
      case (Inl err)
      then show ?thesis using a inside r(1) q e(1) v(1)
        by (intro disjI1 exI [of _ err]) (subst parse_object.simps, simp add: looking_at_in)
    next
      case (Inr y)
      then obtain q3 a3 where v3: "v = Inr (q3, a3)" "q2 + 1 < q3" "q3 \<le> e" "assignment_ok a3" using v(2) by (cases y) auto
      obtain q4 where q4: "skip_comma buf e q3 = Some q4" "q3 \<le> q4" "q4 \<le> e" using skip_comma_total [OF e(1) v3(3)] by blast
      have "parse_object buf e s a p = parse_object buf e s a3 q4"
        using a inside r(1) q e(1) v(1) v3(1) q4(1) by (subst parse_object.simps) (simp add: looking_at_in)
      then show ?thesis using q1 v3 q4 by (intro disjI2 exI [of _ q4] exI [of _ a3]) simp
    qed
  qed
qed

lemma parse_object_total:
  assumes s: "stack_ok s" and e: "e \<le> length buf" "small_numbers (take e buf)"
    and "p \<le> e" "assignment_ok a"
  shows "\<exists>x. parse_object buf e s a p = Some x
    \<and> (\<forall>q a'. x = Inr (q, a') \<longrightarrow> p \<le> q \<and> q \<le> e \<and> assignment_ok a')"
  using assms(4,5)
proof (induction "e - p" arbitrary: p a rule: less_induct)
  case less
  show ?case
  proof (cases "p < e \<and> buf ! p \<noteq> CHR ''}''")
    case False
    then show ?thesis using less.prems e(1) by (subst parse_object.simps) (auto simp: char_at_in)
  next
    case True
    from parse_object_turn [OF s e conjunct1 [OF True] conjunct2 [OF True] less.prems(2)] show ?thesis
    proof (elim disjE exE conjE)
      fix q a' assume q: "parse_object buf e s a p = parse_object buf e s a' q" "p < q" "q \<le> e" "assignment_ok a'"
      from less.hyps [OF _ q(3,4)] q True show ?thesis by fastforce
    qed simp
  qed
qed

lemma zero_assignment_ok: "assignment_ok zero_assignment"
  by (simp add: assignment_ok_def zero_assignment_def array_ok_def)

lemma parse_assignments_total:
  assumes s: "stack_ok s" and e: "e \<le> length buf" "small_numbers (take e buf)"
    and "p \<le> e" "list_all assignment_ok as" "length as \<le> 64"
  shows "\<exists>x. parse_assignments buf e s as p = Some x
    \<and> (\<forall>bs. x = Inr bs \<longrightarrow> list_all assignment_ok bs \<and> length bs \<le> 64)"
  using assms(4-6)
proof (induction "e - p" arbitrary: p as rule: less_induct)
  case less
  obtain q1 where q1: "skip_ws buf p e = Some q1" "p \<le> q1" "q1 \<le> e" using skip_ws_left [OF e(1) less.prems(1)] by metis
  show ?case
  proof (cases "p < e \<and> q1 < e \<and> buf ! q1 = CHR ''{''")
    case False
    then show ?thesis using less.prems q1 e(1) by (subst parse_assignments.simps) (auto simp: char_at_in)
  next
    case True
    then have c: "char_at buf q1 = Some CHR ''{''" "q1 + 1 \<le> e" using e(1) by (simp_all add: char_at_in)
    obtain x where x: "parse_object buf e s zero_assignment (q1 + 1) = Some x"
        "\<forall>q a'. x = Inr (q, a') \<longrightarrow> q1 + 1 \<le> q \<and> q \<le> e \<and> assignment_ok a'"
      using parse_object_total [OF s e c(2) zero_assignment_ok] by blast
    show ?thesis
    proof (cases "\<exists>q a. x = Inr (q, a) \<and> q < e \<and> buf ! q = CHR ''}'' \<and> length as < 64")
      case False
      then show ?thesis using True c q1(1) x e(1)
        by (cases x) (subst parse_assignments.simps; fastforce simp: looking_at_in)+
    next
      case more: True
      then obtain q a where q: "x = Inr (q, a)" "q < e" "buf ! q = CHR ''}''" "length as < 64" by blast
      obtain q4 where q4: "skip_comma buf e (q + 1) = Some q4" "q + 1 \<le> q4" "q4 \<le> e"
        using skip_comma_total [OF e(1), of "q + 1"] q(2) by auto
      have "parse_assignments buf e s as p = parse_assignments buf e s (as @ [a]) q4"
        using True c q1(1) x(1) q q4(1) e(1) by (subst parse_assignments.simps) (simp add: looking_at_in)
      moreover have "e - q4 < e - p" using True q1 x(2) q q4 by fastforce
      moreover have "list_all assignment_ok (as @ [a])" "length (as @ [a]) \<le> 64" using less.prems x(2) q by auto
      ultimately show ?thesis using less.hyps [of q4 "as @ [a]"] q4(3) by simp
    qed
  qed
qed

lemma c_string_before:
  assumes "p \<le> e" "e < length buf" "buf ! e = NUL"
  shows "\<exists>t. c_string buf p = Some t \<and> p + length t \<le> e"
proof -
  have n: "drop p buf ! (e - p) = NUL" "e - p < length (drop p buf)" using assms by simp_all
  then have "NUL \<in> set (drop p buf)" by (metis nth_mem)
  then obtain t where t: "c_string buf p = Some t" by (simp add: c_string_def)
  note c = c_string_pos [OF t]
  have "length t \<le> e - p"
  proof (rule ccontr)
    assume "\<not> length t \<le> e - p"
    then have "t ! (e - p) = NUL" using n(1) c(3) by (metis nth_take not_le)
    then show False using c(2) \<open>\<not> length t \<le> e - p\<close> by (metis nth_mem not_le)
  qed
  then show ?thesis using t assms(1) by auto
qed

lemma c_strstr_before:
  assumes "p \<le> e" "e < length buf" "buf ! e = NUL"
  shows "\<exists>r. c_strstr buf p pat = Some r \<and> (\<forall>q. r = Some q \<longrightarrow> p \<le> q \<and> q + length pat \<le> e)"
proof -
  obtain t where t: "c_string buf p = Some t" "p + length t \<le> e" using c_string_before [OF assms] by blast
  have "i + length pat \<le> length t" if "first_match pat t = Some i" for i
    using first_match_prefix [OF that] by (auto dest: prefix_length_le)
  then show ?thesis using t by (fastforce simp: c_strstr_def)
qed

lemma read_file_facts:
  assumes "stack_ok s" "read_file s contents = (buf, e)"
  shows "e = min (length contents) 16383" "take e buf = take 16383 contents" "e < length buf" "buf ! e = NUL"
  using assms by (auto simp: read_file_def stack_ok_def Let_def nth_append min_def)

lemma valid_registry_length: "valid_registry rows \<Longrightarrow> 4 \<le> length rows"
proof -
  assume "valid_registry rows"
  then have "set standard_bindings \<subseteq> set (map binding_of rows)" by (simp add: valid_registry_def)
  then have "card (set standard_bindings) \<le> card (set (map binding_of rows))" by (rule card_mono [OF finite_set])
  also have "\<dots> \<le> length (map binding_of rows)" by (rule card_length)
  finally show ?thesis by (simp add: standard_bindings_def)
qed

lemma check_registry_total:
  assumes s: "stack_ok s" and e: "e < length buf" "buf ! e = NUL" "small_numbers (take e buf)"
  shows "\<exists>r. check_registry s buf e = Some r \<and> (\<forall>n. r = Inr n \<longrightarrow> 4 \<le> n \<and> n \<le> 64)"
proof -
  have e': "e \<le> length buf" using e(1) by simp
  obtain w where w: "c_strstr buf 0 field_width_key = Some w" "\<forall>q. w = Some q \<longrightarrow> q + length field_width_key \<le> e"
    using c_strstr_before [OF _ e(1,2), of 0 field_width_key] by blast
  obtain t where t: "c_strstr buf 0 assignments_key = Some t" "\<forall>q. t = Some q \<longrightarrow> q \<le> e"
    using c_strstr_before [OF _ e(1,2), of 0 assignments_key] add_leD1 by blast
  show ?thesis
  proof (cases w; cases t)
    fix p q assume wt: "w = Some p" "t = Some q"
    obtain r bits where r: "parse_int buf (p + length field_width_key) e 0 = Some (r, bits)"
      using parse_int_total [OF e' _ e(3)] w wt by blast
    obtain b where b: "c_strstr buf q ''['' = Some b" "\<forall>k. b = Some k \<longrightarrow> k + 1 \<le> e"
      using c_strstr_before [OF _ e(1,2), of q "''[''"] t wt by auto
    show ?thesis
    proof (cases b)
      case None
      then show ?thesis using w t wt r b by (simp add: check_registry_def)
    next
      case (Some k)
      obtain x where x: "parse_assignments buf e s [] (k + 1) = Some x"
          "\<forall>as. x = Inr as \<longrightarrow> list_all assignment_ok as \<and> length as \<le> 64"
        using parse_assignments_total [OF s e' e(3), of "k + 1" "[]"] b Some by auto
      show ?thesis
      proof (cases x)
        case (Inl err)
        then show ?thesis using w t wt r b Some x by (simp add: check_registry_def)
      next
        case (Inr as)
        then obtain v where v: "validate_assignments as = Some v" "\<forall>n. v = Inr n \<longrightarrow> 4 \<le> n \<and> n \<le> 64"
          using validate_assignments_iff [of as] x(2) valid_registry_length [of "map row_of as"] by auto
        then show ?thesis using w t wt r b Some x Inr by (simp add: check_registry_def)
      qed
    qed
  next
    fix p assume wt: "w = Some p" "t = None"
    then obtain r bits where r: "parse_int buf (p + length field_width_key) e 0 = Some (r, bits)"
      using parse_int_total [OF e' _ e(3)] w by blast
    then show ?thesis using w t wt by (simp add: check_registry_def)
  qed (use w in \<open>simp_all add: check_registry_def\<close>)
qed

section \<open>Texts that the tool reads\<close>

text \<open>
  A registry file: a quoted key and a value per member, blanks wherever the tool skips them, in each place
  other ones, and anything around the two places that the tool looks for.
\<close>

datatype member =
    Id_Member string
  | Name_Member string
  | Status_Member string
  | Owner_Member string
  | Spec_Member string
  | Spec_Status_Member string
  | Description_Member string string

fun member_key :: "member \<Rightarrow> string" where
  "member_key (Id_Member _) = ''id''"
| "member_key (Name_Member _) = ''name''"
| "member_key (Status_Member _) = ''status''"
| "member_key (Owner_Member _) = ''owner_repo''"
| "member_key (Spec_Member _) = ''normative_specification''"
| "member_key (Spec_Status_Member _) = ''specification_status''"
| "member_key (Description_Member key _) = key"

definition quoted :: "string \<Rightarrow> string" where
  "quoted t = quote # t @ [quote]"

fun member_value :: "member \<Rightarrow> string" where
  "member_value (Id_Member ds) = ds"
| "member_value (Name_Member t) = quoted t"
| "member_value (Status_Member t) = quoted t"
| "member_value (Owner_Member t) = quoted t"
| "member_value (Spec_Member t) = quoted t"
| "member_value (Spec_Status_Member t) = quoted t"
| "member_value (Description_Member _ t) = quoted t"

fun set_member :: "member \<Rightarrow> registry_row \<Rightarrow> registry_row" where
  "set_member (Id_Member ds) r = r\<lparr>row_id := int (decimal ds)\<rparr>"
| "set_member (Name_Member t) r = r\<lparr>row_name := t\<rparr>"
| "set_member (Status_Member t) r = r\<lparr>row_status := t\<rparr>"
| "set_member (Owner_Member t) r = r\<lparr>row_owner := t\<rparr>"
| "set_member (Spec_Member t) r = r\<lparr>row_spec := t\<rparr>"
| "set_member (Spec_Status_Member t) r = r\<lparr>row_spec_status := t\<rparr>"
| "set_member (Description_Member _ _) r = r"

definition plain :: "string \<Rightarrow> nat \<Rightarrow> bool" where
  "plain t n \<longleftrightarrow> length t < n \<and> NUL \<notin> set t \<and> quote \<notin> set t \<and> backslash \<notin> set t"

fun member_ok :: "member \<Rightarrow> bool" where
  "member_ok (Id_Member ds) \<longleftrightarrow> ds \<noteq> [] \<and> list_all c_isdigit ds \<and> decimal ds \<le> INT_MAX"
| "member_ok (Name_Member t) \<longleftrightarrow> plain t 64"
| "member_ok (Status_Member t) \<longleftrightarrow> plain t 64"
| "member_ok (Owner_Member t) \<longleftrightarrow> plain t 64"
| "member_ok (Spec_Member t) \<longleftrightarrow> plain t 64"
| "member_ok (Spec_Status_Member t) \<longleftrightarrow> plain t 64"
| "member_ok (Description_Member key t) \<longleftrightarrow>
    (key = ''family'' \<or> key = ''detail'' \<or> key = ''specification_note'') \<and> plain t 512"

text \<open>The four gaps of a member, and the two of an object.\<close>

record laid_member =
  before_key :: string
  after_key :: string
  before_value :: string
  after_value :: string
  laid_value :: member

record laid_object =
  before_object :: string
  object_members :: "laid_member list"
  after_object :: string

abbreviation blank :: "string \<Rightarrow> bool" where
  "blank w \<equiv> list_all c_isspace w"

definition laid_ok :: "laid_member \<Rightarrow> bool" where
  "laid_ok m \<longleftrightarrow> blank (before_key m) \<and> blank (after_key m) \<and> blank (before_value m) \<and> blank (after_value m)
     \<and> member_ok (laid_value m)"

definition object_ok :: "laid_object \<Rightarrow> bool" where
  "object_ok x \<longleftrightarrow> blank (before_object x) \<and> blank (after_object x) \<and> list_all laid_ok (object_members x)"

definition member_text :: "laid_member \<Rightarrow> string" where
  "member_text m = before_key m @ quoted (member_key (laid_value m)) @ after_key m
     @ CHR '':'' # before_value m @ member_value (laid_value m) @ after_value m"

fun members_text :: "laid_member list \<Rightarrow> string" where
  "members_text [] = []"
| "members_text [m] = member_text m"
| "members_text (m # ms) = member_text m @ CHR '','' # members_text ms"

definition object_text :: "laid_object \<Rightarrow> string" where
  "object_text x = before_object x @ CHR ''{'' # members_text (object_members x) @ CHR ''}'' # after_object x"

fun objects_text :: "laid_object list \<Rightarrow> string" where
  "objects_text [] = []"
| "objects_text [x] = object_text x"
| "objects_text (x # xs) = object_text x @ CHR '','' # objects_text xs"

definition blank_row :: registry_row where
  "blank_row = \<lparr>row_id = 0, row_name = [], row_status = [], row_owner = [], row_spec = [], row_spec_status = []\<rparr>"

definition object_row :: "laid_object \<Rightarrow> registry_row" where
  "object_row x = fold set_member (map laid_value (object_members x)) blank_row"

section \<open>How the tool reads them\<close>

lemma dropWhile_spaces: "list_all P w \<Longrightarrow> t = [] \<or> \<not> P (hd t) \<Longrightarrow> dropWhile P (w @ t) = t"
  by (induction w) (auto simp: dropWhile_eq_self_iff)

lemma skip_ws_spaces:
  assumes "e \<le> length buf" "p \<le> e" "left buf e p = w @ t" "list_all c_isspace w" "t = [] \<or> \<not> c_isspace (hd t)"
  shows "\<exists>q. skip_ws buf p e = Some q \<and> p \<le> q \<and> q \<le> e \<and> left buf e q = t"
  using skip_ws_left [OF assms(1,2)] dropWhile_spaces [OF assms(4,5)] assms(3) by metis

lemma copy_string_plain:
  assumes "e \<le> length buf" "left buf e p = v @ quote # t" "quote \<notin> set v" "backslash \<notin> set v"
    and "len + length v < out_size" "out_size \<le> length out"
  shows "copy_string buf e out_size out len p
    = Some (Some (p + length v), take len out @ v @ drop (len + length v) out, len + length v)"
  using assms
proof (induction v arbitrary: p len out)
  case Nil
  from left_Cons [OF Nil(2) [unfolded append_Nil] Nil(1)] show ?case by (subst copy_string.simps) simp
next
  case (Cons c v)
  from left_Cons [OF Cons.prems(2) [unfolded append_Cons] Cons.prems(1)]
  have c: "p < e" "char_at buf p = Some c" "left buf e (p + 1) = v @ quote # t" by simp_all
  have l: "len < length out" using Cons.prems by simp
  have "take (Suc len) (out[len := c]) = take len out @ [c]" using l by (simp add: take_Suc_conv_app_nth)
  moreover have "copy_string buf e out_size (out[len := c]) (len + 1) (p + 1) = Some (Some (p + 1 + length v),
      take (len + 1) (out[len := c]) @ v @ drop (len + 1 + length v) (out[len := c]), len + 1 + length v)"
    by (rule Cons.IH) (use Cons.prems c in auto)
  moreover have "c \<noteq> quote" "c \<noteq> backslash" using Cons.prems(3,4) by auto
  ultimately show ?case using c(1,2) Cons.prems(5) l by (subst copy_string.simps) (simp add: put_char_in)
qed

lemma parse_string_quoted:
  assumes "e \<le> length buf" "p \<le> e" "left buf e p = w @ quoted v @ t" "list_all c_isspace w"
    and "plain v out_size" "out_size \<le> length out"
  shows "\<exists>q. parse_string buf p e out out_size = Some (Some q, v @ NUL # drop (Suc (length v)) out)
    \<and> p < q \<and> q \<le> e \<and> left buf e q = t"
proof -
  have "left buf e p = w @ quote # v @ quote # t" using assms(3) by (simp add: quoted_def)
  then obtain q where q: "skip_ws buf p e = Some q" "p \<le> q" "q \<le> e" "left buf e q = quote # v @ quote # t"
    using skip_ws_spaces [OF assms(1,2) _ assms(4), of "quote # v @ quote # t"] by (auto simp: c_isspace_def)
  note a = left_Cons [OF q(4) assms(1)]
  have l: "looking_at buf e q quote = Some True" using looking_at_eq [OF assms(1)] q(4) by simp
  have b: "left buf e (q + 1 + length v) = quote # t" using left_append [of buf e "q + 1" v] a(3) assms(1) by simp
  have l': "looking_at buf e (q + 1 + length v) quote = Some True" using looking_at_eq [OF assms(1)] b by simp
  have c: "copy_string buf e out_size out 0 (q + 1) = Some (Some (q + 1 + length v), v @ drop (length v) out, length v)"
    using copy_string_plain [OF assms(1), of "q + 1" v t 0 out_size out] a(3) assms(5,6) by (simp add: plain_def)
  have n: "length v < length out" using assms(5,6) by (simp add: plain_def)
  then have "put_char (v @ drop (length v) out) (length v) NUL = Some ((v @ drop (length v) out)[length v := NUL])"
    by (simp add: put_char_in)
  then have "put_char (v @ drop (length v) out) (length v) NUL = Some (v @ NUL # drop (Suc (length v)) out)"
    by (simp add: Cons_nth_drop_Suc [OF n, symmetric])
  then have "parse_string buf p e out out_size = Some (Some (q + 1 + length v + 1), v @ NUL # drop (Suc (length v)) out)"
    using q(1) l l' c by (simp add: parse_string_def)
  moreover note left_Cons [OF b assms(1)]
  ultimately show ?thesis using q(2) by auto
qed

lemma parse_int_digits:
  assumes "e \<le> length buf" "p \<le> e" "left buf e p = w @ ds @ t" "list_all c_isspace w"
    and "ds \<noteq> []" "list_all c_isdigit ds" "t = [] \<or> \<not> c_isdigit (hd t)"
  shows "if decimal ds \<le> INT_MAX
    then \<exists>q. parse_int buf p e out = Some (Some q, int (decimal ds)) \<and> p < q \<and> q \<le> e \<and> left buf e q = t
    else parse_int buf p e out = None"
proof -
  have ns: "\<not> c_isspace c" if "c_isdigit c" for c
    using that by (auto simp: c_isdigit_def c_isspace_def)
  obtain q where q: "skip_ws buf p e = Some q" "p \<le> q" "q \<le> e" "left buf e q = ds @ t"
    using skip_ws_spaces [OF assms(1-4)] assms(5,6) ns by (cases ds) auto
  have tw: "takeWhile c_isdigit (left buf e q) = ds"
    unfolding q(4) using assms(6,7) by (induction ds) (auto simp: takeWhile_eq_Nil_iff)
  have i: "int_loop buf e 0 q = (if decimal ds \<le> INT_MAX then Some (q + length ds, decimal ds) else None)"
    using int_loop_eq [OF assms(1), of 0 q] unfolding tw by (simp add: decimal_from_zero)
  obtain d ds' where d: "ds = d # ds'" "c_isdigit d" using assms(5,6) by (cases ds) auto
  then have "q < e" "char_at buf q = Some d" using left_Cons [of buf e q d "ds' @ t"] q(4) assms(1) by simp_all
  moreover have "q + length ds \<le> e" using arg_cong [OF q(4), of length] left_length [OF assms(1), of q] q(3) by simp
  moreover have "left buf e (q + length ds) = t" by (rule left_append [OF q(4) assms(1)])
  moreover have "p < q + length ds" using q(2) d(1) by simp
  ultimately show ?thesis using q(1) i d(2) by (auto simp: parse_int_def)
qed

lemma array_text:
  assumes "plain v 64" "array_ok out"
  shows "array_ok (v @ NUL # drop (Suc (length v)) out)" "text_of (v @ NUL # drop (Suc (length v)) out) = v"
  using assms by (auto simp: array_ok_def text_of_def plain_def takeWhile_NUL)

lemma string_field_member:
  assumes "e \<le> length buf" "p \<le> e" "left buf e p = w @ quoted v @ t" "list_all c_isspace w" "plain v 64" "array_ok out"
  shows "\<exists>q x. string_field (parse_string buf p e out 64) store = Some (Inr (q, store x)) \<and> p < q \<and> q \<le> e
    \<and> left buf e q = t \<and> array_ok x \<and> text_of x = v"
proof -
  have "64 \<le> length out" using assms(6) by (simp add: array_ok_def)
  then obtain q where "parse_string buf p e out 64 = Some (Some q, v @ NUL # drop (Suc (length v)) out)"
      "p < q" "q \<le> e" "left buf e q = t"
    using parse_string_quoted [OF assms(1-5)] by blast
  with array_text [OF assms(5,6)] show ?thesis
    by (intro exI [of _ q] exI [of _ "v @ NUL # drop (Suc (length v)) out"]) (simp add: string_field_def)
qed

text \<open>One member: the value is stored in the field that the key names.\<close>

lemma parse_value_member:
  assumes "e \<le> length buf" "p \<le> e" "left buf e p = w @ member_value m @ t" "list_all c_isspace w"
    and "member_ok m" "assignment_ok a" "stack_ok s" "c_string key 0 = Some (member_key m)"
    and "t = [] \<or> \<not> c_isdigit (hd t)"
  shows "\<exists>q a'. parse_value buf e s key a p = Some (Inr (q, a')) \<and> p < q \<and> q \<le> e \<and> left buf e q = t
    \<and> assignment_ok a' \<and> row_of a' = set_member m (row_of a)"
proof (cases m)
  case (Id_Member ds)
  then show ?thesis
    using parse_int_digits [OF assms(1,2), of w ds t "assignment_id a"] assms(3-9)
    by (auto simp: parse_value_def row_of_def assignment_ok_def)
next
  case (Description_Member k v)
  then obtain q where "parse_string buf p e (stack_discard s) 512 = Some (Some q, v @ NUL # drop (Suc (length v)) (stack_discard s))"
    "p < q" "q \<le> e" "left buf e q = t"
    using parse_string_quoted [OF assms(1,2), of w v t 512 "stack_discard s"] assms(3-8) by (auto simp: stack_ok_def)
  then show ?thesis using Description_Member assms(5,6,8) by (auto simp: parse_value_def)
next
  case (Name_Member v)
  then show ?thesis using string_field_member [OF assms(1,2), of w v t "assignment_name a"] assms(3-8)
    by (fastforce simp: parse_value_def row_of_def assignment_ok_def)
next
  case (Status_Member v)
  then show ?thesis using string_field_member [OF assms(1,2), of w v t "assignment_status a"] assms(3-8)
    by (fastforce simp: parse_value_def row_of_def assignment_ok_def)
next
  case (Owner_Member v)
  then show ?thesis using string_field_member [OF assms(1,2), of w v t "assignment_owner_repo a"] assms(3-8)
    by (fastforce simp: parse_value_def row_of_def assignment_ok_def)
next
  case (Spec_Member v)
  then show ?thesis using string_field_member [OF assms(1,2), of w v t "assignment_normative_specification a"] assms(3-8)
    by (fastforce simp: parse_value_def row_of_def assignment_ok_def)
next
  case (Spec_Status_Member v)
  then show ?thesis using string_field_member [OF assms(1,2), of w v t "assignment_specification_status a"] assms(3-8)
    by (fastforce simp: parse_value_def row_of_def assignment_ok_def)
qed

lemma skip_comma_text:
  assumes "e \<le> length buf" "p \<le> e" "left buf e p = w @ t" "list_all c_isspace w" "t = [] \<or> \<not> c_isspace (hd t)"
  shows "\<exists>q. skip_comma buf e p = Some q \<and> p \<le> q \<and> q \<le> e
    \<and> left buf e q = (if t \<noteq> [] \<and> hd t = CHR '','' then tl t else t)"
proof -
  obtain q where q: "skip_ws buf p e = Some q" "p \<le> q" "q \<le> e" "left buf e q = t"
    using skip_ws_spaces [OF assms] by blast
  show ?thesis
  proof (cases t)
    case (Cons c t')
    with left_Cons [of buf e q c t'] q assms(1) show ?thesis
      by (auto simp: skip_comma_def looking_at_eq)
  qed (use q assms(1) in \<open>auto simp: skip_comma_def looking_at_eq\<close>)
qed

lemma member_key_plain: "member_ok m \<Longrightarrow> plain (member_key m) 64"
  by (cases m) (auto simp: plain_def)

text \<open>One turn of the loop over the members, up to the character behind the member.\<close>

lemma parse_object_step:
  assumes "e \<le> length buf" "p \<le> e" "left buf e p = member_text m @ c # t" "laid_ok m"
    and "c = CHR '','' \<or> c = CHR ''}''" "assignment_ok a" "stack_ok s"
  shows "\<exists>q a'. parse_object buf e s a p = parse_object buf e s a' q \<and> q \<le> e
    \<and> left buf e q = (if c = CHR '','' then t else c # t)
    \<and> assignment_ok a' \<and> row_of a' = set_member (laid_value m) (row_of a)"
proof -
  let ?k = "member_key (laid_value m)" and ?u = "after_value m @ c # t"
  let ?v = "before_value m @ member_value (laid_value m) @ ?u"
  have w: "blank (before_key m)" "blank (after_key m)" "blank (before_value m)" "blank (after_value m)" "member_ok (laid_value m)"
    using assms(4) by (simp_all add: laid_ok_def)
  have sc: "\<not> c_isspace c" "\<not> c_isdigit c" using assms(5) by (auto simp: c_isspace_def c_isdigit_def)
  have l: "left buf e p = before_key m @ quoted ?k @ after_key m @ CHR '':'' # ?v"
    using assms(3) by (simp add: member_text_def)
  have "\<exists>d r. left buf e p = d # r \<and> d \<noteq> CHR ''}''"
    using l w(1) by (cases "before_key m") (auto simp: quoted_def c_isspace_def)
  then obtain d where d: "p < e" "char_at buf p = Some d" "d \<noteq> CHR ''}''" using left_Cons assms(1) by blast
  have "64 \<le> length (stack_key s)" using assms(7) by (simp add: stack_ok_def)
  from parse_string_quoted [OF assms(1,2) l w(1) member_key_plain [OF w(5)] this]
  obtain q1 where q1: "parse_string buf p e (stack_key s) 64
      = Some (Some q1, ?k @ NUL # drop (Suc (length ?k)) (stack_key s))"
    "p < q1" "q1 \<le> e" "left buf e q1 = after_key m @ CHR '':'' # ?v" by blast
  have k: "c_string (?k @ NUL # drop (Suc (length ?k)) (stack_key s)) 0 = Some ?k"
    using member_key_plain [OF w(5)] by (simp add: c_string_split plain_def)
  obtain q2 where q2: "skip_ws buf q1 e = Some q2" "q1 \<le> q2" "q2 \<le> e" "left buf e q2 = CHR '':'' # ?v"
    using skip_ws_spaces [OF assms(1) q1(3,4) w(2)] by (auto simp: c_isspace_def)
  note a2 = left_Cons [OF q2(4) assms(1)]
  have a2': "q2 + 1 \<le> e" "left buf e (q2 + 1) = ?v" using a2 by simp_all
  have nd: "?u = [] \<or> \<not> c_isdigit (hd ?u)"
    using sc w(4) by (cases "after_value m") (auto simp: c_isspace_def c_isdigit_def)
  obtain q3 a3 where q3: "parse_value buf e s (?k @ NUL # drop (Suc (length ?k)) (stack_key s)) a (q2 + 1)
      = Some (Inr (q3, a3))" "q2 + 1 < q3" "q3 \<le> e" "left buf e q3 = ?u" "assignment_ok a3"
      "row_of a3 = set_member (laid_value m) (row_of a)"
    using parse_value_member [OF assms(1) a2' w(3,5) assms(6,7) k nd] by blast
  obtain q4 where q4: "skip_comma buf e q3 = Some q4" "q4 \<le> e" "left buf e q4 = (if c = CHR '','' then t else c # t)"
    using skip_comma_text [OF assms(1) q3(3,4) w(4)] sc by auto
  have "parse_object buf e s a p = parse_object buf e s a3 q4"
    using d q1(1) q2(1) q3(1) q4(1) looking_at_eq [OF assms(1), of q2] q2(4)
    by (subst parse_object.simps) simp
  then show ?thesis using q3 q4 by blast
qed

lemma parse_object_end:
  "e \<le> length buf \<Longrightarrow> left buf e p = CHR ''}'' # t \<Longrightarrow> parse_object buf e s a p = Some (Inr (p, a))"
  using left_Cons [of buf e p "CHR ''}''" t] by (subst parse_object.simps) simp

lemma parse_object_members:
  assumes "e \<le> length buf" "p \<le> e" "left buf e p = members_text ms @ CHR ''}'' # t"
    and "list_all laid_ok ms" "assignment_ok a" "stack_ok s"
  shows "\<exists>q a'. parse_object buf e s a p = Some (Inr (q, a')) \<and> q \<le> e \<and> left buf e q = CHR ''}'' # t
    \<and> assignment_ok a' \<and> row_of a' = fold set_member (map laid_value ms) (row_of a)"
  using assms(2-5)
proof (induction ms arbitrary: p a rule: members_text.induct)
  case 1
  then show ?case using parse_object_end [OF assms(1)] by auto
next
  case (2 m)
  then obtain q a' where "parse_object buf e s a p = parse_object buf e s a' q" "q \<le> e"
      "left buf e q = CHR ''}'' # t" "assignment_ok a'" "row_of a' = set_member (laid_value m) (row_of a)"
    using parse_object_step [OF assms(1), of p m "CHR ''}''" t a s] assms(6) by auto
  then show ?case using parse_object_end [OF assms(1)] by auto
next
  case (3 m m' ms)
  obtain q a' where q: "parse_object buf e s a p = parse_object buf e s a' q" "q \<le> e"
      "left buf e q = members_text (m' # ms) @ CHR ''}'' # t" "assignment_ok a'" "row_of a' = set_member (laid_value m) (row_of a)"
    using parse_object_step [OF assms(1), of p m "CHR '',''" "members_text (m' # ms) @ CHR ''}'' # t" a s] 3(2-5) assms(6) by auto
  have "list_all laid_ok (m' # ms)" using 3(4) by simp
  from 3(1) [OF q(2,3) this q(4)] q(1,5) show ?case by auto
qed

text \<open>The array: its entries are the rows of the objects, in order. The closing bracket is not required.\<close>

definition closes_array :: "string \<Rightarrow> bool" where
  "closes_array tail \<longleftrightarrow> (case dropWhile c_isspace tail of [] \<Rightarrow> True | c # _ \<Rightarrow> c = CHR '']'')"

lemma parse_assignments_end:
  assumes "e \<le> length buf" "p \<le> e" "closes_array (left buf e p)"
  shows "parse_assignments buf e s as p = Some (Inr as)"
proof (cases "p < e")
  case True
  obtain q where q: "skip_ws buf p e = Some q" "q \<le> e" "left buf e q = dropWhile c_isspace (left buf e p)"
    using skip_ws_left [OF assms(1,2)] by blast
  have "case left buf e q of [] \<Rightarrow> True | c # _ \<Rightarrow> c = CHR '']''" unfolding q(3) using assms(3) by (simp only: closes_array_def)
  then have "q < e \<Longrightarrow> char_at buf q = Some CHR '']''"
    using left_nil [OF assms(1), of q] left_Cons [OF _ assms(1), of q "CHR '']''" "tl (left buf e q)"]
    by (cases "left buf e q") auto
  then show ?thesis using True q by (subst parse_assignments.simps) auto
qed (subst parse_assignments.simps, simp)

lemma comma_dropped: "(if t \<noteq> [] \<and> hd t = CHR '','' then tl t else t) = (case t of [] \<Rightarrow> [] | c # u \<Rightarrow> if c = CHR '','' then u else c # u)"
  by (cases t) simp_all

lemma parse_assignments_step:
  assumes "e \<le> length buf" "p \<le> e" "left buf e p = object_text x @ t" "object_ok x" "stack_ok s" "length as < 64"
  shows "\<exists>q a. parse_assignments buf e s as p = parse_assignments buf e s (as @ [a]) q \<and> q \<le> e
    \<and> left buf e q = (case dropWhile c_isspace t of [] \<Rightarrow> [] | c # u \<Rightarrow> if c = CHR '','' then u else c # u)
    \<and> assignment_ok a \<and> row_of a = object_row x"
proof -
  let ?ms = "object_members x" and ?u = "after_object x @ takeWhile c_isspace t" and ?t = "dropWhile c_isspace t"
  have x: "blank (before_object x)" "blank (after_object x)" "list_all laid_ok ?ms" using assms(4) by (simp_all add: object_ok_def)
  have l: "left buf e p = before_object x @ CHR ''{'' # members_text ?ms @ CHR ''}'' # ?u @ ?t"
    using assms(3) by (simp add: object_text_def)
  have u: "blank ?u" "?t = [] \<or> \<not> c_isspace (hd ?t)"
    using x(2) hd_dropWhile [of c_isspace t] by (auto simp: list_all_iff dest: set_takeWhileD)
  have p: "p < e" using l left_nil [OF assms(1), of p] by (cases "p < e") auto
  obtain q1 where q1: "skip_ws buf p e = Some q1" "q1 \<le> e" "left buf e q1 = CHR ''{'' # members_text ?ms @ CHR ''}'' # ?u @ ?t"
    using skip_ws_spaces [OF assms(1,2) l x(1)] by (auto simp: c_isspace_def)
  note a1 = left_Cons [OF q1(3) assms(1)]
  have a1': "q1 + 1 \<le> e" "left buf e (q1 + 1) = members_text ?ms @ CHR ''}'' # ?u @ ?t" using a1 by simp_all
  have z: "row_of zero_assignment = blank_row"
    by (simp add: row_of_def zero_assignment_def blank_row_def text_of_def)
  obtain q2 a where q2: "parse_object buf e s zero_assignment (q1 + 1) = Some (Inr (q2, a))" "q2 \<le> e"
      "left buf e q2 = CHR ''}'' # ?u @ ?t" "assignment_ok a" "row_of a = object_row x"
    using parse_object_members [OF assms(1) a1' x(3) zero_assignment_ok assms(5)] by (auto simp: z object_row_def)
  note a2 = left_Cons [OF q2(3) assms(1)]
  have a2': "q2 + 1 \<le> e" "left buf e (q2 + 1) = ?u @ ?t" using a2 by simp_all
  obtain q3 where q3: "skip_comma buf e (q2 + 1) = Some q3" "q3 \<le> e"
      "left buf e q3 = (if ?t \<noteq> [] \<and> hd ?t = CHR '','' then tl ?t else ?t)"
    using skip_comma_text [OF assms(1) a2' u] by blast
  have "parse_assignments buf e s as p = parse_assignments buf e s (as @ [a]) q3"
    using p q1(1) a1(1,2) q2(1) q3(1) assms(6) looking_at_eq [OF assms(1), of q2] q2(3)
    by (subst parse_assignments.simps) simp
  moreover have "left buf e q3 = (case ?t of [] \<Rightarrow> [] | c # u \<Rightarrow> if c = CHR '','' then u else c # u)"
    unfolding q3(3) by (rule comma_dropped)
  ultimately show ?thesis using q2 q3(2) by blast
qed

lemma parse_assignments_objects:
  assumes "e \<le> length buf" "p \<le> e" "left buf e p = objects_text xs @ tail"
    and "list_all object_ok xs" "stack_ok s" "closes_array tail" "length as + length xs \<le> 64"
  shows "\<exists>bs. parse_assignments buf e s as p = Some (Inr (as @ bs)) \<and> list_all assignment_ok bs
    \<and> map row_of bs = map object_row xs"
  using assms(2-4,7)
proof (induction xs arbitrary: p as rule: objects_text.induct)
  case 1
  then show ?case using parse_assignments_end [OF assms(1), of p] assms(6) by auto
next
  case (2 x)
  obtain q a where q: "parse_assignments buf e s as p = parse_assignments buf e s (as @ [a]) q" "q \<le> e"
      "left buf e q = (case dropWhile c_isspace tail of [] \<Rightarrow> [] | c # u \<Rightarrow> if c = CHR '','' then u else c # u)"
      "assignment_ok a" "row_of a = object_row x"
    using parse_assignments_step [OF assms(1) 2(1), of x tail s as] 2 assms(5) by auto
  have "left buf e q = dropWhile c_isspace tail"
    unfolding q(3) using assms(6) unfolding closes_array_def by (cases "dropWhile c_isspace tail") (simp_all only: list.case, simp)
  then have "closes_array (left buf e q)" using assms(6) by (simp add: closes_array_def)
  from parse_assignments_end [OF assms(1) q(2) this] q show ?case by auto
next
  case (3 x x' xs)
  obtain q a where q: "parse_assignments buf e s as p = parse_assignments buf e s (as @ [a]) q" "q \<le> e"
      "left buf e q = objects_text (x' # xs) @ tail" "assignment_ok a" "row_of a = object_row x"
    using parse_assignments_step [OF assms(1) 3(2), of x "CHR '','' # objects_text (x' # xs) @ tail" s as]
      3(3-5) assms(5) by (auto simp: c_isspace_def)
  have "list_all object_ok (x' # xs)" "length (as @ [a]) + length (x' # xs) \<le> 64" using 3(4,5) by simp_all
  from 3(1) [OF q(2,3) this] q obtain bs where
    "parse_assignments buf e s (as @ [a]) q = Some (Inr ((as @ [a]) @ bs))" "list_all assignment_ok bs"
    "map row_of bs = map object_row (x' # xs)" by blast
  with q show ?case by (intro exI [of _ "a # bs"]) simp
qed

definition registry_text :: "string \<Rightarrow> string \<Rightarrow> string \<Rightarrow> string \<Rightarrow> string \<Rightarrow> laid_object list \<Rightarrow> string \<Rightarrow> string" where
  "registry_text head w bits mid v xs tail = head @ field_width_key @ w @ bits @ mid @ assignments_key @ v
     @ CHR ''['' # objects_text xs @ tail"

definition registry_layout :: "string \<Rightarrow> string \<Rightarrow> string \<Rightarrow> string \<Rightarrow> string \<Rightarrow> laid_object list \<Rightarrow> string \<Rightarrow> bool" where
  "registry_layout head w bits mid v xs tail \<longleftrightarrow> blank w \<and> blank v
     \<and> first_match field_width_key (head @ field_width_key) = Some (length head)
     \<and> first_match assignments_key ((head @ field_width_key @ w @ bits @ mid) @ assignments_key)
         = Some (length (head @ field_width_key @ w @ bits @ mid))
     \<and> bits \<noteq> [] \<and> list_all c_isdigit bits \<and> (mid = [] \<or> \<not> c_isdigit (hd mid))
     \<and> list_all object_ok xs \<and> length xs \<le> 64
     \<and> closes_array tail \<and> NUL \<notin> set (registry_text head w bits mid v xs tail)"

lemma first_match_char: "c \<notin> set xs \<Longrightarrow> first_match [c] (xs @ [c]) = Some (length xs)"
proof (induction xs)
  case Nil
  then show ?case by (simp add: first_match.simps)
next
  case (Cons d xs)
  then show ?case by (simp add: first_match.simps [of "[c]" "d # xs @ [c]"])
qed

lemma registry_places:
  assumes "e < length buf" "buf ! e = NUL" "take e buf = registry_text head w bits mid v xs tail"
    and "registry_layout head w bits mid v xs tail"
  shows "c_strstr buf 0 field_width_key = Some (Some (length head))"
    "left buf e (length head + length field_width_key) = w @ bits @ mid @ assignments_key @ v @ CHR ''['' # objects_text xs @ tail"
    "length head + length field_width_key \<le> e"
    "\<exists>q k. c_strstr buf 0 assignments_key = Some (Some q) \<and> c_strstr buf q ''['' = Some (Some k)
      \<and> left buf e (k + 1) = objects_text xs @ tail \<and> k + 1 \<le> e"
proof -
  let ?X = "head @ field_width_key @ w @ bits @ mid"
  have e: "e \<le> length buf" using assms(1) by simp
  have l0: "left buf e 0 = registry_text head w bits mid v xs tail" using assms(3) by (simp add: left_def)
  have len: "length (registry_text head w bits mid v xs tail) = e" using arg_cong [OF assms(3), of length] assms(1) by simp
  have n: "NUL \<notin> set (registry_text head w bits mid v xs tail)" using assms(4) by (simp add: registry_layout_def)
  have "buf = take e buf @ drop e buf" by simp
  also have "drop e buf = NUL # drop (Suc e) buf" using assms(1,2) by (simp add: Cons_nth_drop_Suc [symmetric])
  finally obtain rest where b: "buf = registry_text head w bits mid v xs tail @ NUL # rest" using assms(3) by metis
  show "c_strstr buf 0 field_width_key = Some (Some (length head))"
    using c_strstr_layout [of 0 buf head field_width_key "w @ bits @ mid @ assignments_key @ v @ CHR ''['' # objects_text xs @ tail"]
      b n assms(4) by (simp add: registry_text_def registry_layout_def)
  show "left buf e (length head + length field_width_key) = w @ bits @ mid @ assignments_key @ v @ CHR ''['' # objects_text xs @ tail"
    using left_append [of buf e 0 "head @ field_width_key", OF _ e] l0 by (simp add: registry_text_def)
  show "length head + length field_width_key \<le> e" using len by (simp add: registry_text_def)
  have d0: "drop 0 buf = ?X @ assignments_key @ (v @ CHR ''['' # objects_text xs @ tail) @ NUL # rest"
    using b by (simp add: registry_text_def)
  have n0: "NUL \<notin> set (?X @ assignments_key @ (v @ CHR ''['' # objects_text xs @ tail))"
    using n by (simp add: registry_text_def)
  have "first_match assignments_key (?X @ assignments_key) = Some (length ?X)"
    using assms(4) unfolding registry_layout_def by (elim conjE)
  from c_strstr_layout [OF d0 n0 this] have q: "c_strstr buf 0 assignments_key = Some (Some (length ?X))"
    by (simp only: add_0)
  have d: "drop (length ?X) buf = (assignments_key @ v) @ ''['' @ (objects_text xs @ tail) @ NUL # rest"
    using arg_cong [OF b, of "drop (length ?X)"] by (simp add: registry_text_def)
  have "blank v" using assms(4) unfolding registry_layout_def by (elim conjE)
  moreover have "\<not> c_isspace CHR ''[''" by (simp add: c_isspace_def)
  ultimately have "CHR ''['' \<notin> set v" unfolding list_all_iff by blast
  then have "CHR ''['' \<notin> set (assignments_key @ v)" by (simp add: assignments_key_def)
  from c_strstr_layout [OF d _ first_match_char [OF this]] n
  have k: "c_strstr buf (length ?X) ''['' = Some (Some (length ?X + length (assignments_key @ v)))"
    by (simp add: registry_text_def)
  have "left buf e (0 + length (?X @ assignments_key @ v @ ''['')) = objects_text xs @ tail"
    by (rule left_append [OF _ e]) (simp add: l0 registry_text_def)
  then have "left buf e (length ?X + length (assignments_key @ v) + 1) = objects_text xs @ tail" by (simp add: add.assoc)
  moreover have "length ?X + length (assignments_key @ v) + 1 \<le> e" using len by (simp add: registry_text_def)
  ultimately show "\<exists>q k. c_strstr buf 0 assignments_key = Some (Some q) \<and> c_strstr buf q ''['' = Some (Some k)
      \<and> left buf e (k + 1) = objects_text xs @ tail \<and> k + 1 \<le> e" using q k by blast
qed

section \<open>Properties\<close>

text \<open>C21: the registry check accepts exactly the valid registries. For a file whose first 16383 bytes are a
  registry text, with any blanks in each place where the tool skips them, the tool exits with 0 exactly if
  the identifier field is 8 bits wide and the rows are
  valid: identifiers from 1 to 127, no identifier, name or owner twice, a status of the vocabulary,
  stable exactly together with a Stable specification that is cited, and the four standard bindings.
  What stands behind those bytes has no influence, and neither has a missing closing bracket.\<close>

theorem registry_check_exact:
  assumes "stack_ok s" "take 16383 contents = registry_text head w bits mid v xs tail"
    and "registry_layout head w bits mid v xs tail" "decimal bits \<le> INT_MAX"
  shows "\<exists>r. validate_transport_registry s (Some contents) = Some r
    \<and> (\<forall>n. r = Inr n \<longleftrightarrow> decimal bits = 8 \<and> valid_registry (map object_row xs) \<and> n = length xs)"
proof -
  obtain buf e where be: "read_file s contents = (buf, e)" by fastforce
  note f = read_file_facts [OF assms(1) be]
  have t: "take e buf = registry_text head w bits mid v xs tail" using f(2) assms(2) by simp
  note p = registry_places [OF f(3,4) t assms(3)]
  have e: "e \<le> length buf" using f(3) by simp
  note l = assms(3) [unfolded registry_layout_def]
  let ?t = "mid @ assignments_key @ v @ CHR ''['' # objects_text xs @ tail"
  have "?t = [] \<or> \<not> c_isdigit (hd ?t)" using l by (cases mid) (auto simp: assignments_key_def c_isdigit_def)
  then obtain i where i: "parse_int buf (length head + length field_width_key) e 0 = Some (Some i, int (decimal bits))"
    using parse_int_digits [OF e p(3), of w bits ?t 0] p(2) l assms(4) by auto
  obtain q k where k: "c_strstr buf 0 assignments_key = Some (Some q)" "c_strstr buf q ''['' = Some (Some k)"
      "left buf e (k + 1) = objects_text xs @ tail" "k + 1 \<le> e" using p(4) by blast
  obtain as where as: "parse_assignments buf e s [] (k + 1) = Some (Inr as)" "list_all assignment_ok as"
      "map row_of as = map object_row xs"
    using parse_assignments_objects [OF e k(4,3), of s "[]"] assms(1) l by auto
  obtain r where r: "validate_assignments as = Some r"
      "\<forall>n. r = Inr n \<longleftrightarrow> valid_registry (map object_row xs) \<and> n = length as"
    using validate_assignments_iff [OF as(2)] as(3) by auto
  have "length as = length xs" using arg_cong [OF as(3), of length] by simp
  moreover have "validate_transport_registry s (Some contents)
      = Some (if decimal bits = 8 then r else Inl (Wrong_Field_Width (int (decimal bits))))"
    using be p(1) i k(1,2) as(1) r(1) by (simp add: validate_transport_registry_def check_registry_def)
  ultimately show ?thesis using r(2) by auto
qed

text \<open>The assignments of the published registry, with the line breaks and indents of the file.\<close>

definition indented :: "nat \<Rightarrow> string" where
  "indented n = CHR 0x0A # replicate n CHR 0x20"

fun published_members :: "member list \<Rightarrow> laid_member list" where
  "published_members [] = []"
| "published_members (m # ms) = \<lparr>before_key = indented 3, after_key = [], before_value = '' '',
     after_value = (if ms = [] then indented 2 else []), laid_value = m\<rparr> # published_members ms"

definition published_object :: "member list \<Rightarrow> laid_object" where
  "published_object ms = \<lparr>before_object = indented 2, object_members = published_members ms, after_object = []\<rparr>"

definition published_assignments :: "laid_object list" where
  "published_assignments = [
    published_object [
      Id_Member ''1'', Name_Member ''MCL_AP'', Status_Member ''provisional'', Owner_Member ''mcl-ap'',
      Description_Member ''family'' ''acoustic'',
      Description_Member ''detail''
        ''Airborne acoustic carriage. The rendezvous medium that needs no prior network. Band, modulation and rate are profile concerns; AP-B0 is not selected.''],
    published_object [
      Id_Member ''2'', Name_Member ''MCL_IP'', Status_Member ''stable'', Owner_Member ''mcl-ip'',
      Description_Member ''family'' ''internet_protocol'',
      Description_Member ''detail''
        ''IP carriage over any underlying link, Wi-Fi and Ethernet alike. Datagram carriage maps one frame per datagram; stream carriage is length-prefixed. The underlying link technology is deliberately not part of the identifier.'',
      Spec_Member ''mcl-ip/spec/ip-datagram-profile-v1.md'', Spec_Status_Member ''Stable'',
      Description_Member ''specification_note''
        ''Stable. Line 4 of that specification names transport_id = 2 normatively, so the assignment lives in a Stable document and not in reference-implementation behaviour.''],
    published_object [
      Id_Member ''3'', Name_Member ''MCL_BLE'', Status_Member ''stable'', Owner_Member ''mcl-ble'',
      Description_Member ''family'' ''bluetooth_low_energy'',
      Description_Member ''detail''
        ''Bluetooth Low Energy, connectionless advertising or connected GATT carriage.'',
      Spec_Member ''mcl-ble/spec/ble-gatt-profile-v1.md'', Spec_Status_Member ''Stable'',
      Description_Member ''specification_note''
        ''Stable. Line 4 of that specification names transport_id = 3 normatively, so the assignment lives in a Stable document and not in reference-implementation behaviour.''],
    published_object [
      Id_Member ''4'', Name_Member ''MCL_UWB'', Status_Member ''provisional'', Owner_Member ''mcl-uwb'',
      Description_Member ''family'' ''ultra_wideband'',
      Description_Member ''detail''
        ''Ultra-wideband carriage. Ranging measurements from this family are proximity EVIDENCE and never proof of co-presence.'']]"

definition published_text :: string where
  "published_text = registry_text (CHR ''{'' # indented 1) '' '' ''8'' ('','' @ indented 1) '' '' published_assignments
     (indented 1 @ '']'' @ indented 0 @ ''}'')"

definition cleared_stack :: stack_arrays where
  "cleared_stack = \<lparr>stack_buf = replicate 16384 NUL, stack_key = replicate 64 NUL, stack_discard = replicate 512 NUL\<rparr>"

lemma cleared_stack_ok: "stack_ok cleared_stack"
  by (simp add: stack_ok_def cleared_stack_def)

lemmas published_defs = published_text_def registry_text_def published_assignments_def published_object_def indented_def
  member_text_def object_text_def quoted_def field_width_key_def assignments_key_def

lemma published_layout: "registry_layout (CHR ''{'' # indented 1) '' '' ''8'' ('','' @ indented 1) '' '' published_assignments
    (indented 1 @ '']'' @ indented 0 @ ''}'')"
  by (simp add: registry_layout_def published_defs first_match.simps c_isspace_def c_isdigit_def decimal_def digit_value_def
      INT_MAX_def plain_def object_ok_def laid_ok_def closes_array_def list_all_iff)

lemma published_valid: "valid_registry (map object_row published_assignments)" "length published_assignments = 4"
  by (simp_all add: published_assignments_def published_object_def valid_registry_def sound_rows_def valid_row_def object_row_def
      blank_row_def standard_bindings_def binding_of_def decimal_def digit_value_def)

theorem registry_check_exact_witness:
  "validate_transport_registry cleared_stack (Some published_text) = Some (Inr 4)"
proof -
  have t: "take 16383 published_text = published_text" by (simp add: published_defs)
  have d: "decimal ''8'' \<le> INT_MAX" "decimal ''8'' = 8" by (simp_all add: decimal_def digit_value_def INT_MAX_def)
  obtain r where r: "validate_transport_registry cleared_stack (Some published_text) = Some r"
      "\<forall>n. r = Inr n \<longleftrightarrow> decimal ''8'' = 8 \<and> valid_registry (map object_row published_assignments) \<and> n = length published_assignments"
    using registry_check_exact [OF cleared_stack_ok _ published_layout d(1)] t unfolding published_text_def by blast
  have "r = Inr 4" using r(2) d(2) published_valid by simp
  then show ?thesis using r(1) by (simp only:)
qed

text \<open>C28: the registry check always comes to an end. If no number in the first 16383 bytes of the file
  exceeds \<open>INT_MAX\<close>, then whatever the file holds, no loop of the tool runs forever and no access
  leaves the file buffer or any array; a file it accepts has from 4 to 64 assignments.\<close>

theorem registry_tool_terminates:
  assumes "stack_ok s" "small_numbers (take 16383 contents)"
  shows "\<exists>r. validate_transport_registry s (Some contents) = Some r \<and> (\<forall>n. r = Inr n \<longrightarrow> 4 \<le> n \<and> n \<le> 64)"
proof -
  obtain buf e where be: "read_file s contents = (buf, e)" by fastforce
  note f = read_file_facts [OF assms(1) be]
  show ?thesis
    using check_registry_total [OF assms(1) f(3,4)] f(2) assms(2) be by (simp add: validate_transport_registry_def)
qed

theorem registry_tool_terminates_witness:
  "\<exists>r. validate_transport_registry cleared_stack (Some ''{7}'') = Some r \<and> (\<forall>n. r = Inr n \<longrightarrow> 4 \<le> n \<and> n \<le> 64)"
proof -
  have "small_numbers (take 16383 ''{7}'')"
    by (auto simp: small_numbers_def less_Suc_eq decimal_def digit_value_def c_isdigit_def INT_MAX_def)
  from registry_tool_terminates [OF cleared_stack_ok this] show ?thesis .
qed

text \<open>A number that is too large is not diagnosed. If the width of the field is written with digits whose
  value exceeds \<open>INT_MAX\<close>, the tool computes a signed overflow, for which C defines no behaviour,
  instead of rejecting the file.\<close>

lemma registry_number_overflows:
  assumes "stack_ok s" "take 16383 contents = registry_text head w bits mid v xs tail"
    and "registry_layout head w bits mid v xs tail" "INT_MAX < decimal bits"
  shows "validate_transport_registry s (Some contents) = None"
proof -
  obtain buf e where be: "read_file s contents = (buf, e)" by fastforce
  note f = read_file_facts [OF assms(1) be]
  have t: "take e buf = registry_text head w bits mid v xs tail" using f(2) assms(2) by simp
  note p = registry_places [OF f(3,4) t assms(3)]
  note l = assms(3) [unfolded registry_layout_def]
  have e: "e \<le> length buf" using f(3) by simp
  let ?t = "mid @ assignments_key @ v @ CHR ''['' # objects_text xs @ tail"
  have "?t = [] \<or> \<not> c_isdigit (hd ?t)" using l by (cases mid) (auto simp: assignments_key_def c_isdigit_def)
  then have "parse_int buf (length head + length field_width_key) e 0 = None"
    using parse_int_digits [OF e p(3), of w bits ?t 0] p(2) l assms(4) by simp
  then show ?thesis using be p(1) by (simp add: validate_transport_registry_def check_registry_def)
qed

lemma registry_number_overflows_witness:
  "validate_transport_registry cleared_stack (Some (registry_text ''{'' '''' ''4294967304'' '','' '''' [] '']}'')) = None"
proof -
  have l: "registry_layout ''{'' '''' ''4294967304'' '','' '''' [] '']}''"
    by (simp add: registry_layout_def registry_text_def field_width_key_def assignments_key_def first_match.simps c_isdigit_def
      closes_array_def c_isspace_def)
  show ?thesis
    by (rule registry_number_overflows [OF cleared_stack_ok _ l])
      (simp_all add: registry_text_def field_width_key_def assignments_key_def decimal_def digit_value_def INT_MAX_def)
qed

end
