(* ===== verification/Spec2Isabelle.thy ===== *)
theory Spec2Isabelle
  imports Mcl_Link Mcl_Frame Mcl_Control Mcl_Handoff Mcl_Negotiation Mcl_Rendezvous Mcl_Contact_Runs Mcl_Migration
    Mcl_Recovery Mcl_Session Mcl_Verdicts Mcl_Registry
begin

text \<open>
  A verification library for MCL Link, the C99 library in \<open>src/src\<close> and \<open>src/include/mcl\<close>: a link
  between two machines, its frames, and the migration of a contact from one medium to another; and for
  the two host tools in \<open>src/tools\<close> that guard its published vectors and registry.

  \<^bold>\<open>The program.\<close> All state belongs to the caller; the library is a set of functions on structures
  and buffers that return a status. \<open>link.c\<close> holds the lifecycle of a link with its negotiated
  context, the CRC and the frame codec. \<open>control.c\<close>, \<open>handoff.c\<close>, \<open>negotiation.c\<close> and
  \<open>endpoint_rendezvous.c\<close> hold the bodies that travel in frames, or beside them. \<open>contact.c\<close> is the
  state machine of a contact and its migration. The files share only the status codes; the caller
  moves bytes between them. \<open>validate_handoff_vectors.c\<close> runs the handoff codec on the vectors of a
  JSON file, and \<open>validate_transport_registry.c\<close> parses and validates the registry of transports;
  both are programs with one input file and an exit code.

  \<^bold>\<open>Theories and sources.\<close>
  \<^item> \<open>Mcl_Prelude\<close>: statuses, byte memory, loops and big-endian integers, used by all.
  \<^item> \<open>Mcl_Calls\<close>: sequences of calls on one object, locale \<open>call_machine\<close>.
  \<^item> \<open>Mcl_Codec\<close>: locales \<open>message_codec\<close> and \<open>stream_codec\<close>, the contracts of a wire format.
  \<^item> \<open>Mcl_Link\<close>: lifecycle and context of \<open>link.c\<close>; \<open>Mcl_Crc\<close>: \<open>mcl_link_crc32\<close>;
    \<open>Mcl_Frame\<close>: the frame encoder and decoder.
  \<^item> \<open>Mcl_Control\<close>, \<open>Mcl_Handoff\<close>, \<open>Mcl_Negotiation\<close>, \<open>Mcl_Rendezvous\<close>: the other sources of that name.
  \<^item> \<open>Mcl_Contact\<close>: \<open>contact.c\<close>; \<open>Mcl_Contact_Spec\<close>: its abstract view and the simulation;
    \<open>Mcl_Contact_Runs\<close>: properties of one contact over whole runs.
  \<^item> \<open>Mcl_Session\<close>: two peers that negotiate a session in frames over an unreliable network, with their links.
  \<^item> \<open>Mcl_Offers\<close>: two contacts that exchange offers and acceptances of a migration over an unreliable network;
    \<open>Mcl_Migration\<close>: two contacts that have agreed and exchange encoded handoff controls over such a network.
  \<^item> \<open>Mcl_Continuity\<close>: offers and handoff controls together, for any number of migrations one after the other,
    as a refinement of a small protocol on nodes and signals; \<open>Mcl_Recovery\<close>: the references of its
    commits, how a contact that waits catches up, and when it cannot.
  \<^item> \<open>Mcl_Text\<close>: character arrays, and the functions of \<open><string.h>\<close>, \<open><ctype.h>\<close> and \<open><stdlib.h>\<close> that
    the tools call; \<open>Mcl_Vectors\<close> and \<open>Mcl_Registry\<close>: the two tools; \<open>Mcl_Verdicts\<close>: the
    vector tool against the sequence of verdicts that its file holds.
  \<^item> This theory: handoff controls carried in frames on one byte stream, and the frame floor.

  Definitions carry the names of the C functions and structures. Structure fields are prefixed with
  the structure's short name (\<open>link_state\<close>, \<open>contact_state\<close>). A definition whose name is not in the
  source either is a loop or branch of a C function, named in the text before it, or belongs to the
  specification side.

  \<^bold>\<open>Conventions.\<close> A pointer parameter is an \<open>option\<close>; \<open>None\<close> is NULL. A result \<open>None\<close> of a function is a
  fault (an access outside an object), so every theorem that gives a \<open>Some\<close> also says that no
  fault happens. Outputs are returned beside the status, and are the inputs where the C code does
  not write them. \<open>uint8_t\<close>, \<open>uint16_t\<close>, \<open>uint32_t\<close> are words and wrap; \<open>size_t\<close> is a natural
  number, with subtraction as a partial function where the code subtracts. Pointer parameters are
  taken to refer to distinct objects; the one aliasing a caller is likely to use (a challenge inside
  the control being rebuilt) is modelled in \<open>Mcl_Handoff\<close>.

  \<^bold>\<open>The tools.\<close> A tool is a function of the contents of its file. A pointer into the text is an offset
  below an \<open>end\<close>. Uninitialised arrays are arguments of any contents (\<open>scratch\<close>, \<open>stack_arrays\<close>) of the
  declared lengths. The loops that search for a key or parse an object are \<open>partial_function\<close>s, so
  their termination is a theorem: each turn moves the offset forward. \<open>int\<close> has 32 bits, and a
  signed overflow is a fault; the maximum of \<open>unsigned long\<close> is a parameter. The diagnostics of the
  registry tool are the constructors of \<open>registry_error\<close>; those of the vector tool are left out.

  \<^bold>\<open>What the lemmas show.\<close> For each codec, an equation for the encoder and the decoder on every branch, and
  an interpretation of the codec locale: the decoder accepts exactly the strings that the encoder
  produces from valid values. For each state machine, an invariant that every call keeps, the
  behaviour on every branch, a simulation by an abstract specification, and, through
  \<open>call_machine\<close>, facts about runs of arbitrary calls. For the pair of negotiating peers, that whoever is in
  the session holds the one outcome the capabilities determine, and that a session can be reached
  from every state of the exchange. For the pair of contacts, that they come to an agreement on one offer and
  one session, from where they never rest on different media and a commit can always be completed; that
  this holds over any number of migrations whose messages mix, as long as every new offer has its own reference and no
  offer reaches a peer that has dealt with it and no longer has it pending (\<open>\<not> replays\<close>), or the callers drop such
  offers (the argument \<open>careful\<close> of \<open>handoffs_exec\<close>), and that a contact that waits can be brought in; and
  four ways in which these guarantees can be lost: a lost acceptance followed by
  abandonment, a receiver that abandons, a reference that is used again, and an old offer that is
  delivered again to a caller who keeps no record. \<open>contact.h\<close> does not state that assumption on old offers; that it is needed is
  shown by runs of the same system without it. For the tools, that they always end, what exactly they accept or count,
  and where they accept or skip what they are meant to reject.

  \<^bold>\<open>Not modelled.\<close> The test programs, the build files, the documents and the JSON registries, which
  hold no code; opening and reading a file, and the text of the diagnostics. Timing and expiry are left to the caller by the library and appear nowhere.
  The bodies of \<open>TRANSPORT_OFFER\<close> and \<open>TRANSPORT_ACCEPT\<close> are encoded by another library; in \<open>Mcl_Offers\<close> they
  are values that arrive as they were sent. What a caller does between the calls (\<open>Mcl_Offers\<close>, \<open>Mcl_Migration\<close>,
  \<open>Mcl_Continuity\<close>, \<open>Mcl_Session\<close>) is not code of the repository but what its headers and specifications ask of a caller.
\<close>

section \<open>Handoff controls inside frames\<close>

text \<open>A frame with a given header that carries one handoff control, and a receiver that cuts the stream
  into frames and decodes the payload of each, until what is left is not a whole frame.\<close>

definition carried :: "mcl_link_frame \<Rightarrow> mcl_handoff_control \<Rightarrow> mcl_link_frame" where
  "carried header c = framed header (frame_class header) (handoff_emit c)"

function receive_controls :: "byte list \<Rightarrow> mcl_handoff_control list" where
  "receive_controls stream = (case frame_accept stream of
     None \<Rightarrow> []
   | Some (f, k) \<Rightarrow> (case handoff_accept (payload_bytes f) of
       None \<Rightarrow> []
     | Some c \<Rightarrow> c # receive_controls (drop k stream)))"
  by pat_completeness auto
termination
proof (relation "measure length")
  fix stream :: "byte list" and x f k c
  assume "frame_accept stream = Some x" "(f, k) = x"
  then have a: "frame_accept stream = Some (f, k)" by simp
  then have "k \<le> length stream" "frame_emit f = take k stream" "frame_wire f" using frame.emit_accept by blast+
  moreover from this have "take k stream \<noteq> []" using frame.emit_nonempty [of f] by simp
  ultimately show "(drop k stream, stream) \<in> measure length" by auto
qed simp

declare receive_controls.simps [simp del]

lemma length_handoff_emit:
  assumes "handoff_valid c"
  shows "length (handoff_emit c) = 10 \<or> length (handoff_emit c) = 18"
proof -
  have "length (handoff_emit c) = mcl_handoff_control_encoded_size (control_operation c)"
    using assms handoff_emit_eq handoff_valid_size by simp
  then show ?thesis using assms by (auto simp: handoff_valid_def encoded_size_cases)
qed

lemma carried_wire:
  assumes "frame_wire header" "handoff_valid c"
  shows "frame_wire (carried header c)" "payload_bytes (carried header c) = handoff_emit c"
proof -
  have l: "0 < length (handoff_emit c)" "length (handoff_emit c) \<le> MCL_LINK_FRAME_MAX_PAYLOAD"
    using length_handoff_emit [OF assms(2)] by auto
  have "frame_class header < 10" "frame_class header \<noteq> 7" using assms(1) by (simp_all add: frame_wire_def frame_ok_def)
  from framed_wire [OF assms(1) this l]
  show "frame_wire (carried header c)" "payload_bytes (carried header c) = handoff_emit c" by (simp_all add: carried_def)
qed

definition sample_commit :: mcl_handoff_control where
  "sample_commit = \<lparr>control_operation = 3, control_migration_ref = 7, control_session_ref = 9,
     control_challenge = replicate 8 0, control_challenge_present = 0\<rparr>"

definition sample_confirm :: mcl_handoff_control where
  "sample_confirm = sample_commit\<lparr>control_operation := 4\<rparr>"

text \<open>C20: handoff controls survive the byte stream. Any sequence of valid controls, each encoded, put into a
  frame with the same admissible header and encoded again, is recovered from the concatenated bytes
  exactly and in order; a last frame of which only a proper prefix has arrived yields nothing.\<close>

theorem controls_over_stream:
  assumes "frame_wire header" "list_all handoff_valid cs" "handoff_valid c" "i < length (frame_emit (carried header c))"
  shows "receive_controls (concat (map (\<lambda>c. frame_emit (carried header c)) cs) @ take i (frame_emit (carried header c))) = cs"
  using assms(2)
proof (induction cs)
  case Nil
  have "frame_accept (frame_emit (carried header c)) = Some (carried header c, length (frame_emit (carried header c)))"
    using frame.accept_emit [OF carried_wire(1) [OF assms(1,3)], of "[]"] by simp
  from frame.accept_cut [OF this assms(4)] show ?case by (subst receive_controls.simps) simp
next
  case (Cons d cs)
  then have v: "handoff_valid d" "list_all handoff_valid cs" by simp_all
  note a = frame.accept_emit [OF carried_wire(1) [OF assms(1) v(1)]]
  have "handoff_accept (payload_bytes (carried header d)) = Some d"
    unfolding carried_wire(2) [OF assms(1) v(1)] by (rule handoff.accept_emit [OF v(1)])
  then show ?case using Cons.IH [OF v(2)] by (subst receive_controls.simps) (simp add: a)
qed

theorem controls_over_stream_witness:
  "receive_controls (concat (map (\<lambda>c. frame_emit (carried blank_frame c)) [sample_commit])
    @ take 4 (frame_emit (carried blank_frame sample_confirm))) = [sample_commit]"
proof (rule controls_over_stream)
  have v: "handoff_valid sample_commit" "handoff_valid sample_confirm"
    by (simp_all add: handoff_valid_def sample_commit_def sample_confirm_def carries_def)
  then show "list_all handoff_valid [sample_commit]" "handoff_valid sample_confirm" by simp_all
  show w: "frame_wire blank_frame"
    by (simp add: frame_wire_def frame_ok_def blank_frame_def frame_content_def flagged_def pointee_def)
  then have "frame_wire (carried blank_frame sample_confirm)" by (rule carried_wire(1) [OF _ v(2)])
  then show "4 < length (frame_emit (carried blank_frame sample_confirm))"
    by (simp add: frame_wire_def frame_emit_eq length_frame_bytes)
qed


section \<open>The frame floor\<close>

text \<open>A header with every optional field, and a control with a challenge.\<close>

definition full_header :: mcl_link_frame where
  "full_header = blank_frame\<lparr>frame_flags := 0x1F\<rparr>"

definition sample_challenge :: mcl_handoff_control where
  "sample_challenge = sample_commit\<lparr>control_operation := 1, control_challenge_present := 1\<rparr>"

lemma full_header_facts:
  "frame_wire full_header" "handoff_valid sample_challenge" "length (handoff_emit sample_challenge) = 18"
  "mcl_link_optional_size (frame_flags full_header) = 16"
proof -
  show "frame_wire full_header"
    by (simp add: full_header_def frame_wire_def frame_ok_def blank_frame_def frame_content_def flagged_def pointee_def)
  show v: "handoff_valid sample_challenge"
    by (simp add: handoff_valid_def sample_challenge_def sample_commit_def carries_def)
  show "length (handoff_emit sample_challenge) = 18"
    unfolding handoff_emit_eq [OF v] by (simp add: handoff_bytes_def sample_challenge_def sample_commit_def carries_def)
  show "mcl_link_optional_size (frame_flags full_header) = 16"
    by (simp add: full_header_def mcl_link_optional_size_def flagged_def)
qed

text \<open>C30: the floor of a negotiated frame limit is the right one. Whatever two capabilities the selection
  joins, every admissible frame that carries a handoff control, with any flags, at any major, fits the negotiated
  limit; and no lower floor would do, since some such frame is exactly as long as the floor.\<close>

theorem negotiated_frame_carries_control:
  assumes "mcl_link_negotiation_select (Some l) (Some p) (Some s) = (MCL_LINK_OK, Some n)"
    and "frame_wire header" "handoff_valid c"
  shows "mcl_link_frame_encoded_size (Some (carried header c)) \<le> unat (neg_max_frame n)
    \<and> (\<exists>h d. frame_wire h \<and> handoff_valid d
        \<and> mcl_link_frame_encoded_size (Some (carried h d)) = MCL_LINK_NEGOTIATED_FRAME_FLOOR)"
proof -
  have "selectable l p" "n = selected l p" using assms(1) by (auto simp: select_eq split: if_splits)
  then have n: "42 \<le> unat (neg_max_frame n)" using selected_valid by (simp add: negotiation_valid_def)
  have size: "mcl_link_frame_encoded_size (Some (carried h c))
      = 8 + mcl_link_optional_size (frame_flags h) + length (handoff_emit c)"
    if h: "frame_wire h" and c: "handoff_valid c" for h c
  proof -
    have ok: "frame_ok (carried h c)" using carried_wire(1) [OF h c] by (simp add: frame_wire_def)
    have "frame_flags (carried h c) = frame_flags h" by (simp add: carried_def framed_def)
    moreover have "unat (frame_payload_len (carried h c)) = length (handoff_emit c)"
      using length_handoff_emit [OF c] by (auto simp: carried_def framed_def)
    ultimately show ?thesis using encoded_size_eq [OF ok] length_frame_bytes [OF ok] by simp
  qed
  have opt: "mcl_link_optional_size (frame_flags header) \<le> 16" by (simp add: mcl_link_optional_size_def)
  have "length (handoff_emit c) \<le> 18" using length_handoff_emit [OF assms(3)] by auto
  then have "mcl_link_frame_encoded_size (Some (carried header c)) \<le> unat (neg_max_frame n)"
    using n size [OF assms(2,3)] opt by linarith
  moreover have "frame_wire full_header" "handoff_valid sample_challenge" "length (handoff_emit sample_challenge) = 18"
      "mcl_link_optional_size (frame_flags full_header) = 16"
    using full_header_facts by auto
  then have "mcl_link_frame_encoded_size (Some (carried full_header sample_challenge)) = MCL_LINK_NEGOTIATED_FRAME_FLOOR"
    by (simp add: size FLOOR_eq)
  ultimately show ?thesis using full_header_facts(1,2) by blast
qed

theorem negotiated_frame_carries_control_witness:
  "mcl_link_frame_encoded_size (Some (carried full_header sample_challenge))
    \<le> unat (neg_max_frame (selected (sample_caps Left) (sample_caps Right)))"
proof -
  have "mcl_link_negotiation_select (Some (sample_caps Left)) (Some (sample_caps Right)) (Some blank_negotiation)
      = (MCL_LINK_OK, Some (selected (sample_caps Left) (sample_caps Right)))"
    using sample_session(2) by (simp add: select_eq)
  from negotiated_frame_carries_control [OF this full_header_facts(1,2)] show ?thesis by (rule conjunct1)
qed

end
